(* ===== verification/PG_Prelude.thy ===== *)
theory PG_Prelude
  imports Main "HOL-Library.Word"
begin

text \<open>
  Shared vocabulary of the development: the machine integer types of the C sources, the
  fixed-size character arrays that \<open>snprintf\<close> fills and \<open>%s\<close> reads, decimal
  printing as the \<open>%d\<close> family does it, and the generic lemmas on words and lists that the
  component theories use through the collections declared here.
\<close>

unbundle bit_operations_syntax

named_theorems xosh_simps "unfolding of the generator"
named_theorems byte_simps "byte arrays, C strings and their lengths"
named_theorems io_simps "slot table of chaos_io"

section \<open>Machine integers\<close>

type_synonym u8 = "8 word"
type_synonym u16 = "16 word"
type_synonym u32 = "32 word"
type_synonym u64 = "64 word"

text \<open>Signed 64-bit values (\<open>int64_t\<close>) are words too; \<open>sint\<close> reads them.\<close>

type_synonym i64 = "64 word"

abbreviation ULLONG_MAX :: u64 where
  "ULLONG_MAX \<equiv> - 1"

text \<open>
  A value that equals its own shift by a positive distance is zero: shifting it again and again
  pushes every bit out of the word. This is what makes the xor-shift steps of the generator
  invertible.
\<close>

lemma drop_bit_fixpoint_zero:
  fixes d :: "'a::len word"
  assumes "d = drop_bit k d" and "0 < k"
  shows "d = 0"
proof -
  have iter: "d = drop_bit (k * n) d" for n
  proof (induction n)
    case 0
    then show ?case by simp
  next
    case (Suc n)
    have "drop_bit (k * Suc n) d = drop_bit (k * n) (drop_bit k d)"
      by (simp add: drop_bit_drop_bit add.commute)
    with assms(1) Suc show ?case by simp
  qed
  have "drop_bit (k * LENGTH('a)) d = 0"
    using assms(2) by (intro bit_word_eqI) (auto simp: bit_simps dest: bit_imp_le_length)
  with iter show ?thesis by metis
qed

lemma push_bit_fixpoint_zero:
  fixes d :: "'a::len word"
  assumes "d = push_bit k d" and "0 < k"
  shows "d = 0"
proof -
  have iter: "d = push_bit (k * n) d" for n
  proof (induction n)
    case 0
    then show ?case by simp
  next
    case (Suc n)
    have "push_bit (k * Suc n) d = push_bit (k * n) (push_bit k d)"
      by (simp add: push_bit_push_bit add.commute)
    with assms(1) Suc show ?case by simp
  qed
  have "push_bit (k * LENGTH('a)) d = 0"
    using assms(2) by (intro bit_word_eqI) (auto simp: bit_simps)
  with iter show ?thesis by metis
qed

lemma xor_cross_cancel:
  fixes a b c d :: "'a::len word"
  assumes "a XOR b = c XOR d"
  shows "a XOR c = b XOR d"
proof (rule bit_word_eqI)
  fix n
  from assms have "bit (a XOR b) n = bit (c XOR d) n" by simp
  then show "bit (a XOR c) n = bit (b XOR d) n" by (auto simp: bit_xor_iff)
qed

lemma xor_eq_zero_iff [simp]:
  fixes a b :: "'a::len word"
  shows "a XOR b = 0 \<longleftrightarrow> a = b"
  by (auto simp: bit_eq_iff bit_xor_iff)

lemma xor_drop_inject:
  fixes x y :: "'a::len word"
  assumes "x XOR drop_bit k x = y XOR drop_bit k y" and "0 < k"
  shows "x = y"
proof -
  have "x XOR y = drop_bit k (x XOR y)"
    unfolding drop_bit_xor by (rule xor_cross_cancel [OF assms(1)])
  then have "x XOR y = 0" using assms(2) by (rule drop_bit_fixpoint_zero)
  then show ?thesis by simp
qed

lemma xor_push_inject:
  fixes x y :: "'a::len word"
  assumes "x XOR push_bit k x = y XOR push_bit k y" and "0 < k"
  shows "x = y"
proof -
  have "x XOR y = push_bit k (x XOR y)"
    unfolding push_bit_xor by (rule xor_cross_cancel [OF assms(1)])
  then have "x XOR y = 0" using assms(2) by (rule push_bit_fixpoint_zero)
  then show ?thesis by simp
qed

lemma xor_left_cancel [simp]:
  fixes a b c :: "'a::len word"
  shows "a XOR b = a XOR c \<longleftrightarrow> b = c"
  by (metis xor.assoc xor_self_eq xor.left_neutral)

lemma xor_right_cancel [simp]:
  fixes a b c :: "'a::len word"
  shows "b XOR a = c XOR a \<longleftrightarrow> b = c"
  by (metis xor.commute xor_left_cancel)

text \<open>Multiplication by a constant with a known inverse is injective.\<close>

lemma mult_unit_inject:
  fixes x y c d :: "'a::len word"
  assumes "x * c = y * c" and "c * d = 1"
  shows "x = y"
  by (metis assms mult.assoc mult.right_neutral)

lemma uint_lt_64: "uint (w :: u64) < 18446744073709551616"
  using unsigned_less [of w, where ?'a = int] by simp

lemma unat_lt_64: "unat (w :: u64) < 18446744073709551616"
  using unsigned_less [of w, where ?'a = nat] by simp

lemma unat_lt_32: "unat (w :: u32) < 4294967296"
  using unsigned_less [of w, where ?'a = nat] by simp

end
