(* ===== verification/C_Lib.thy ===== *)
theory C_Lib
  imports PG_Prelude
begin

text \<open>
  What the sources use of the C library: NUL-terminated strings in fixed-size arrays
  (\<open>snprintf\<close> into a zeroed array, \<open>%s\<close> out of it), decimal and hexadecimal
  conversion as \<open>printf\<close> does it, \<open>strtoul\<close> and \<open>strtoull\<close> with their
  saturation and sign rules, little-endian object representation of the unsigned types, and
  the division of a record stream into fixed-size frames.
\<close>

section \<open>Characters and bytes\<close>

definition bytes :: "string \<Rightarrow> u8 list" where
  "bytes s = map of_char s"

text \<open>
  \<open>snprintf(buf, n, "%s", s)\<close> on a zeroed array of \<open>n\<close> bytes, \<open>n > 0\<close>: at most
  \<open>n - 1\<close> bytes of the string, then NUL. The bytes behind keep their zero.
\<close>

definition cfield :: "nat \<Rightarrow> u8 list \<Rightarrow> u8 list" where
  "cfield n s = take (n - 1) s @ replicate (n - min (n - 1) (length s)) 0"

text \<open>
  Reading a C string: the bytes before the first NUL. \<open>None\<close> when the array holds no NUL,
  that is, when the reader runs past the end of the array.
\<close>

definition cstr :: "u8 list \<Rightarrow> u8 list option" where
  "cstr b = (if 0 \<in> set b then Some (takeWhile (\<lambda>x. x \<noteq> 0) b) else None)"

section \<open>Printing numbers\<close>

definition digit_char :: "nat \<Rightarrow> char" where
  "digit_char d = (if d < 10 then char_of (48 + d) else char_of (87 + d))"

fun show_base :: "nat \<Rightarrow> nat \<Rightarrow> string" where
  "show_base b n =
     (if b < 2 \<or> n < b then [digit_char n] else show_base b (n div b) @ [digit_char (n mod b)])"

declare show_base.simps [simp del]

definition show_nat :: "nat \<Rightarrow> string" where
  "show_nat n = show_base 10 n"

definition show_int :: "int \<Rightarrow> string" where
  "show_int i = (if i < 0 then CHR ''-'' # show_nat (nat (- i)) else show_nat (nat i))"

text \<open>\<open>%04x\<close> of a byte.\<close>

definition show_hex4 :: "u8 \<Rightarrow> string" where
  "show_hex4 c = [CHR ''0'', CHR ''0'', digit_char (unat c div 16), digit_char (unat c mod 16)]"

section \<open>Reading numbers\<close>

definition isspace :: "char \<Rightarrow> bool" where
  "isspace c \<longleftrightarrow> (let n = (of_char c :: nat) in n = 32 \<or> 9 \<le> n \<and> n \<le> 13)"

definition digit_val :: "char \<Rightarrow> nat" where
  "digit_val c =
     (let n = (of_char c :: nat)
      in if 48 \<le> n \<and> n \<le> 57 then n - 48
         else if 97 \<le> n \<and> n \<le> 122 then n - 87
         else if 65 \<le> n \<and> n \<le> 90 then n - 55
         else 99)"

fun sign_split :: "string \<Rightarrow> bool \<times> string" where
  "sign_split [] = (False, [])"
| "sign_split (c # cs) =
     (if c = CHR ''-'' then (True, cs) else if c = CHR ''+'' then (False, cs) else (False, c # cs))"

text \<open>The prefix rules of base 0 and base 16.\<close>

definition base_split :: "nat \<Rightarrow> string \<Rightarrow> nat \<times> string" where
  "base_split base s =
     (case s of
        z # x # d # cs \<Rightarrow>
          if (base = 0 \<or> base = 16) \<and> z = CHR ''0'' \<and> (x = CHR ''x'' \<or> x = CHR ''X'') \<and> digit_val d < 16
          then (16, d # cs)
          else (if base = 0 then if z = CHR ''0'' then 8 else 10 else base, s)
      | z # cs \<Rightarrow> (if base = 0 then if z = CHR ''0'' then 8 else 10 else base, s)
      | [] \<Rightarrow> (if base = 0 then 10 else base, s))"

definition digits_val :: "nat \<Rightarrow> string \<Rightarrow> nat" where
  "digits_val base s =
     foldl (\<lambda>v c. v * base + digit_val c) 0 (takeWhile (\<lambda>c. digit_val c < base) s)"

text \<open>
  \<open>strtoull(s, NULL, base)\<close>, and \<open>strtoul\<close> where \<open>unsigned long\<close> has 64 bits: leading
  white space, an optional sign, the digits; the largest value on overflow, and the negation in
  the unsigned type after a minus sign.
\<close>

definition strtoull :: "string \<Rightarrow> nat \<Rightarrow> u64" where
  "strtoull s base =
     (let (neg, s) = sign_split (dropWhile isspace s);
          (b, s) = base_split base s;
          v = digits_val b s
      in if v > 2 ^ 64 - 1 then ULLONG_MAX
         else if neg then - of_nat v else of_nat v)"

section \<open>Object representation of unsigned integers\<close>

fun le_bytes :: "nat \<Rightarrow> nat \<Rightarrow> u8 list" where
  "le_bytes 0 n = []"
| "le_bytes (Suc k) n = of_nat (n mod 256) # le_bytes k (n div 256)"

fun of_le :: "u8 list \<Rightarrow> nat" where
  "of_le [] = 0"
| "of_le (b # bs) = unat b + 256 * of_le bs"

section \<open>Fixed-size frames\<close>

function frames :: "nat \<Rightarrow> 'a list \<Rightarrow> 'a list list" where
  "frames n xs = (if n = 0 \<or> length xs < n then [] else take n xs # frames n (drop n xs))"
  by pat_completeness auto
termination
  by (relation "measure (\<lambda>(n, xs). length xs)") auto

declare frames.simps [simp del]

section \<open>Lemmas\<close>

lemma length_bytes [simp]: "length (bytes s) = length s"
  by (simp add: bytes_def)

lemma bytes_Nil [simp]: "bytes [] = []"
  by (simp add: bytes_def)

lemma bytes_append [simp]: "bytes (s @ t) = bytes s @ bytes t"
  by (simp add: bytes_def)

lemma unat_of_char: "unat (of_char c :: u8) = of_char c"
proof -
  have "(of_char c :: u8) = of_nat (of_char c)" by (simp only: of_nat_of_char)
  moreover have "of_char c < (256 :: nat)" by (rule nat_of_char_less_256)
  ultimately show ?thesis by (simp add: unat_of_nat)
qed

lemma of_char_byte_inject [simp]: "(of_char c :: u8) = of_char d \<longleftrightarrow> c = d"
  by (metis unat_of_char of_char_eq_iff)

lemma bytes_inject [simp]: "bytes s = bytes t \<longleftrightarrow> s = t"
  unfolding bytes_def by (rule inj_map_eq_map) (auto intro: injI)

lemma bytes_no_nul: "CHR 0x00 \<notin> set s \<Longrightarrow> 0 \<notin> set (bytes s)"
proof
  assume s: "CHR 0x00 \<notin> set s" and "0 \<in> set (bytes s)"
  then obtain c where "c \<in> set s" "(of_char c :: u8) = 0" by (auto simp: bytes_def)
  moreover have "(of_char (CHR 0x00) :: u8) = 0" by simp
  ultimately have "c = CHR 0x00" by (metis of_char_byte_inject)
  with s \<open>c \<in> set s\<close> show False by simp
qed

lemma replicate_update: "(replicate n x)[i := x] = replicate n x"
  by (cases "i < n") (auto simp: list_eq_iff_nth_eq nth_list_update)

lemma digit_char_code: "n < 16 \<Longrightarrow> (of_char (digit_char n) :: nat) = (if n < 10 then 48 + n else 87 + n)"
  by (simp add: digit_char_def)

lemma digit_char_byte: "n < 16 \<Longrightarrow> unat (of_char (digit_char n) :: u8) = (if n < 10 then 48 + n else 87 + n)"
  by (simp only: unat_of_char digit_char_code)

lemma show_base_digits:
  "2 \<le> b \<Longrightarrow> c \<in> set (show_base b n) \<Longrightarrow> \<exists>d < b. c = digit_char d"
proof (induction n rule: less_induct)
  case (less n)
  show ?case
  proof (cases "n < b")
    case True
    with less.prems show ?thesis by (auto simp: show_base.simps [of b n])
  next
    case False
    with less.prems have "c \<in> set (show_base b (n div b)) \<or> c = digit_char (n mod b)"
      by (auto simp: show_base.simps [of b n])
    moreover have "n div b < n" using less.prems(1) False by simp
    ultimately show ?thesis
      using less.IH less.prems(1) by (auto intro: exI [of _ "n mod b"])
  qed
qed

lemma show_base_length:
  "2 \<le> b \<Longrightarrow> n < b ^ Suc k \<Longrightarrow> length (show_base b n) \<le> Suc k"
proof (induction k arbitrary: n)
  case 0
  then show ?case by (simp add: show_base.simps [of b n])
next
  case (Suc k)
  show ?case
  proof (cases "n < b")
    case True
    then show ?thesis by (simp add: show_base.simps [of b n])
  next
    case False
    have "n div b < b ^ Suc k"
      using Suc.prems by (simp add: less_mult_imp_div_less mult.commute)
    with Suc.IH [OF Suc.prems(1) this] Suc.prems(1) False show ?thesis
      by (simp add: show_base.simps [of b n])
  qed
qed

lemma digit_char_not_nul: "d < 16 \<Longrightarrow> digit_char d \<noteq> CHR 0x00"
proof
  assume "d < 16" "digit_char d = CHR 0x00"
  then have "(of_char (digit_char d) :: nat) = 0" by simp
  with \<open>d < 16\<close> show False by (simp add: digit_char_code split: if_splits)
qed

lemma show_base_no_nul: "2 \<le> b \<Longrightarrow> b \<le> 16 \<Longrightarrow> CHR 0x00 \<notin> set (show_base b n)"
  by (metis digit_char_not_nul less_le_trans show_base_digits)

lemma length_cfield [byte_simps]: "0 < n \<Longrightarrow> length (cfield n s) = n"
  by (auto simp: cfield_def min_def)

lemma cfield_has_nul: "0 < n \<Longrightarrow> 0 \<in> set (cfield n s)"
  by (auto simp: cfield_def min_def)

text \<open>Filling an array and reading it back gives the string, cut to the array's room.\<close>

lemma cstr_cfield:
  assumes "0 < n" and "0 \<notin> set s"
  shows "cstr (cfield n s) = Some (take (n - 1) s)"
proof -
  have pos: "0 < n - min (n - 1) (length s)"
    using assms(1) by (auto simp: min_def)
  have "\<And>x. x \<in> set (take (n - 1) s) \<Longrightarrow> x \<noteq> 0"
    using assms(2) set_take_subset by fastforce
  then have "takeWhile (\<lambda>x. x \<noteq> 0) (take (n - 1) s @ replicate (n - min (n - 1) (length s)) 0)
      = take (n - 1) s"
    using pos by (auto simp: takeWhile_append2 takeWhile_replicate)
  with cfield_has_nul [OF assms(1)] show ?thesis
    by (simp add: cstr_def cfield_def)
qed

lemma length_le_bytes [byte_simps, simp]: "length (le_bytes k n) = k"
  by (induction k arbitrary: n) simp_all

lemma of_le_le_bytes: "of_le (le_bytes k n) = n mod 256 ^ k"
proof (induction k arbitrary: n)
  case 0
  then show ?case by simp
next
  case (Suc k)
  have "unat (of_nat (n mod 256) :: u8) = n mod 256"
    by (simp add: unat_of_nat)
  with Suc show ?case by (simp add: mod_mult2_eq)
qed

lemma of_le_u16 [byte_simps]: "of_nat (of_le (le_bytes 2 (unat w))) = (w :: u16)"
  using unsigned_less [of w, where ?'a = nat] by (simp add: of_le_le_bytes)

lemma of_le_u32 [byte_simps]: "of_nat (of_le (le_bytes 4 (unat w))) = (w :: u32)"
  using unsigned_less [of w, where ?'a = nat] by (simp add: of_le_le_bytes)

lemma of_le_u64 [byte_simps]: "of_nat (of_le (le_bytes 8 (unat w))) = (w :: u64)"
  using unsigned_less [of w, where ?'a = nat] by (simp add: of_le_le_bytes)

lemma frames_short: "length xs < n \<Longrightarrow> frames n xs = []"
  by (simp add: frames.simps)

lemma frames_append:
  assumes "length x = n" and "0 < n"
  shows "frames n (x @ xs) = x # frames n xs"
  using assms by (subst frames.simps) simp

end
