(* ===== verification/Wire.thy ===== *)
theory Wire
  imports C_Lib
begin

text \<open>
  The wire format of \<open>include/playground/event.h\<close>: the event kinds, the 256-byte record
  \<open>pg_event_t\<close> with its header, its object representation as the bytes that
  \<open>write\<close> sends and \<open>read\<close> fills, and the names of kinds and categories. The locale
  \<open>record_codec\<close> is what the transport in \<open>Runner\<close> needs of a record format; it is
  interpreted here on \<open>encode_event\<close> and \<open>decode_event\<close>.
\<close>

section \<open>Kinds and categories\<close>

datatype pg_event_kind_t =
    PG_EV_LOG | PG_EV_COUNTER | PG_EV_GAUGE | PG_EV_PHASE | PG_EV_EXPECT | PG_EV_ACTUAL
  | PG_EV_SUT_FAULT | PG_EV_DONE | PG_EV_CHILD_CRASH | PG_EV_WATCHDOG

primrec kind_code :: "pg_event_kind_t \<Rightarrow> u32" where
  "kind_code PG_EV_LOG = 0"
| "kind_code PG_EV_COUNTER = 1"
| "kind_code PG_EV_GAUGE = 2"
| "kind_code PG_EV_PHASE = 3"
| "kind_code PG_EV_EXPECT = 4"
| "kind_code PG_EV_ACTUAL = 5"
| "kind_code PG_EV_SUT_FAULT = 6"
| "kind_code PG_EV_DONE = 7"
| "kind_code PG_EV_CHILD_CRASH = 8"
| "kind_code PG_EV_WATCHDOG = 9"

text \<open>A record read from the pipe carries any 32-bit kind: \<open>None\<close> is no enumerator.\<close>

definition kind_of :: "u32 \<Rightarrow> pg_event_kind_t option" where
  "kind_of c =
     (if c = 0 then Some PG_EV_LOG
      else if c = 1 then Some PG_EV_COUNTER
      else if c = 2 then Some PG_EV_GAUGE
      else if c = 3 then Some PG_EV_PHASE
      else if c = 4 then Some PG_EV_EXPECT
      else if c = 5 then Some PG_EV_ACTUAL
      else if c = 6 then Some PG_EV_SUT_FAULT
      else if c = 7 then Some PG_EV_DONE
      else if c = 8 then Some PG_EV_CHILD_CRASH
      else if c = 9 then Some PG_EV_WATCHDOG
      else None)"

definition pg_event_kind_name :: "u32 \<Rightarrow> string" where
  "pg_event_kind_name k =
     (case kind_of k of
        Some PG_EV_LOG \<Rightarrow> ''log''
      | Some PG_EV_COUNTER \<Rightarrow> ''counter''
      | Some PG_EV_GAUGE \<Rightarrow> ''gauge''
      | Some PG_EV_PHASE \<Rightarrow> ''phase''
      | Some PG_EV_EXPECT \<Rightarrow> ''expect''
      | Some PG_EV_ACTUAL \<Rightarrow> ''actual''
      | Some PG_EV_SUT_FAULT \<Rightarrow> ''sut_fault''
      | Some PG_EV_DONE \<Rightarrow> ''done''
      | Some PG_EV_CHILD_CRASH \<Rightarrow> ''child_crash''
      | Some PG_EV_WATCHDOG \<Rightarrow> ''watchdog''
      | None \<Rightarrow> ''?'')"

datatype pg_category_t =
    PG_CAT_CONCURRENCY | PG_CAT_MEMORY | PG_CAT_NETWORK | PG_CAT_TIMEIO | PG_CAT_COMPOUND
  | PG_CAT__COUNT

primrec pg_category_name :: "pg_category_t \<Rightarrow> string" where
  "pg_category_name PG_CAT_CONCURRENCY = ''concurrency''"
| "pg_category_name PG_CAT_MEMORY = ''memory''"
| "pg_category_name PG_CAT_NETWORK = ''network''"
| "pg_category_name PG_CAT_TIMEIO = ''timeio''"
| "pg_category_name PG_CAT_COMPOUND = ''compound''"
| "pg_category_name PG_CAT__COUNT = ''?''"

section \<open>The event record\<close>

definition PG_EVENT_KEY_LEN :: nat where "PG_EVENT_KEY_LEN = 32"
definition PG_EVENT_TEXT_LEN :: nat where "PG_EVENT_TEXT_LEN = 192"
definition PG_EVENT_MAGIC :: u16 where "PG_EVENT_MAGIC = 0xE5E7"
definition PG_EVENT_VERSION :: u8 where "PG_EVENT_VERSION = 1"

text \<open>\<open>ev_gap\<close> is the implicit padding in front of \<open>ts_ns\<close>, of unspecified content.\<close>

record pg_event_t =
  ev_magic :: u16
  ev_version :: u8
  ev_pad0 :: u8
  ev_kind :: u32
  ev_thread_tag :: u32
  ev_gap :: u32
  ev_ts_ns :: u64
  ev_num :: i64
  ev_key :: "u8 list"
  ev_text :: "u8 list"

text \<open>The array members have their declared length: what the C type says.\<close>

definition event_wf :: "pg_event_t \<Rightarrow> bool" where
  "event_wf e \<longleftrightarrow> length (ev_key e) = PG_EVENT_KEY_LEN \<and> length (ev_text e) = PG_EVENT_TEXT_LEN"

text \<open>The header test of \<open>pg_run_poll\<close>.\<close>

definition header_ok :: "pg_event_t \<Rightarrow> bool" where
  "header_ok e \<longleftrightarrow> \<not> (ev_magic e \<noteq> PG_EVENT_MAGIC \<or> ev_version e \<noteq> PG_EVENT_VERSION)"

text \<open>Both strings can be read with \<open>%s\<close> without leaving their arrays.\<close>

definition strings_ok :: "pg_event_t \<Rightarrow> bool" where
  "strings_ok e \<longleftrightarrow> 0 \<in> set (ev_key e) \<and> 0 \<in> set (ev_text e)"

section \<open>Object representation\<close>

definition encode_event :: "pg_event_t \<Rightarrow> u8 list" where
  "encode_event e =
     le_bytes 2 (unat (ev_magic e)) @ [ev_version e, ev_pad0 e]
     @ le_bytes 4 (unat (ev_kind e)) @ le_bytes 4 (unat (ev_thread_tag e))
     @ le_bytes 4 (unat (ev_gap e)) @ le_bytes 8 (unat (ev_ts_ns e))
     @ le_bytes 8 (unat (ev_num e)) @ ev_key e @ ev_text e"

text \<open>The bytes \<open>[off, off + n)\<close> of an object.\<close>

definition span :: "nat \<Rightarrow> nat \<Rightarrow> 'a list \<Rightarrow> 'a list" where
  "span off n bs = take n (drop off bs)"

definition decode_event :: "u8 list \<Rightarrow> pg_event_t" where
  "decode_event bs =
     \<lparr>ev_magic = of_nat (of_le (span 0 2 bs)),
      ev_version = of_nat (of_le (span 2 1 bs)),
      ev_pad0 = of_nat (of_le (span 3 1 bs)),
      ev_kind = of_nat (of_le (span 4 4 bs)),
      ev_thread_tag = of_nat (of_le (span 8 4 bs)),
      ev_gap = of_nat (of_le (span 12 4 bs)),
      ev_ts_ns = of_nat (of_le (span 16 8 bs)),
      ev_num = of_nat (of_le (span 24 8 bs)),
      ev_key = span 32 PG_EVENT_KEY_LEN bs,
      ev_text = span 64 PG_EVENT_TEXT_LEN bs\<rparr>"

definition EVENT_SIZE :: nat where "EVENT_SIZE = 256"

section \<open>Interface of a fixed-size record format\<close>

locale record_codec =
  fixes enc :: "'e \<Rightarrow> 'b list"
    and dec :: "'b list \<Rightarrow> 'e"
    and wf :: "'e \<Rightarrow> bool"
    and sz :: nat
  assumes size_pos: "0 < sz"
    and enc_length: "wf e \<Longrightarrow> length (enc e) = sz"
    and dec_enc: "wf e \<Longrightarrow> dec (enc e) = e"
    and dec_wf: "length bs = sz \<Longrightarrow> wf (dec bs)"
begin

lemma enc_inject: "wf a \<Longrightarrow> wf b \<Longrightarrow> enc a = enc b \<Longrightarrow> a = b"
  by (metis dec_enc)

lemma frames_encoded:
  assumes "\<forall>e \<in> set es. wf e" and "length tail < sz"
  shows "frames sz (concat (map enc es) @ tail) = map enc es"
  using assms size_pos
  by (induction es) (simp_all add: frames_short frames_append enc_length)

lemma decode_frames:
  assumes "\<forall>e \<in> set es. wf e" and "length tail < sz"
  shows "map dec (frames sz (concat (map enc es) @ tail)) = es"
  using assms by (simp add: frames_encoded dec_enc map_idI)

end

section \<open>The event record is a fixed-size record format\<close>

lemmas event_consts = PG_EVENT_KEY_LEN_def PG_EVENT_TEXT_LEN_def EVENT_SIZE_def

lemma length_span [simp]: "length (span off n bs) = min n (length bs - off)"
  by (simp add: span_def)

lemma span_append_left: "off + n \<le> length a \<Longrightarrow> span off n (a @ b) = span off n a"
  by (simp add: span_def)

lemma span_skip: "length a \<le> off \<Longrightarrow> span off n (a @ b) = span (off - length a) n b"
  by (simp add: span_def)

lemma span_here: "length a = n \<Longrightarrow> span 0 n (a @ b) = a"
  by (simp add: span_def)

lemma span_all: "length a = n \<Longrightarrow> span 0 n a = a"
  by (simp add: span_def)

lemmas span_simps = span_skip span_here span_all

lemma length_encode_event:
  "event_wf e \<Longrightarrow> length (encode_event e) = EVENT_SIZE"
  by (simp add: encode_event_def event_wf_def event_consts)

lemma decode_encode_event:
  assumes "event_wf e"
  shows "decode_event (encode_event e) = e"
proof -
  obtain "length (ev_key e) = 32" and "length (ev_text e) = 192"
    using assms by (simp add: event_wf_def event_consts)
  then show ?thesis
    unfolding decode_event_def encode_event_def event_consts
    by (simp add: span_simps span_def byte_simps)
qed

lemma decode_event_wf:
  "length bs = EVENT_SIZE \<Longrightarrow> event_wf (decode_event bs)"
  by (simp add: event_wf_def decode_event_def event_consts)

interpretation event: record_codec encode_event decode_event event_wf EVENT_SIZE
  by unfold_locales
    (simp_all add: length_encode_event decode_encode_event decode_event_wf, simp add: EVENT_SIZE_def)

section \<open>The kinds, enumerated\<close>

instantiation pg_event_kind_t :: enum
begin

definition enum_pg_event_kind_t :: "pg_event_kind_t list" where
  "enum_pg_event_kind_t =
     [PG_EV_LOG, PG_EV_COUNTER, PG_EV_GAUGE, PG_EV_PHASE, PG_EV_EXPECT, PG_EV_ACTUAL, PG_EV_SUT_FAULT,
      PG_EV_DONE, PG_EV_CHILD_CRASH, PG_EV_WATCHDOG]"

definition enum_all_pg_event_kind_t :: "(pg_event_kind_t \<Rightarrow> bool) \<Rightarrow> bool" where
  "enum_all_pg_event_kind_t P \<longleftrightarrow> list_all P enum_class.enum"

definition enum_ex_pg_event_kind_t :: "(pg_event_kind_t \<Rightarrow> bool) \<Rightarrow> bool" where
  "enum_ex_pg_event_kind_t P \<longleftrightarrow> list_ex P enum_class.enum"

instance
proof
  show u: "(UNIV :: pg_event_kind_t set) = set enum_class.enum"
    by (auto simp: enum_pg_event_kind_t_def intro: pg_event_kind_t.exhaust)
  show "distinct (enum_class.enum :: pg_event_kind_t list)" by (simp add: enum_pg_event_kind_t_def)
  show "enum_class.enum_all P \<longleftrightarrow> Ball UNIV P" for P :: "pg_event_kind_t \<Rightarrow> bool"
    by (simp add: enum_all_pg_event_kind_t_def u list_all_iff)
  show "enum_class.enum_ex P \<longleftrightarrow> Bex UNIV P" for P :: "pg_event_kind_t \<Rightarrow> bool"
    by (simp add: enum_ex_pg_event_kind_t_def u list_ex_iff)
qed

end

text \<open>\<open>kind_of\<close> is the search for the enumerator with a given code.\<close>

lemma kind_of_find: "kind_of c = find (\<lambda>k. kind_code k = c) enum_class.enum"
  by (simp add: kind_of_def enum_pg_event_kind_t_def eq_commute [of _ c])

lemma kind_of_code [simp]: "kind_of (kind_code k) = Some k"
  by (cases k) (simp_all add: kind_of_find enum_pg_event_kind_t_def)

lemma kind_code_inject [simp]: "kind_code a = kind_code b \<longleftrightarrow> a = b"
  by (metis kind_of_code option.inject)

lemma kind_code_of: "kind_of c = Some k \<Longrightarrow> kind_code k = c"
  by (auto simp: kind_of_find find_Some_iff)

end
