(* ===== verification/Posix.thy ===== *)
theory Posix
  imports C_Lib
begin

text \<open>
  The operating system as the sources see it. Every system call a model performs takes the
  kernel's decision as an argument (an \<open>answer\<close>, or a list of them for a loop), so a
  theorem that quantifies over the answers holds whatever the kernel does. \<open>sysact\<close> records
  the calls whose effect on resources matters (descriptors, sleeps, signals, memory).
\<close>

datatype errno = EINTR | EINVAL | ENOSPC | EMFILE | ENOMEM | EPIPE | ECONNRESET | EAGAIN | EIO

text \<open>The values \<open>errno\<close> has on Linux, as \<open>%d\<close> prints them.\<close>

primrec errno_number :: "errno \<Rightarrow> int" where
  "errno_number EINTR = 4"
| "errno_number EINVAL = 22"
| "errno_number ENOSPC = 28"
| "errno_number EMFILE = 24"
| "errno_number ENOMEM = 12"
| "errno_number EPIPE = 32"
| "errno_number ECONNRESET = 104"
| "errno_number EAGAIN = 11"
| "errno_number EIO = 5"

text \<open>
  One transfer by \<open>read\<close> or \<open>write\<close>: \<open>Moves k\<close> moves \<open>k\<close> bytes or as many as were
  asked for, whichever is less; \<open>Fails e\<close> returns \<open>-1\<close> and sets \<open>errno\<close>.
\<close>

datatype answer = Moves nat | Fails errno

text \<open>The signals the sources name, with their numbers on Linux, and how a process ends.\<close>

datatype signal =
    SIGSEGV | SIGBUS | SIGABRT | SIGFPE | SIGILL | SIGTERM | SIGKILL | SIGXCPU | SIGINT | SIGPIPE

primrec signal_number :: "signal \<Rightarrow> nat" where
  "signal_number SIGSEGV = 11"
| "signal_number SIGBUS = 7"
| "signal_number SIGABRT = 6"
| "signal_number SIGFPE = 8"
| "signal_number SIGILL = 4"
| "signal_number SIGTERM = 15"
| "signal_number SIGKILL = 9"
| "signal_number SIGXCPU = 24"
| "signal_number SIGINT = 2"
| "signal_number SIGPIPE = 13"

datatype wait_status = WExited int | WSignaled signal

record timespec =
  tv_sec :: i64
  tv_nsec :: i64

datatype sysact =
    SysUnlink "u8 list"
  | SysOpen int
  | SysClose int
  | SysFsync int
  | SysSleep timespec
  | SysShutdown int
  | SysKill int signal
  | SysWaitpid int
  | SysMalloc
  | SysFree
  | SysMmap u64
  | SysMunmap u64 u64
  | SysThreadCreate
  | SysThreadJoin
  | SysThreadDetach
  | SysMutexInit
  | SysMutexDestroy

text \<open>
  The split of a delay in nanoseconds into a \<open>struct timespec\<close>, as the sources write it
  wherever they sleep.
\<close>

definition timespec_of_ns :: "u64 \<Rightarrow> timespec" where
  "timespec_of_ns d = \<lparr>tv_sec = d div 1000000000, tv_nsec = d mod 1000000000\<rparr>"

text \<open>The reading of a clock in nanoseconds, in 64-bit arithmetic.\<close>

definition ns_of_timespec :: "timespec \<Rightarrow> u64" where
  "ns_of_timespec t = tv_sec t * 1000000000 + tv_nsec t"

text \<open>The delay drawn from \<open>[min_ns, max_ns)\<close> with a random number \<open>r\<close>.\<close>

definition pick_delay :: "u64 \<Rightarrow> u64 \<Rightarrow> u64 \<Rightarrow> u64" where
  "pick_delay min_ns max_ns r =
     (let sp = (if max_ns > min_ns then max_ns - min_ns else 0)
      in min_ns + (if sp \<noteq> 0 then r mod sp else 0))"

text \<open>Descriptors opened and not closed by a list of system calls.\<close>

definition open_fds :: "sysact list \<Rightarrow> int set" where
  "open_fds acts =
     foldl (\<lambda>fds a. case a of SysOpen fd \<Rightarrow> insert fd fds | SysClose fd \<Rightarrow> fds - {fd} | _ \<Rightarrow> fds) {} acts"

text \<open>Memory taken and not given back by a list of system calls.\<close>

definition held :: "sysact list \<Rightarrow> int" where
  "held acts = (\<Sum>a \<leftarrow> acts. case a of SysMalloc \<Rightarrow> 1 | SysFree \<Rightarrow> -1 | _ \<Rightarrow> 0)"

text \<open>Threads created that nothing has joined or detached.\<close>

definition unjoined :: "sysact list \<Rightarrow> int" where
  "unjoined acts =
     (\<Sum>a \<leftarrow> acts. case a of SysThreadCreate \<Rightarrow> 1 | SysThreadJoin \<Rightarrow> -1 | SysThreadDetach \<Rightarrow> -1 | _ \<Rightarrow> 0)"

section \<open>Lemmas\<close>

lemma ns_of_timespec_of_ns [simp]: "ns_of_timespec (timespec_of_ns d) = d"
  by (simp add: ns_of_timespec_def timespec_of_ns_def div_mult_mod_eq)

lemma timespec_of_ns_normal: "tv_nsec (timespec_of_ns d) < 1000000000"
  by (simp add: timespec_of_ns_def word_mod_less_divisor)

lemma word_mod_add_no_wrap:
  fixes a b r :: u64
  assumes "a < b"
  shows "a \<le> a + r mod (b - a) \<and> a + r mod (b - a) < b"
proof -
  have pos: "0 < unat b - unat a" using assms by (simp add: word_less_nat_alt)
  have d: "unat (b - a) = unat b - unat a"
    using assms by (simp add: unat_sub)
  have "unat (r mod (b - a)) < unat b - unat a"
    using pos by (simp add: unat_mod d)
  moreover have "unat b < 2 ^ 64" using unsigned_less [of b, where ?'a = nat] by simp
  ultimately have "unat (a + r mod (b - a)) = unat a + unat (r mod (b - a))"
    by (simp add: unat_word_ariths)
  then show ?thesis
    using \<open>unat (r mod (b - a)) < unat b - unat a\<close>
    by (simp add: word_less_nat_alt word_le_nat_alt)
qed

lemma pick_delay_in_range:
  "min_ns < max_ns \<Longrightarrow> min_ns \<le> pick_delay min_ns max_ns r \<and> pick_delay min_ns max_ns r < max_ns"
  using word_mod_add_no_wrap [of min_ns max_ns r] by (auto simp: pick_delay_def Let_def)

lemma pick_delay_degenerate: "max_ns \<le> min_ns \<Longrightarrow> pick_delay min_ns max_ns r = min_ns"
  by (auto simp: pick_delay_def Let_def)

end
