(* ===== verification/Xoshiro.thy ===== *)
theory Xoshiro
  imports PG_Prelude
begin

text \<open>
  The seeded generator of \<open>src/core/rand.c\<close>: xoshiro256** with a splitmix64 seeding
  step. The record is \<open>pg_xosh_t\<close> of \<open>rand.h\<close>, its four words being the array
  \<open>s[4]\<close>. The all-zero state is the only state from which the generator cannot leave; the
  lemmas show that seeding never produces it, that stepping never enters it, and that stepping
  is injective, so that no draw ever merges two streams. The locale \<open>prng\<close> is the
  interface through which the chaos components use a generator.
\<close>

unbundle bit_operations_syntax

section \<open>The code\<close>

record pg_xosh_t =
  s0 :: u64
  s1 :: u64
  s2 :: u64
  s3 :: u64

definition rotl :: "u64 \<Rightarrow> nat \<Rightarrow> u64" where
  "rotl x k = push_bit k x OR drop_bit (64 - k) x"

definition splitmix64 :: "u64 \<Rightarrow> u64 \<times> u64" where
  "splitmix64 st =
     (let st = st + 0x9E3779B97F4A7C15;
          z = st;
          z = (z XOR drop_bit 30 z) * 0xBF58476D1CE4E5B9;
          z = (z XOR drop_bit 27 z) * 0x94D049BB133111EB
      in (z XOR drop_bit 31 z, st))"

definition pg_xosh_seed :: "u64 \<Rightarrow> pg_xosh_t" where
  "pg_xosh_seed seed =
     (let sm = (if seed \<noteq> 0 then seed else 0xDEADBEEFDEADBEEF);
          (r0, sm) = splitmix64 sm;
          (r1, sm) = splitmix64 sm;
          (r2, sm) = splitmix64 sm;
          (r3, sm) = splitmix64 sm
      in \<lparr>s0 = r0, s1 = r1, s2 = r2, s3 = r3\<rparr>)"

definition pg_xosh_next :: "pg_xosh_t \<Rightarrow> u64 \<times> pg_xosh_t" where
  "pg_xosh_next r =
     (let result = rotl (s1 r * 5) 7 * 9;
          t = push_bit 17 (s1 r);
          r = r\<lparr>s2 := s2 r XOR s0 r\<rparr>;
          r = r\<lparr>s3 := s3 r XOR s1 r\<rparr>;
          r = r\<lparr>s1 := s1 r XOR s2 r\<rparr>;
          r = r\<lparr>s0 := s0 r XOR s3 r\<rparr>;
          r = r\<lparr>s2 := s2 r XOR t\<rparr>;
          r = r\<lparr>s3 := rotl (s3 r) 45\<rparr>
      in (result, r))"

section \<open>State after a number of draws\<close>

definition xosh_ok :: "pg_xosh_t \<Rightarrow> bool" where
  "xosh_ok r \<longleftrightarrow> \<not> (s0 r = 0 \<and> s1 r = 0 \<and> s2 r = 0 \<and> s3 r = 0)"

definition xosh_step :: "pg_xosh_t \<Rightarrow> pg_xosh_t" where
  "xosh_step r = snd (pg_xosh_next r)"

primrec xosh_draws :: "nat \<Rightarrow> pg_xosh_t \<Rightarrow> u64 list" where
  "xosh_draws 0 r = []"
| "xosh_draws (Suc n) r = fst (pg_xosh_next r) # xosh_draws n (xosh_step r)"

text \<open>The output function of \<open>splitmix64\<close> on its own, as the proofs use it.\<close>

definition splitmix_mix :: "u64 \<Rightarrow> u64" where
  "splitmix_mix z =
     (let z = (z XOR drop_bit 30 z) * 0xBF58476D1CE4E5B9;
          z = (z XOR drop_bit 27 z) * 0x94D049BB133111EB
      in z XOR drop_bit 31 z)"

section \<open>Interface of a generator\<close>

locale prng =
  fixes seed_of :: "u64 \<Rightarrow> 'g"
    and draw :: "'g \<Rightarrow> u64 \<times> 'g"
    and live :: "'g \<Rightarrow> bool"
  assumes live_seed: "live (seed_of s)"
    and live_draw: "live g \<Longrightarrow> live (snd (draw g))"
    and draw_inject: "snd (draw g) = snd (draw h) \<Longrightarrow> g = h"
begin

lemma live_iterate: "live (((\<lambda>g. snd (draw g)) ^^ n) (seed_of s))"
  by (induction n) (auto simp: live_seed live_draw)

lemma iterate_inject:
  "((\<lambda>g. snd (draw g)) ^^ n) g = ((\<lambda>g. snd (draw g)) ^^ n) h \<Longrightarrow> g = h"
  by (induction n) (auto dest: draw_inject)

lemma mod_span_less: "0 < span \<Longrightarrow> fst (draw g) mod span < span"
  for span :: u64
  by (simp add: word_mod_less_divisor)

end

section \<open>Rotation and mixing are injective\<close>

lemma rotl_bit:
  assumes "0 < k" and "k < 64"
  shows "bit (rotl x k) n \<longleftrightarrow> n < 64 \<and> (if k \<le> n then bit x (n - k) else bit x (n + (64 - k)))"
  using assms
  by (auto simp: rotl_def bit_simps add.commute dest: bit_imp_le_length)

lemma rotl_inverse:
  assumes "0 < k" and "k < 64"
  shows "rotl (rotl x k) (64 - k) = x"
  using assms by (intro bit_word_eqI) (auto simp: rotl_bit)

lemma rotl_inject:
  assumes "0 < k" and "k < 64"
  shows "rotl x k = rotl y k \<longleftrightarrow> x = y"
  by (metis assms rotl_inverse)

lemma splitmix64_eq:
  "splitmix64 st = (splitmix_mix (st + 0x9E3779B97F4A7C15), st + 0x9E3779B97F4A7C15)"
  by (simp add: splitmix64_def splitmix_mix_def Let_def)

lemma mult_BF_unit: "(0xBF58476D1CE4E5B9 :: u64) * 0x96DE1B173F119089 = 1"
  by simp

lemma mult_94_unit: "(0x94D049BB133111EB :: u64) * 0x319642B2D24D8EC3 = 1"
  by simp

lemmas mult_BF_inject = mult_unit_inject [OF _ mult_BF_unit]
  and mult_94_inject = mult_unit_inject [OF _ mult_94_unit]

lemma splitmix_mix_inject:
  assumes "splitmix_mix x = splitmix_mix y"
  shows "x = y"
proof -
  define a where "a z = (z XOR drop_bit 30 z) * 0xBF58476D1CE4E5B9" for z :: u64
  define b where "b z = (z XOR drop_bit 27 z) * 0x94D049BB133111EB" for z :: u64
  have "splitmix_mix z = b (a z) XOR drop_bit 31 (b (a z))" for z
    by (simp add: splitmix_mix_def a_def b_def Let_def)
  with assms have "b (a x) = b (a y)"
    using xor_drop_inject [where k = 31] by simp
  then have "a x XOR drop_bit 27 (a x) = a y XOR drop_bit 27 (a y)"
    unfolding b_def by (rule mult_94_inject)
  then have "a x = a y"
    by (rule xor_drop_inject) simp
  then have "x XOR drop_bit 30 x = y XOR drop_bit 30 y"
    unfolding a_def by (rule mult_BF_inject)
  then show ?thesis
    by (rule xor_drop_inject) simp
qed

section \<open>No draw reaches or leaves the zero state\<close>

lemma pg_xosh_seed_ok: "xosh_ok (pg_xosh_seed seed)"
proof -
  define sm :: u64 where "sm = (if seed \<noteq> 0 then seed else 0xDEADBEEFDEADBEEF)"
  let ?c = "0x9E3779B97F4A7C15 :: u64"
  have r: "s0 (pg_xosh_seed seed) = splitmix_mix (sm + ?c)"
    "s1 (pg_xosh_seed seed) = splitmix_mix (sm + ?c + ?c)"
    unfolding pg_xosh_seed_def splitmix64_eq Let_def sm_def by simp_all
  have "splitmix_mix (sm + ?c) \<noteq> splitmix_mix (sm + ?c + ?c)"
  proof
    assume "splitmix_mix (sm + ?c) = splitmix_mix (sm + ?c + ?c)"
    then have "sm + ?c = sm + ?c + ?c" by (rule splitmix_mix_inject)
    then show False by simp
  qed
  then show ?thesis by (auto simp: xosh_ok_def r)
qed

lemma xosh_step_fields [xosh_simps]:
  "s0 (xosh_step r) = s0 r XOR (s3 r XOR s1 r)"
  "s1 (xosh_step r) = s1 r XOR (s2 r XOR s0 r)"
  "s2 (xosh_step r) = (s2 r XOR s0 r) XOR push_bit 17 (s1 r)"
  "s3 (xosh_step r) = rotl (s3 r XOR s1 r) 45"
  by (simp_all add: xosh_step_def pg_xosh_next_def Let_def)

lemma xosh_step_inject:
  assumes "xosh_step r = xosh_step q"
  shows "r = q"
proof -
  note f = xosh_step_fields
  have eqs: "s0 (xosh_step r) = s0 (xosh_step q)" "s1 (xosh_step r) = s1 (xosh_step q)"
    "s2 (xosh_step r) = s2 (xosh_step q)" "s3 (xosh_step r) = s3 (xosh_step q)"
    using assms by simp_all
  have a3: "s3 r XOR s1 r = s3 q XOR s1 q"
    using eqs(4) by (simp add: f rotl_inject)
  with eqs(1) have a0: "s0 r = s0 q" by (simp add: f)
  have "s1 x XOR push_bit 17 (s1 x) = s1 (xosh_step x) XOR s2 (xosh_step x)" for x
    unfolding f by (intro bit_word_eqI) (auto simp: bit_simps)
  with eqs(2,3) have "s1 r XOR push_bit 17 (s1 r) = s1 q XOR push_bit 17 (s1 q)"
    by simp
  then have a1: "s1 r = s1 q" by (rule xor_push_inject) simp
  with eqs(2) a0 have a2: "s2 r = s2 q" by (simp add: f)
  from a3 a1 have "s3 r = s3 q" by simp
  with a0 a1 a2 show ?thesis by simp
qed

lemma xosh_step_ok:
  assumes "xosh_ok r"
  shows "xosh_ok (xosh_step r)"
proof (rule ccontr)
  let ?z = "\<lparr>s0 = 0, s1 = 0, s2 = 0, s3 = 0\<rparr> :: pg_xosh_t"
  assume "\<not> xosh_ok (xosh_step r)"
  then have "xosh_step r = ?z" by (simp add: xosh_ok_def)
  moreover have "xosh_step ?z = ?z"
    by (simp add: xosh_step_def pg_xosh_next_def rotl_def)
  ultimately have "r = ?z" using xosh_step_inject by metis
  with assms show False by (simp add: xosh_ok_def)
qed

interpretation xosh: prng pg_xosh_seed pg_xosh_next xosh_ok
  by unfold_locales
    (use pg_xosh_seed_ok xosh_step_ok xosh_step_inject in \<open>auto simp: xosh_step_def\<close>)

lemma pg_xosh_seed_inject:
  assumes "pg_xosh_seed x = pg_xosh_seed y" and "x \<noteq> 0" and "y \<noteq> 0"
  shows "x = y"
proof -
  have "s0 (pg_xosh_seed z) = splitmix_mix (z + 0x9E3779B97F4A7C15)" if "z \<noteq> 0" for z
    using that by (simp add: pg_xosh_seed_def splitmix64_eq Let_def)
  with assms have "splitmix_mix (x + 0x9E3779B97F4A7C15) = splitmix_mix (y + 0x9E3779B97F4A7C15)"
    by metis
  then show "x = y" using splitmix_mix_inject by fastforce
qed

lemma pg_xosh_seed_zero: "pg_xosh_seed 0 = pg_xosh_seed 0xDEADBEEFDEADBEEF"
  by (simp add: pg_xosh_seed_def)

lemma length_xosh_draws [simp]: "length (xosh_draws n r) = n"
  by (induction n arbitrary: r) simp_all

lemma funpow_xosh_step: "(xosh_step ^^ n) r = ((\<lambda>g. snd (pg_xosh_next g)) ^^ n) r"
  by (simp add: xosh_step_def [abs_def])

text \<open>
  whatever the seed, zero included, the generator never stands in the all-zero state, the
  one state from which every later draw would be zero, however many numbers are drawn.
\<close>

theorem xosh_never_zero: "xosh_ok ((xosh_step ^^ n) (pg_xosh_seed seed))"
  unfolding funpow_xosh_step by (rule xosh.live_iterate)

text \<open>
  stepping the generator loses no state: two generators that agree after the same number
  of draws started in the same state, so distinct seeded states never merge into one stream.
\<close>

theorem xosh_streams_never_merge:
  "inj (xosh_step ^^ n)"
  unfolding funpow_xosh_step by (rule injI) (rule xosh.iterate_inject)

text \<open>
  seeding is injective on the non-zero seeds, so two runs with different non-zero seeds
  start in different states, and zero is remapped to one fixed non-zero seed.
\<close>

theorem pg_xosh_seed_separates:
  "inj_on pg_xosh_seed (- {0}) \<and> pg_xosh_seed 0 = pg_xosh_seed 0xDEADBEEFDEADBEEF"
  by (auto intro!: inj_onI dest: pg_xosh_seed_inject simp: pg_xosh_seed_def)


end
