(* ===== verification/Chaos_IO.thy ===== *)
theory Chaos_IO
  imports Posix Xoshiro
begin

text \<open>
  The wrapped descriptors and the skewed clock of \<open>src/chaos/chaos_io.c\<close>. The table
  \<open>g_slots\<close> is a list of \<open>IO_SLOTS_MAX\<close> records; \<open>find_locked\<close> and
  \<open>alloc_locked\<close> walk it as the code does. \<open>chaos_io_write\<close> is the composition of its
  two critical sections (\<open>io_write_want\<close>, \<open>io_write_commit\<close>) around the system call,
  so that the interleaving of two writers can be stated as well. The locale
  \<open>policy_table\<close> is what the callers rely on: a finite map from descriptors to policies.
\<close>

section \<open>The slot table\<close>

record io_slot_t =
  fd :: int
  in_use :: bool
  quota :: u64
  bytes_written :: u64
  partial_max :: u64
  fsync_delay_ns :: u64
  path :: "u8 list"

type_synonym slots = "io_slot_t list"

definition IO_SLOTS_MAX :: nat where "IO_SLOTS_MAX = 64"

definition empty_slot :: io_slot_t where
  "empty_slot = \<lparr>fd = 0, in_use = False, quota = 0, bytes_written = 0, partial_max = 0,
     fsync_delay_ns = 0, path = replicate 256 0\<rparr>"

definition init_slots :: slots where
  "init_slots = replicate IO_SLOTS_MAX empty_slot"

fun find_locked :: "slots \<Rightarrow> int \<Rightarrow> nat option" where
  "find_locked [] d = None"
| "find_locked (s # ss) d =
     (if in_use s \<and> fd s = d then Some 0 else map_option Suc (find_locked ss d))"

fun alloc_locked :: "slots \<Rightarrow> int \<Rightarrow> (nat \<times> slots) option" where
  "alloc_locked [] d = None"
| "alloc_locked (s # ss) d =
     (if \<not> in_use s then Some (0, empty_slot\<lparr>in_use := True, fd := d\<rparr> # ss)
      else map_option (\<lambda>(i, ss'). (Suc i, s # ss')) (alloc_locked ss d))"

text \<open>The update \<open>if (s) s->field = v\<close> of the slot found for a descriptor.\<close>

definition with_slot :: "slots \<Rightarrow> int \<Rightarrow> (io_slot_t \<Rightarrow> io_slot_t) \<Rightarrow> slots" where
  "with_slot ss d f = (case find_locked ss d of None \<Rightarrow> ss | Some i \<Rightarrow> ss[i := f (ss ! i)])"

section \<open>Operations\<close>

text \<open>
  \<open>mk\<close> is what \<open>mkstemp\<close> returns and \<open>tmpl\<close> the file name it has filled in.
\<close>

definition chaos_io_open ::
    "int \<Rightarrow> u8 list \<Rightarrow> slots \<Rightarrow> int \<times> errno option \<times> slots \<times> sysact list" where
  "chaos_io_open mk tmpl ss =
     (if mk < 0 then (-1, None, ss, [])
      else (case alloc_locked ss mk of
              None \<Rightarrow> (-1, Some EMFILE, ss, [SysOpen mk, SysUnlink tmpl, SysClose mk])
            | Some (i, ss') \<Rightarrow>
                (mk, None, ss'[i := (ss' ! i)\<lparr>path := cfield 256 tmpl\<rparr>],
                 [SysOpen mk, SysUnlink tmpl])))"

text \<open>First critical section of \<open>chaos_io_write\<close>: how much to ask the kernel for.\<close>

definition io_write_want :: "slots \<Rightarrow> int \<Rightarrow> u64 \<Rightarrow> errno + u64" where
  "io_write_want ss d n =
     (let want = n
      in case find_locked ss d of
           None \<Rightarrow> Inr want
         | Some i \<Rightarrow>
             (let s = ss ! i
              in if quota s > 0 \<and> bytes_written s \<ge> quota s then Inl ENOSPC
                 else
                   (let rem = quota s - bytes_written s;
                        want = (if quota s > 0 \<and> want > rem then rem else want);
                        want = (if partial_max s > 0 \<and> want > partial_max s
                                then partial_max s else want)
                    in Inr want)))"

text \<open>Second critical section: account for what the kernel took.\<close>

definition io_write_commit :: "slots \<Rightarrow> int \<Rightarrow> int \<Rightarrow> slots" where
  "io_write_commit ss d w =
     (if w > 0 then with_slot ss d (\<lambda>s. s\<lparr>bytes_written := bytes_written s + of_int w\<rparr>) else ss)"

text \<open>The kernel's answer to one transfer request: the return value and \<open>errno\<close>.\<close>

fun transfer :: "answer \<Rightarrow> nat \<Rightarrow> int \<times> errno option" where
  "transfer (Moves k) want = (int (min k want), None)"
| "transfer (Fails e) want = (-1, Some e)"

definition chaos_io_write ::
    "slots \<Rightarrow> int \<Rightarrow> u64 \<Rightarrow> answer \<Rightarrow> int \<times> errno option \<times> slots" where
  "chaos_io_write ss d n ans =
     (case io_write_want ss d n of
        Inl e \<Rightarrow> (-1, Some e, ss)
      | Inr want \<Rightarrow>
          (let (w, e) = transfer ans (unat want)
           in (w, e, io_write_commit ss d w)))"

definition io_read_want :: "slots \<Rightarrow> int \<Rightarrow> u64 \<Rightarrow> u64" where
  "io_read_want ss d n =
     (case find_locked ss d of
        None \<Rightarrow> n
      | Some i \<Rightarrow> (let s = ss ! i in if partial_max s > 0 \<and> n > partial_max s then partial_max s else n))"

definition chaos_io_read :: "slots \<Rightarrow> int \<Rightarrow> u64 \<Rightarrow> answer \<Rightarrow> int \<times> errno option" where
  "chaos_io_read ss d n ans = transfer ans (unat (io_read_want ss d n))"

definition chaos_io_fsync :: "slots \<Rightarrow> int \<Rightarrow> sysact list" where
  "chaos_io_fsync ss d =
     (let delay = (case find_locked ss d of None \<Rightarrow> 0 | Some i \<Rightarrow> fsync_delay_ns (ss ! i))
      in (if delay > 0 then [SysSleep (timespec_of_ns delay)] else []) @ [SysFsync d])"

definition chaos_io_close :: "slots \<Rightarrow> int \<Rightarrow> slots \<times> sysact list" where
  "chaos_io_close ss d = (with_slot ss d (\<lambda>s. s\<lparr>in_use := False\<rparr>), [SysClose d])"

definition chaos_io_set_quota :: "slots \<Rightarrow> int \<Rightarrow> u64 \<Rightarrow> slots" where
  "chaos_io_set_quota ss d b = with_slot ss d (\<lambda>s. s\<lparr>quota := b\<rparr>)"

definition chaos_io_set_partial :: "slots \<Rightarrow> int \<Rightarrow> u64 \<Rightarrow> slots" where
  "chaos_io_set_partial ss d m = with_slot ss d (\<lambda>s. s\<lparr>partial_max := m\<rparr>)"

definition chaos_io_set_fsync_delay :: "slots \<Rightarrow> int \<Rightarrow> u64 \<Rightarrow> slots" where
  "chaos_io_set_fsync_delay ss d ns = with_slot ss d (\<lambda>s. s\<lparr>fsync_delay_ns := ns\<rparr>)"

section \<open>The clock\<close>

record clock_state =
  g_clock_skew_ns :: i64
  g_clock_jitter_max_ns :: u64
  g_clock_rng :: pg_xosh_t

definition init_clock :: clock_state where
  "init_clock = \<lparr>g_clock_skew_ns = 0, g_clock_jitter_max_ns = 0,
     g_clock_rng = \<lparr>s0 = 1, s1 = 2, s2 = 3, s3 = 4\<rparr>\<rparr>"

text \<open>
  \<open>ts\<close> is the reading of \<open>CLOCK_MONOTONIC\<close>. The signed additions are two's
  complement additions of words.
\<close>

definition chaos_clock_now_ns :: "timespec \<Rightarrow> clock_state \<Rightarrow> u64 \<times> clock_state" where
  "chaos_clock_now_ns ts c =
     (let base = tv_sec ts * 1000000000 + tv_nsec ts;
          base = base + g_clock_skew_ns c
      in if g_clock_jitter_max_ns c > 0
         then (let (v, g) = pg_xosh_next (g_clock_rng c);
                   j = v mod g_clock_jitter_max_ns c
               in (base + j, c\<lparr>g_clock_rng := g\<rparr>))
         else (base, c))"

definition chaos_clock_skew_set :: "i64 \<Rightarrow> clock_state \<Rightarrow> clock_state" where
  "chaos_clock_skew_set offset_ns c = c\<lparr>g_clock_skew_ns := offset_ns\<rparr>"

definition chaos_clock_jitter_set :: "u64 \<Rightarrow> clock_state \<Rightarrow> clock_state" where
  "chaos_clock_jitter_set max_ns c = c\<lparr>g_clock_jitter_max_ns := max_ns\<rparr>"

definition chaos_clock_seed :: "u64 \<Rightarrow> clock_state \<Rightarrow> clock_state" where
  "chaos_clock_seed seed c = c\<lparr>g_clock_rng := pg_xosh_seed seed\<rparr>"

section \<open>What callers see of the table\<close>

definition policy_of :: "slots \<Rightarrow> int \<Rightarrow> io_slot_t option" where
  "policy_of ss d = map_option (\<lambda>i. ss ! i) (find_locked ss d)"

definition fresh_policy :: "int \<Rightarrow> io_slot_t" where
  "fresh_policy d = empty_slot\<lparr>in_use := True, fd := d\<rparr>"

text \<open>No descriptor has two slots.\<close>

definition slots_wf :: "slots \<Rightarrow> bool" where
  "slots_wf ss \<longleftrightarrow> length ss = IO_SLOTS_MAX \<and> distinct (map fd (filter in_use ss))"

text \<open>An update that leaves a slot's owner alone.\<close>

definition keeps_owner :: "(io_slot_t \<Rightarrow> io_slot_t) \<Rightarrow> bool" where
  "keeps_owner f \<longleftrightarrow> (\<forall>s. fd (f s) = fd s \<and> in_use (f s) = in_use s)"

text \<open>The most one write may ask of the kernel, by the policy; \<open>None\<close> is \<open>ENOSPC\<close>.\<close>

definition write_limit :: "io_slot_t \<Rightarrow> u64 \<Rightarrow> u64 option" where
  "write_limit p n =
     (if quota p \<noteq> 0 \<and> quota p \<le> bytes_written p then None
      else Some (min (if quota p = 0 then n else min n (quota p - bytes_written p))
                     (if partial_max p = 0 then n else partial_max p)))"

text \<open>A sequence of writes to one descriptor: the bytes accepted by each, and the table after.\<close>

fun io_writes :: "slots \<Rightarrow> int \<Rightarrow> (u64 \<times> answer) list \<Rightarrow> int list \<times> slots" where
  "io_writes ss d [] = ([], ss)"
| "io_writes ss d ((n, ans) # ws) =
     (let (w, e, ss') = chaos_io_write ss d n ans;
          (rs, ss'') = io_writes ss' d ws
      in (w # rs, ss''))"

definition accepted :: "int list \<Rightarrow> int" where
  "accepted rs = (\<Sum>r \<leftarrow> rs. max r 0)"

text \<open>The calls that change the table, and the tables they can lead to.\<close>

datatype io_op =
    OpOpen int "u8 list"
  | OpWrite int u64 answer
  | OpClose int
  | OpQuota int u64
  | OpPartial int u64
  | OpFsyncDelay int u64

fun io_apply :: "slots \<Rightarrow> io_op \<Rightarrow> slots" where
  "io_apply ss (OpOpen mk tmpl) = fst (snd (snd (chaos_io_open mk tmpl ss)))"
| "io_apply ss (OpWrite d n ans) = snd (snd (chaos_io_write ss d n ans))"
| "io_apply ss (OpClose d) = fst (chaos_io_close ss d)"
| "io_apply ss (OpQuota d b) = chaos_io_set_quota ss d b"
| "io_apply ss (OpPartial d m) = chaos_io_set_partial ss d m"
| "io_apply ss (OpFsyncDelay d ns) = chaos_io_set_fsync_delay ss d ns"

fun op_fd :: "io_op \<Rightarrow> int" where
  "op_fd (OpOpen mk tmpl) = mk"
| "op_fd (OpWrite d n ans) = d"
| "op_fd (OpClose d) = d"
| "op_fd (OpQuota d b) = d"
| "op_fd (OpPartial d m) = d"
| "op_fd (OpFsyncDelay d ns) = d"

text \<open>The system calls of an operation that open and close descriptors.\<close>

fun io_acts :: "slots \<Rightarrow> io_op \<Rightarrow> sysact list" where
  "io_acts ss (OpOpen mk tmpl) = snd (snd (snd (chaos_io_open mk tmpl ss)))"
| "io_acts ss (OpClose d) = snd (chaos_io_close ss d)"
| "io_acts ss _ = []"

text \<open>The descriptors the kernel has open after some calls.\<close>

definition fds_after :: "int set \<Rightarrow> sysact list \<Rightarrow> int set" where
  "fds_after opened acts =
     foldl (\<lambda>fds a. case a of SysOpen d \<Rightarrow> insert d fds | SysClose d \<Rightarrow> fds - {d} | _ \<Rightarrow> fds) opened acts"

text \<open>The kernel hands out no descriptor that it still has open.\<close>

fun kernel_gives :: "int set \<Rightarrow> io_op \<Rightarrow> bool" where
  "kernel_gives opened (OpOpen mk tmpl) \<longleftrightarrow> mk \<notin> opened"
| "kernel_gives opened _ \<longleftrightarrow> True"

text \<open>The descriptors a caller got from \<open>chaos_io_open\<close> and has not closed.\<close>

fun mine_after :: "slots \<Rightarrow> io_op \<Rightarrow> int set \<Rightarrow> int set" where
  "mine_after ss (OpOpen mk tmpl) mine =
     (let r = fst (chaos_io_open mk tmpl ss) in if r < 0 then mine else insert r mine)"
| "mine_after ss (OpClose d) mine = mine - {d}"
| "mine_after ss _ mine = mine"

text \<open>
  The tables a program can reach, with the descriptors open in the kernel and those it got from
  \<open>chaos_io_open\<close>. It calls the functions of the module as it likes, opens and closes other
  descriptors by plain calls, and closes those of the module only through \<open>chaos_io_close\<close>.
\<close>

inductive io_reachable :: "slots \<Rightarrow> int set \<Rightarrow> int set \<Rightarrow> bool" where
  io_start: "io_reachable init_slots opened {}"
| io_call: "io_reachable ss opened mine \<Longrightarrow> kernel_gives opened op
    \<Longrightarrow> io_reachable (io_apply ss op) (fds_after opened (io_acts ss op)) (mine_after ss op mine)"
| plain_open: "io_reachable ss opened mine \<Longrightarrow> d \<notin> opened \<Longrightarrow> io_reachable ss (insert d opened) mine"
| plain_close: "io_reachable ss opened mine \<Longrightarrow> d \<notin> mine \<Longrightarrow> io_reachable ss (opened - {d}) mine"

section \<open>Interface: a table of policies by descriptor\<close>

locale policy_table =
  fixes lookup :: "'t \<Rightarrow> int \<Rightarrow> 'p option"
    and update :: "'t \<Rightarrow> int \<Rightarrow> ('p \<Rightarrow> 'p) \<Rightarrow> 't"
    and insert_fresh :: "'t \<Rightarrow> int \<Rightarrow> 't option"
    and remove :: "'t \<Rightarrow> int \<Rightarrow> 't"
    and fresh :: "int \<Rightarrow> 'p"
    and keeps :: "('p \<Rightarrow> 'p) \<Rightarrow> bool"
    and invar :: "'t \<Rightarrow> bool"
  assumes lookup_update: "keeps f \<Longrightarrow>
      lookup (update t d f) = (lookup t)(d := map_option f (lookup t d))"
    and lookup_insert: "lookup t d = None \<Longrightarrow> insert_fresh t d = Some t' \<Longrightarrow>
      lookup t' = (lookup t)(d \<mapsto> fresh d)"
    and lookup_remove: "invar t \<Longrightarrow> lookup (remove t d) = (lookup t)(d := None)"
    and invar_update: "invar t \<Longrightarrow> keeps f \<Longrightarrow> invar (update t d f)"
    and invar_insert: "invar t \<Longrightarrow> lookup t d = None \<Longrightarrow> insert_fresh t d = Some t' \<Longrightarrow> invar t'"
    and invar_remove: "invar t \<Longrightarrow> invar (remove t d)"
begin

lemma update_other: "keeps f \<Longrightarrow> d' \<noteq> d \<Longrightarrow> lookup (update t d f) d' = lookup t d'"
  by (simp add: lookup_update)

lemma updates_compose:
  "\<forall>f \<in> set fs. keeps f \<Longrightarrow>
   lookup (fold (\<lambda>f t. update t d f) fs t) d = map_option (fold (\<lambda>f p. f p) fs) (lookup t d)"
  by (induction fs arbitrary: t) (simp_all add: lookup_update option.map_comp option.map_id comp_def)

lemma insert_remove:
  assumes "invar t" and "lookup t d = None" and "insert_fresh t d = Some t'"
  shows "lookup (remove t' d) = lookup t"
  using assms lookup_insert [OF assms(2,3)] lookup_remove [OF invar_insert [OF assms]]
  by (simp add: fun_upd_idem)

end

section \<open>The slot array implements it\<close>

lemma fresh_policy_fields [simp]:
  "fd (fresh_policy d) = d" "in_use (fresh_policy d)" "quota (fresh_policy d) = 0"
  "bytes_written (fresh_policy d) = 0" "partial_max (fresh_policy d) = 0"
  "fsync_delay_ns (fresh_policy d) = 0"
  by (simp_all add: fresh_policy_def empty_slot_def)

lemma find_locked_SomeD:
  "find_locked ss d = Some i \<Longrightarrow> i < length ss \<and> in_use (ss ! i) \<and> fd (ss ! i) = d"
  by (induction ss arbitrary: i) (auto split: if_splits)

lemma find_locked_None_iff:
  "find_locked ss d = None \<longleftrightarrow> (\<forall>s \<in> set ss. in_use s \<longrightarrow> fd s \<noteq> d)"
  by (induction ss) auto

lemma find_locked_list_update:
  assumes "fd s' = fd (ss ! i)" and "in_use s' = in_use (ss ! i)"
  shows "find_locked (ss[i := s']) d = find_locked ss d"
  using assms by (induction ss arbitrary: i) (auto split: nat.splits)

lemma map_fd_in_use_update:
  assumes "fd s' = fd (ss ! i)" and "in_use s' = in_use (ss ! i)"
  shows "map fd (filter in_use (ss[i := s'])) = map fd (filter in_use ss)"
  using assms by (induction ss arbitrary: i) (auto split: nat.splits)

lemma length_with_slot [simp]: "length (with_slot ss d f) = length ss"
  by (simp add: with_slot_def split: option.splits)

lemma find_with_slot:
  "keeps_owner f \<Longrightarrow> find_locked (with_slot ss d f) d' = find_locked ss d'"
  by (auto simp: with_slot_def keeps_owner_def find_locked_list_update split: option.splits)

lemma policy_with_slot:
  assumes "keeps_owner f"
  shows "policy_of (with_slot ss d f) = (policy_of ss)(d := map_option f (policy_of ss d))"
proof
  fix d'
  show "policy_of (with_slot ss d f) d' = ((policy_of ss)(d := map_option f (policy_of ss d))) d'"
  proof (cases "find_locked ss d")
    case None
    then show ?thesis by (auto simp: policy_of_def with_slot_def)
  next
    case (Some i)
    have "find_locked ss d' = Some i \<Longrightarrow> d' = d"
      using Some by (auto dest: find_locked_SomeD)
    with Some show ?thesis
      using find_with_slot [OF assms, of ss d d'] find_locked_SomeD [OF Some]
      by (cases "find_locked ss d'") (auto simp: policy_of_def with_slot_def nth_list_update)
  qed
qed

lemma alloc_locked_props:
  assumes "alloc_locked ss d = Some (i, ss')"
  shows "i < length ss \<and> \<not> in_use (ss ! i) \<and> ss' = ss[i := fresh_policy d]"
  using assms
  by (induction ss arbitrary: i ss') (auto simp: fresh_policy_def split: if_splits)

lemma find_locked_claim:
  assumes "i < length ss" and "\<not> in_use (ss ! i)" and "find_locked ss d = None"
    and "fd s' = d" and "in_use s'"
  shows "find_locked (ss[i := s']) d' = (if d' = d then Some i else find_locked ss d')"
  using assms
  by (induction ss arbitrary: i) (auto split: nat.splits if_splits)

lemma alloc_locked_None: "alloc_locked ss d = None \<longleftrightarrow> (\<forall>s \<in> set ss. in_use s)"
  by (induction ss) (auto split: option.splits)

lemma distinct_in_use_claim:
  assumes "i < length ss" and "\<not> in_use (ss ! i)" and "find_locked ss d = None"
    and "distinct (map fd (filter in_use ss))" and "fd s' = d"
  shows "distinct (map fd (filter in_use (ss[i := s'])))"
  using assms
proof (induction ss arbitrary: i)
  case Nil
  then show ?case by simp
next
  case (Cons s ss)
  have free: "\<forall>x \<in> set (s # ss). in_use x \<longrightarrow> fd x \<noteq> d"
    using Cons.prems(3) by (simp only: find_locked_None_iff [symmetric])
  show ?case
  proof (cases i)
    case 0
    with Cons.prems free show ?thesis by auto
  next
    case (Suc j)
    have "find_locked ss d = None" using free by (simp add: find_locked_None_iff)
    with Cons Suc have "distinct (map fd (filter in_use (ss[j := s'])))"
      by (auto split: if_splits)
    moreover have "fd s \<notin> fd ` {x \<in> set (ss[j := s']). in_use x}" if "in_use s"
      using that Cons.prems(4,5) free set_update_subset_insert [of ss j s'] by fastforce
    ultimately show ?thesis using Suc by simp
  qed
qed

lemma find_locked_release:
  assumes "find_locked ss d = Some i" and "distinct (map fd (filter in_use ss))"
  shows "find_locked (ss[i := (ss ! i)\<lparr>in_use := False\<rparr>]) d'
    = (if d' = d then None else find_locked ss d')"
  using assms
proof (induction ss arbitrary: i)
  case Nil
  then show ?case by simp
next
  case (Cons s ss)
  show ?case
  proof (cases "in_use s \<and> fd s = d")
    case True
    with Cons.prems(2) have "d \<notin> fd ` {x \<in> set ss. in_use x}" by auto
    then have "find_locked ss d = None"
      unfolding find_locked_None_iff by blast
    with True Cons.prems show ?thesis by auto
  next
    case False
    with Cons.prems obtain j where "find_locked ss d = Some j" and "i = Suc j" by auto
    with Cons False show ?thesis by (auto split: if_splits)
  qed
qed

lemma distinct_release:
  "distinct (map fd (filter in_use ss)) \<Longrightarrow>
   distinct (map fd (filter in_use (ss[i := (ss ! i)\<lparr>in_use := False\<rparr>])))"
proof (induction ss arbitrary: i)
  case Nil
  then show ?case by simp
next
  case (Cons s ss)
  show ?case
  proof (cases i)
    case 0
    with Cons.prems show ?thesis by (simp split: if_splits)
  next
    case (Suc j)
    have "set (filter in_use (ss[j := (ss ! j)\<lparr>in_use := False\<rparr>])) \<subseteq> set (filter in_use ss)"
      using set_update_subset_insert [of ss j] by fastforce
    with Cons Suc show ?thesis by (auto split: if_splits)
  qed
qed

lemma policy_release:
  assumes "slots_wf ss"
  shows "policy_of (with_slot ss d (\<lambda>s. s\<lparr>in_use := False\<rparr>)) = (policy_of ss)(d := None)"
proof
  fix d'
  show "policy_of (with_slot ss d (\<lambda>s. s\<lparr>in_use := False\<rparr>)) d' = ((policy_of ss)(d := None)) d'"
  proof (cases "find_locked ss d")
    case None
    then show ?thesis by (auto simp: policy_of_def with_slot_def)
  next
    case (Some i)
    have "d' \<noteq> d \<Longrightarrow> find_locked ss d' = Some j \<Longrightarrow> j \<noteq> i" for j
      using Some by (auto dest: find_locked_SomeD)
    with Some find_locked_release [OF Some, of d'] assms show ?thesis
      by (cases "find_locked ss d'") (auto simp: policy_of_def with_slot_def slots_wf_def)
  qed
qed

lemma policy_claim:
  assumes "policy_of ss d = None" and "alloc_locked ss d = Some (i, ss')"
    and "fd s' = d" and "in_use s'"
  shows "policy_of (ss'[i := s']) = (policy_of ss)(d \<mapsto> s')"
proof
  fix d'
  note a = alloc_locked_props [OF assms(2)]
  have none: "find_locked ss d = None" using assms(1) by (simp add: policy_of_def)
  have f: "find_locked (ss'[i := s']) d' = (if d' = d then Some i else find_locked ss d')"
    using a assms(3,4) none by (simp add: find_locked_claim)
  have "find_locked ss d' = Some j \<Longrightarrow> j \<noteq> i" for j
    using a by (auto dest: find_locked_SomeD)
  with a f show "policy_of (ss'[i := s']) d' = ((policy_of ss)(d \<mapsto> s')) d'"
    by (cases "find_locked ss d'") (auto simp: policy_of_def)
qed

lemma slots_wf_claim:
  assumes "slots_wf ss" and "policy_of ss d = None" and "alloc_locked ss d = Some (i, ss')"
    and "fd s' = d"
  shows "slots_wf (ss'[i := s'])"
  using assms alloc_locked_props [OF assms(3)] distinct_in_use_claim [of i ss d s']
  by (auto simp: slots_wf_def policy_of_def)

lemma slots_wf_with_slot: "slots_wf ss \<Longrightarrow> keeps_owner f \<Longrightarrow> slots_wf (with_slot ss d f)"
  by (auto simp: slots_wf_def with_slot_def keeps_owner_def map_fd_in_use_update split: option.splits)

lemma slots_wf_release: "slots_wf ss \<Longrightarrow> slots_wf (with_slot ss d (\<lambda>s. s\<lparr>in_use := False\<rparr>))"
  by (auto simp: slots_wf_def with_slot_def distinct_release split: option.splits)

lemma alloc_fresh_here:
  "alloc_locked ss d = Some (i, ss') \<Longrightarrow> ss'[i := fresh_policy d] = ss'"
  by (auto dest: alloc_locked_props)

interpretation io: policy_table policy_of with_slot
    "\<lambda>ss d. map_option snd (alloc_locked ss d)"
    "\<lambda>ss d. with_slot ss d (\<lambda>s. s\<lparr>in_use := False\<rparr>)"
    fresh_policy keeps_owner slots_wf
proof unfold_locales
  fix ss d ss'
  assume none: "policy_of ss d = None" and al: "map_option snd (alloc_locked ss d) = Some ss'"
  then obtain i where i: "alloc_locked ss d = Some (i, ss')" by auto
  note fp = alloc_fresh_here [OF i]
  show "policy_of ss' = (policy_of ss)(d \<mapsto> fresh_policy d)"
    using policy_claim [OF none i, of "fresh_policy d"] by (simp add: fp)
  show "slots_wf ss'" if "slots_wf ss"
    using slots_wf_claim [OF that none i, of "fresh_policy d"] by (simp add: fp)
qed (simp_all add: policy_with_slot policy_release slots_wf_with_slot slots_wf_release)

section \<open>Lemmas on the operations\<close>

lemma keeps_owner_updates [simp, intro]:
  "keeps_owner (\<lambda>s. s\<lparr>bytes_written := f s\<rparr>)"
  "keeps_owner (\<lambda>s. s\<lparr>quota := b\<rparr>)"
  "keeps_owner (\<lambda>s. s\<lparr>partial_max := b\<rparr>)"
  "keeps_owner (\<lambda>s. s\<lparr>fsync_delay_ns := b\<rparr>)"
  "keeps_owner (\<lambda>s. s\<lparr>path := b'\<rparr>)"
  by (simp_all add: keeps_owner_def)

lemmas io_op_defs = chaos_io_set_quota_def chaos_io_set_partial_def chaos_io_set_fsync_delay_def
  chaos_io_close_def io_write_commit_def

lemma io_write_want_eq:
  "io_write_want ss d n =
     (case policy_of ss d of
        None \<Rightarrow> Inr n
      | Some p \<Rightarrow> (case write_limit p n of None \<Rightarrow> Inl ENOSPC | Some m \<Rightarrow> Inr m))"
  by (cases "find_locked ss d")
    (auto simp: io_write_want_def policy_of_def write_limit_def Let_def min_def not_le
      word_neq_0_conv)

lemma transfer_bound: "transfer ans want = (w, e) \<Longrightarrow> -1 \<le> w \<and> w \<le> int want"
  by (cases ans) auto

lemma transfer_errno: "transfer ans want = (w, e) \<Longrightarrow> (w = -1) = (e \<noteq> None)"
  by (cases ans) auto

lemma policy_commit:
  assumes "policy_of ss d = Some p"
  shows "policy_of (io_write_commit ss d w) =
    (policy_of ss)(d \<mapsto> p\<lparr>bytes_written := bytes_written p + of_int (max w 0)\<rparr>)"
  using assms by (auto simp: io_write_commit_def policy_with_slot max_def fun_upd_idem)

lemma policy_commit_none:
  "policy_of ss d = None \<Longrightarrow> policy_of (io_write_commit ss d w) = policy_of ss"
  by (auto simp: io_write_commit_def policy_with_slot fun_upd_idem)

lemma chaos_io_write_policy:
  assumes "policy_of ss d = Some p" and "chaos_io_write ss d n ans = (w, e, ss')"
  shows "policy_of ss' =
    (policy_of ss)(d \<mapsto> p\<lparr>bytes_written := bytes_written p + of_int (max w 0)\<rparr>)"
proof (cases "write_limit p n")
  case None
  with assms have "w = -1" and "ss' = ss"
    by (auto simp: chaos_io_write_def io_write_want_eq)
  with assms(1) show ?thesis by (simp add: fun_upd_idem)
next
  case (Some m)
  with assms have "ss' = io_write_commit ss d w"
    by (auto simp: chaos_io_write_def io_write_want_eq split: prod.splits)
  with assms(1) show ?thesis by (simp add: policy_commit)
qed

lemma chaos_io_write_bound:
  assumes "policy_of ss d = Some p" and "chaos_io_write ss d n ans = (w, e, ss')" and "0 \<le> w"
  obtains m where "write_limit p n = Some m" and "w \<le> uint m"
proof (cases "write_limit p n")
  case None
  with assms show ?thesis by (auto simp: chaos_io_write_def io_write_want_eq)
next
  case (Some m)
  with assms have "fst (transfer ans (unat m)) = w"
    by (auto simp: chaos_io_write_def io_write_want_eq split: prod.splits)
  then have "w \<le> int (unat m)"
    using transfer_bound [of ans "unat m" w] by (metis prod.collapse)
  with Some that show ?thesis by simp
qed

lemma write_limit_caps:
  assumes "write_limit p n = Some m"
  shows "m \<le> n" and "partial_max p \<noteq> 0 \<Longrightarrow> m \<le> partial_max p"
    and "quota p \<noteq> 0 \<Longrightarrow> bytes_written p < quota p \<and> m \<le> quota p - bytes_written p"
  using assms by (auto simp: write_limit_def min_def not_le split: if_splits)

lemma uint_quota_room:
  fixes q b m :: u64
  assumes "m \<le> q - b" and "b \<le> q"
  shows "uint m \<le> uint q - uint b"
  using assms by (simp add: word_le_def uint_sub_lem [THEN iffD1])

lemma chaos_io_write_room:
  assumes "policy_of ss d = Some p" and "chaos_io_write ss d n ans = (w, e, ss')"
    and "quota p \<noteq> 0" and "bytes_written p \<le> quota p"
  shows "max w 0 \<le> uint (quota p) - uint (bytes_written p)"
proof (cases "0 \<le> w")
  case True
  then obtain m where m: "write_limit p n = Some m" "w \<le> uint m"
    using chaos_io_write_bound [OF assms(1,2)] by blast
  have "uint m \<le> uint (quota p) - uint (bytes_written p)"
    using write_limit_caps(3) [OF m(1) assms(3)] assms(4) by (blast intro: uint_quota_room)
  with m(2) True show ?thesis by simp
next
  case False
  then show ?thesis using assms(4) by (simp add: word_le_def)
qed

lemma policy_of_init: "policy_of init_slots d = None"
proof -
  have "find_locked init_slots d = None"
    by (simp add: find_locked_None_iff init_slots_def empty_slot_def)
  then show ?thesis by (simp add: policy_of_def)
qed

lemma slots_wf_init: "slots_wf init_slots"
  by (simp add: slots_wf_def init_slots_def empty_slot_def)

lemma chaos_io_open_cases:
  assumes "policy_of ss mk = None"
  obtains "mk < 0" "chaos_io_open mk tmpl ss = (-1, None, ss, [])"
  | "0 \<le> mk" "\<forall>s \<in> set ss. in_use s"
    "chaos_io_open mk tmpl ss = (-1, Some EMFILE, ss, [SysOpen mk, SysUnlink tmpl, SysClose mk])"
  | ss' where "0 \<le> mk" "\<exists>s \<in> set ss. \<not> in_use s"
    "chaos_io_open mk tmpl ss = (mk, None, ss', [SysOpen mk, SysUnlink tmpl])"
    "policy_of ss' = (policy_of ss)(mk \<mapsto> (fresh_policy mk)\<lparr>path := cfield 256 tmpl\<rparr>)"
    "slots_wf ss \<Longrightarrow> slots_wf ss'"
proof (cases "mk < 0")
  case True
  then show ?thesis using that(1) by (simp add: chaos_io_open_def)
next
  case nonneg: False
  show ?thesis
  proof (cases "alloc_locked ss mk")
    case None
    with nonneg show ?thesis
      using that(2) alloc_locked_None [of ss mk] by (simp add: chaos_io_open_def)
  next
    case (Some a)
    then obtain i ss1 where a: "alloc_locked ss mk = Some (i, ss1)" by (cases a) auto
    define p where "p = (fresh_policy mk)\<lparr>path := cfield 256 tmpl\<rparr>"
    have p: "fd p = mk" "in_use p" by (simp_all add: p_def)
    have "\<not> (\<forall>s \<in> set ss. in_use s)" using a alloc_locked_None [of ss mk] by simp
    moreover have "chaos_io_open mk tmpl ss = (mk, None, ss1[i := p], [SysOpen mk, SysUnlink tmpl])"
      using nonneg a alloc_locked_props [OF a] by (simp add: chaos_io_open_def p_def)
    ultimately show ?thesis
      using nonneg that(3) policy_claim [OF assms a p] slots_wf_claim [OF _ assms a p(1)]
      by (auto simp: p_def)
  qed
qed

text \<open>The descriptors with a slot are those the callers hold, and all of them are open.\<close>

definition io_inv :: "slots \<Rightarrow> int set \<Rightarrow> int set \<Rightarrow> bool" where
  "io_inv ss opened mine \<longleftrightarrow> slots_wf ss \<and> (\<forall>d. policy_of ss d \<noteq> None \<longleftrightarrow> d \<in> mine) \<and> mine \<subseteq> opened"

lemma io_inv_with_slot:
  "keeps_owner f \<Longrightarrow> io_inv ss opened mine \<Longrightarrow> io_inv (with_slot ss d f) opened mine"
  by (auto simp: io_inv_def slots_wf_with_slot policy_with_slot)

lemma io_inv_call:
  assumes "io_inv ss opened mine" and "kernel_gives opened op"
  shows "io_inv (io_apply ss op) (fds_after opened (io_acts ss op)) (mine_after ss op mine)"
proof (cases op)
  case (OpOpen mk tmpl)
  have "policy_of ss mk = None" using assms OpOpen by (auto simp: io_inv_def)
  then show ?thesis
    by (rule chaos_io_open_cases [of ss mk tmpl]) (use assms OpOpen in \<open>auto simp: io_inv_def fds_after_def\<close>)
next
  case (OpWrite d n ans)
  then show ?thesis using assms(1)
    by (auto simp: chaos_io_write_def io_write_commit_def io_inv_with_slot fds_after_def
        split: sum.splits prod.splits)
next
  case (OpClose d)
  then show ?thesis using assms(1)
    by (auto simp: io_inv_def chaos_io_close_def slots_wf_release policy_release fds_after_def)
qed (use assms in \<open>simp_all add: chaos_io_set_quota_def chaos_io_set_partial_def
      chaos_io_set_fsync_delay_def io_inv_with_slot fds_after_def\<close>)

lemma io_reachable_inv: "io_reachable ss opened mine \<Longrightarrow> io_inv ss opened mine"
proof (induction rule: io_reachable.induct)
  case (io_start opened)
  show ?case by (simp add: io_inv_def slots_wf_init policy_of_init)
next
  case (io_call ss opened mine op)
  then show ?case by (blast intro: io_inv_call)
qed (auto simp: io_inv_def)

lemma slots_wf_unique:
  assumes "slots_wf ss" and "i < length ss" and "j < length ss"
    and "in_use (ss ! i)" and "in_use (ss ! j)" and "fd (ss ! i) = fd (ss ! j)"
  shows "i = j"
proof -
  have two: "\<not> distinct (map fd (filter in_use xs))"
    if "i < j" "j < length xs" "in_use (xs ! i)" "in_use (xs ! j)" "fd (xs ! i) = fd (xs ! j)" for i j and xs :: slots
  proof -
    have "xs ! i \<in> set (take j xs)" "xs ! j \<in> set (drop j xs)"
      using that(1,2) by (auto simp: in_set_conv_nth intro: exI [of _ i] exI [of _ 0])
    then have "fd (xs ! i) \<in> set (map fd (filter in_use (take j xs)))"
      "fd (xs ! j) \<in> set (map fd (filter in_use (drop j xs)))"
      using that(3,4) by simp_all
    moreover have "map fd (filter in_use xs) = map fd (filter in_use (take j xs)) @ map fd (filter in_use (drop j xs))"
      by (metis append_take_drop_id filter_append map_append)
    ultimately show ?thesis using that(5) by auto
  qed
  show ?thesis
    using two [of i j ss] two [of j i ss] assms by (cases i j rule: linorder_cases) (auto simp: slots_wf_def)
qed

lemma slots_owners: "{d. policy_of ss d \<noteq> None} = fd ` {s \<in> set ss. in_use s}"
  by (auto simp: policy_of_def find_locked_None_iff)

lemma chaos_io_write_other:
  assumes "d' \<noteq> d" and "chaos_io_write ss d n ans = (w, e, ss')"
  shows "policy_of ss' d' = policy_of ss d'"
  using assms
  by (auto simp: chaos_io_write_def io_write_commit_def io.update_other
      split: sum.splits prod.splits)

text \<open>
  C20: one slot for each descriptor, for ever. Whatever a program does with the module and with
  other descriptors, the table keeps its 64 slots, no two slots in use are for one descriptor, the
  descriptors that have a slot are exactly those \<open>chaos_io_open\<close> returned that have not been
  closed, and all of them are open in the kernel. What is used of the kernel is that it hands out
  no descriptor it has open; what is asked of the program is to close the descriptors of the module
  through \<open>chaos_io_close\<close>, and \<open>plain_close_keeps_quota\<close> shows what happens otherwise.
\<close>

theorem io_reachable_wf:
  assumes "io_reachable ss opened mine"
  shows "length ss = 64
    \<and> (\<forall>i < 64. \<forall>j < 64. in_use (ss ! i) \<and> in_use (ss ! j) \<and> fd (ss ! i) = fd (ss ! j) \<longrightarrow> i = j)
    \<and> fd ` {s \<in> set ss. in_use s} = mine \<and> mine \<subseteq> opened"
proof -
  have inv: "io_inv ss opened mine" by (rule io_reachable_inv [OF assms])
  then have "{d. policy_of ss d \<noteq> None} = mine" by (auto simp: io_inv_def)
  then have "fd ` {s \<in> set ss. in_use s} = mine" by (simp only: slots_owners)
  moreover have "length ss = 64" using inv by (simp add: io_inv_def slots_wf_def IO_SLOTS_MAX_def)
  ultimately show ?thesis using inv slots_wf_unique [of ss] by (auto simp: io_inv_def)
qed

lemma io_reachable_open_close:
  "io_reachable (io_apply (io_apply init_slots (OpOpen 3 t)) (OpClose 3)) {0, 1, 2} {}"
proof -
  let ?ss = "io_apply init_slots (OpOpen 3 t)"
  obtain ss acts where o: "chaos_io_open 3 t init_slots = (3, None, ss, acts)" "acts = [SysOpen 3, SysUnlink t]"
    by (rule chaos_io_open_cases [OF policy_of_init, of 3 t])
      (auto simp: init_slots_def empty_slot_def IO_SLOTS_MAX_def)
  have "io_reachable ?ss (fds_after {0, 1, 2} (io_acts init_slots (OpOpen 3 t))) (mine_after init_slots (OpOpen 3 t) {})"
    by (rule io_call [OF io_start]) simp
  from io_call [OF this, of "OpClose 3"] show ?thesis
    by (simp add: o fds_after_def chaos_io_close_def insert_Diff_if)
qed

theorem io_reachable_wf_witness:
  "fd ` {s \<in> set (io_apply (io_apply init_slots (OpOpen 3 (bytes ''t''))) (OpClose 3)). in_use s} = {}"
  using io_reachable_wf [OF io_reachable_open_close] by simp

text \<open>
  a descriptor of the module that is closed by a plain \<open>close\<close> leaves its slot behind: when the
  next \<open>chaos_io_open\<close> gets the same number, its file has the old quota.
\<close>

theorem plain_close_keeps_quota:
  "let ss = chaos_io_set_quota (io_apply init_slots (OpOpen 3 t)) 3 100
   in \<exists>p. policy_of (io_apply ss (OpOpen 3 u)) 3 = Some p \<and> quota p = 100"
proof -
  have init: "init_slots = empty_slot # empty_slot # replicate 62 empty_slot"
    by (simp add: init_slots_def IO_SLOTS_MAX_def numeral_eq_Suc)
  have free: "in_use empty_slot = False" by (simp add: empty_slot_def)
  show ?thesis
    unfolding init
    by (simp add: chaos_io_open_def chaos_io_set_quota_def with_slot_def policy_of_def free)
qed

text \<open>
  no call on one descriptor changes the policy, the byte count or the presence of another:
  quotas, chunk limits and delays are per descriptor.
\<close>

theorem io_calls_isolated:
  assumes "io_reachable ss opened mine" and "kernel_gives opened op" and "op_fd op \<noteq> d"
  shows "policy_of (io_apply ss op) d = policy_of ss d"
proof (cases op)
  case (OpOpen mk tmpl)
  have "policy_of ss mk = None"
    using io_reachable_inv [OF assms(1)] assms(2) OpOpen by (auto simp: io_inv_def)
  then show ?thesis
    by (rule chaos_io_open_cases [of ss mk tmpl]) (use assms(3) OpOpen in auto)
next
  case (OpWrite d' n ans)
  then show ?thesis
    using assms(3) chaos_io_write_other [of d d' ss n ans] by (cases "chaos_io_write ss d' n ans") auto
qed (use assms io_reachable_inv [OF assms(1)] in \<open>auto simp: io_op_defs policy_with_slot policy_release io_inv_def\<close>)

theorem io_calls_isolated_witness:
  "policy_of (io_apply init_slots (OpQuota 3 100)) 4 = policy_of init_slots 4"
  by (rule io_calls_isolated [OF io_start]) simp_all

text \<open>
  \<open>chaos_io_open\<close> leaks no descriptor and loses none: it returns exactly the descriptor
  that stays open, with a fresh policy in the table, and when it fails nothing stays open and the
  table is as before; it fails with \<open>EMFILE\<close> exactly when all slots are taken.
\<close>

theorem chaos_io_open_accounts:
  assumes "policy_of ss mk = None" and "chaos_io_open mk tmpl ss = (r, e, ss', acts)"
  shows "open_fds acts = (if 0 \<le> r then {r} else {})
    \<and> policy_of ss' = (if 0 \<le> r
        then (policy_of ss)(r \<mapsto> (fresh_policy r)\<lparr>path := cfield 256 tmpl\<rparr>) else policy_of ss)
    \<and> (e = Some EMFILE \<longleftrightarrow> 0 \<le> mk \<and> (\<forall>s \<in> set ss. in_use s))"
  using assms(2)
  by (rule_tac chaos_io_open_cases [OF assms(1), of tmpl]) (auto simp: open_fds_def)

theorem chaos_io_open_accounts_witness:
  "open_fds [SysOpen 3, SysUnlink (bytes ''t''), SysClose 3] = {}"
proof -
  let ?full = "map (\<lambda>i. (fresh_policy (int i))) [100..<164]"
  have none: "policy_of ?full 3 = None"
    by (simp add: policy_of_def find_locked_None_iff)
  have "chaos_io_open 3 (bytes ''t'') ?full
      = (-1, Some EMFILE, ?full, [SysOpen 3, SysUnlink (bytes ''t''), SysClose 3])"
    using alloc_locked_None [of ?full 3] by (simp add: chaos_io_open_def del: map_upt_Suc upt_rec_numeral)
  from chaos_io_open_accounts [OF none this] show ?thesis by simp
qed

text \<open>
  the outcome of one write on a wrapped descriptor, whatever the kernel answers: it is
  refused with \<open>ENOSPC\<close> without reaching the kernel exactly when the quota is used up;
  otherwise it moves at most the request, the chunk limit and the room left under the quota, and
  the byte count grows by exactly what was moved while the rest of the policy stays.
\<close>

theorem chaos_io_write_outcome:
  assumes "policy_of ss d = Some p" and "chaos_io_write ss d n ans = (w, e, ss')"
  shows "(quota p \<noteq> 0 \<and> quota p \<le> bytes_written p \<longrightarrow> w = -1 \<and> e = Some ENOSPC \<and> ss' = ss)
    \<and> (0 \<le> w \<longrightarrow> w \<le> uint n
         \<and> (partial_max p \<noteq> 0 \<longrightarrow> w \<le> uint (partial_max p))
         \<and> (quota p \<noteq> 0 \<longrightarrow> w \<le> uint (quota p) - uint (bytes_written p)))
    \<and> policy_of ss' d = Some (p\<lparr>bytes_written := bytes_written p + of_int (max w 0)\<rparr>)"
proof (intro conjI impI)
  assume "quota p \<noteq> 0 \<and> quota p \<le> bytes_written p"
  with assms show "w = -1" and "e = Some ENOSPC" and "ss' = ss"
    by (auto simp: chaos_io_write_def io_write_want_eq write_limit_def)
next
  assume "0 \<le> w"
  then obtain m where m: "write_limit p n = Some m" "w \<le> uint m"
    using chaos_io_write_bound [OF assms] by blast
  note caps = write_limit_caps [OF m(1)]
  show "w \<le> uint n" using m(2) caps(1) by (simp add: word_le_def)
  show "partial_max p \<noteq> 0 \<Longrightarrow> w \<le> uint (partial_max p)"
    using m(2) caps(2) by (simp add: word_le_def)
  show "w \<le> uint (quota p) - uint (bytes_written p)" if "quota p \<noteq> 0"
    using chaos_io_write_room [OF assms that] caps(3) [OF that] less_imp_le by force
next
  show "policy_of ss' d = Some (p\<lparr>bytes_written := bytes_written p + of_int (max w 0)\<rparr>)"
    using chaos_io_write_policy [OF assms] by simp
qed

theorem chaos_io_write_outcome_witness:
  "policy_of (snd (snd (chaos_io_write [(fresh_policy 3)\<lparr>quota := 100, bytes_written := 90\<rparr>] 3 64 (Moves 64)))) 3
     = Some ((fresh_policy 3)\<lparr>quota := 100, bytes_written := 100\<rparr>)"
proof -
  let ?p = "(fresh_policy 3)\<lparr>quota := 100, bytes_written := 90\<rparr>"
  have p: "policy_of [?p] 3 = Some ?p" by (simp add: policy_of_def)
  have "chaos_io_write [?p] 3 64 (Moves 64) = (10, None, [?p\<lparr>bytes_written := 100\<rparr>])"
    by (simp add: chaos_io_write_def io_write_want_def io_write_commit_def with_slot_def Let_def)
  from chaos_io_write_outcome [OF p this] show ?thesis
    by (simp add: chaos_io_write_def io_write_want_def io_write_commit_def with_slot_def Let_def)
qed

lemma io_writes_quota:
  assumes "policy_of ss d = Some p" and "io_writes ss d ws = (rs, ss')"
    and "quota p \<noteq> 0" and "bytes_written p \<le> quota p"
  shows "accepted rs \<le> uint (quota p) - uint (bytes_written p)
    \<and> policy_of ss' d = Some (p\<lparr>bytes_written := bytes_written p + of_int (accepted rs)\<rparr>)"
  using assms
proof (induction ws arbitrary: ss p rs)
  case Nil
  then show ?case by (auto simp: accepted_def word_le_def)
next
  case (Cons nw ws)
  obtain n ans where nw: "nw = (n, ans)" by (cases nw)
  obtain w e ss1 where w: "chaos_io_write ss d n ans = (w, e, ss1)"
    by (cases "chaos_io_write ss d n ans") auto
  obtain rs1 where rs: "io_writes ss1 d ws = (rs1, ss')" "rs = w # rs1"
    using Cons.prems(2) nw w by (auto split: prod.splits)
  define p1 where "p1 = p\<lparr>bytes_written := bytes_written p + of_int (max w 0)\<rparr>"
  have p1: "policy_of ss1 d = Some p1"
    using chaos_io_write_policy [OF Cons.prems(1) w] by (simp add: p1_def)
  have room: "max w 0 \<le> uint (quota p) - uint (bytes_written p)"
    by (rule chaos_io_write_room [OF Cons.prems(1) w Cons.prems(3,4)])
  have "0 \<le> uint (bytes_written p)" by simp
  with room uint_lt_64 [of "quota p"] have "max w 0 < 18446744073709551616" by linarith
  then have "uint (of_int (max w 0) :: u64) = max w 0"
    by (simp add: uint_word_of_int)
  moreover have "0 \<le> uint (bytes_written p) + max w 0"
    "uint (bytes_written p) + max w 0 < 18446744073709551616"
    using room uint_lt_64 [of "quota p"] \<open>0 \<le> uint (bytes_written p)\<close> by linarith+
  ultimately have "uint (bytes_written p1) = uint (bytes_written p) + max w 0"
    by (simp add: p1_def uint_word_ariths)
  moreover from this have "bytes_written p1 \<le> quota p1"
    unfolding word_le_def using room by (simp add: p1_def max_def split: if_splits)
  ultimately show ?case
    using Cons.IH [OF p1 rs(1)] Cons.prems(3) by (simp add: p1_def rs(2) accepted_def add.assoc)
qed

text \<open>
  C5: over any sequence of writes to a descriptor whose count is within its quota, with any
  answers of the kernel, the bytes accepted in total stay within what was left of the quota, and
  the count is the old one plus exactly the bytes accepted.
\<close>

theorem io_writes_within_quota:
  assumes "policy_of ss d = Some p" and "io_writes ss d ws = (rs, ss')"
    and "quota p \<noteq> 0" and "bytes_written p \<le> quota p"
  shows "uint (bytes_written p) + accepted rs \<le> uint (quota p)
    \<and> policy_of ss' d = Some (p\<lparr>bytes_written := bytes_written p + of_int (accepted rs)\<rparr>)"
  using io_writes_quota [OF assms] by simp

theorem io_writes_within_quota_witness:
  "accepted (fst (io_writes [(fresh_policy 3)\<lparr>quota := 100\<rparr>] 3 [(64, Moves 64), (64, Moves 64), (64, Moves 64)])) \<le> 100"
proof -
  let ?ss = "[(fresh_policy 3)\<lparr>quota := 100\<rparr>]"
  let ?ws = "[(64, Moves 64), (64, Moves 64), (64, Moves 64)]"
  have "policy_of ?ss 3 = Some ((fresh_policy 3)\<lparr>quota := 100\<rparr>)" by (simp add: policy_of_def)
  from io_writes_within_quota [OF this, of ?ws] show ?thesis
    by (cases "io_writes ?ss 3 ?ws") (simp add: fresh_policy_def empty_slot_def)
qed

text \<open>
  the quota is not enforced against two threads: when both pass the first critical section
  before either commits, both are granted the whole room, and the count ends beyond the quota.
\<close>

theorem io_write_race_exceeds_quota:
  assumes "policy_of ss d = Some p" and "bytes_written p < quota p" and "partial_max p = 0"
    and "quota p - bytes_written p \<le> n"
    and "uint (quota p) + uint (quota p - bytes_written p) < 2 ^ 64"
  shows "\<exists>room p'. io_write_want ss d n = Inr room
    \<and> policy_of (io_write_commit (io_write_commit ss d (uint room)) d (uint room)) d = Some p'
    \<and> quota p' = quota p \<and> bytes_written p' > quota p'"
proof -
  define room where "room = quota p - bytes_written p"
  have "write_limit p n = Some room"
    using assms(2-4) by (auto simp: write_limit_def room_def min_def)
  then have want: "io_write_want ss d n = Inr room"
    using assms(1) by (simp add: io_write_want_eq)
  define p1 where "p1 = p\<lparr>bytes_written := bytes_written p + room\<rparr>"
  have p1: "policy_of (io_write_commit ss d (uint room)) d = Some p1"
    using policy_commit [OF assms(1)] by (simp add: p1_def)
  then have p2: "policy_of (io_write_commit (io_write_commit ss d (uint room)) d (uint room)) d
      = Some (p1\<lparr>bytes_written := bytes_written p1 + room\<rparr>)"
    using policy_commit [OF p1] by simp
  have "0 < uint room"
    using assms(2) by (simp add: room_def word_less_def uint_sub_lem [THEN iffD1] less_imp_le word_le_def)
  then have "quota p < quota p + room"
    using assms(5) [folded room_def] by (simp add: word_less_def uint_add_lem [THEN iffD1])
  then show ?thesis
    using want p2 by (auto simp: p1_def room_def)
qed

theorem io_write_race_exceeds_quota_witness:
  "\<exists>room p'. io_write_want [(fresh_policy 3)\<lparr>quota := 100, bytes_written := 40\<rparr>] 3 64 = Inr room
    \<and> policy_of (io_write_commit (io_write_commit
          [(fresh_policy 3)\<lparr>quota := 100, bytes_written := 40\<rparr>] 3 (uint room)) 3 (uint room)) 3 = Some p'
    \<and> quota p' = quota ((fresh_policy 3)\<lparr>quota := 100, bytes_written := 40\<rparr>)
    \<and> bytes_written p' > quota p'"
  by (rule io_write_race_exceeds_quota) (simp_all add: policy_of_def)

text \<open>
  a clock reading is the monotonic reading plus the skew plus a jitter below the configured
  maximum; with no jitter configured it is exact and draws nothing from the generator. Reading
  never changes the configuration.
\<close>

theorem chaos_clock_reading:
  assumes "chaos_clock_now_ns ts c = (v, c')"
  shows "(\<exists>j. v = ns_of_timespec ts + g_clock_skew_ns c + j
      \<and> (if g_clock_jitter_max_ns c = 0 then j = 0 \<and> c' = c else j < g_clock_jitter_max_ns c))
    \<and> g_clock_skew_ns c' = g_clock_skew_ns c
    \<and> g_clock_jitter_max_ns c' = g_clock_jitter_max_ns c"
proof (cases "g_clock_jitter_max_ns c = 0")
  case True
  with assms show ?thesis
    by (auto simp: chaos_clock_now_ns_def ns_of_timespec_def Let_def)
next
  case False
  obtain r g where rg: "pg_xosh_next (g_clock_rng c) = (r, g)" by (cases "pg_xosh_next (g_clock_rng c)")
  have "r mod g_clock_jitter_max_ns c < g_clock_jitter_max_ns c"
    using xosh.mod_span_less [of "g_clock_jitter_max_ns c" "g_clock_rng c"] False rg
    by (simp add: word_neq_0_conv)
  with False assms rg show ?thesis
    by (auto simp: chaos_clock_now_ns_def ns_of_timespec_def Let_def word_neq_0_conv)
qed

theorem chaos_clock_reading_witness:
  "fst (chaos_clock_now_ns \<lparr>tv_sec = 5, tv_nsec = 7\<rparr> (chaos_clock_skew_set 100 init_clock)) = 5000000107"
proof -
  let ?c = "chaos_clock_skew_set 100 init_clock"
  obtain v c' where v: "chaos_clock_now_ns \<lparr>tv_sec = 5, tv_nsec = 7\<rparr> ?c = (v, c')"
    by (cases "chaos_clock_now_ns \<lparr>tv_sec = 5, tv_nsec = 7\<rparr> ?c")
  from chaos_clock_reading [OF v] v show ?thesis
    by (simp add: chaos_clock_skew_set_def init_clock_def ns_of_timespec_def)
qed

end
