(* ===== verification/Step_System.thy ===== *)
theory Step_System
  imports Main
begin

text \<open>
  What the state machines of the development share. A run of threads that interleave is a step
  relation; its reachable states are those of the closure \<open>step\<^sup>*\<^sup>*\<close>. The locales say what the
  machine of a scenario has to promise (an invariant that every step keeps, a measure that every
  step lowers, a step in every state before the end, a projection that steps follow) and give what
  the properties rest on: the invariant in all reachable states, a way to the end from each of
  them, no infinite schedule, and runs of the projection.
\<close>

section \<open>Invariants\<close>

locale step_system =
  fixes step :: "'s \<Rightarrow> 's \<Rightarrow> bool"
    and inv :: "'s \<Rightarrow> bool"
  assumes inv_step: "step s t \<Longrightarrow> inv s \<Longrightarrow> inv t"
begin

lemma inv_reaches: "step\<^sup>*\<^sup>* s t \<Longrightarrow> inv s \<Longrightarrow> inv t"
  by (induction rule: rtranclp_induct) (auto intro: inv_step)

text \<open>A second invariant may use the first.\<close>

lemma keeps_reaches:
  assumes "step\<^sup>*\<^sup>* s t" and "inv s" and "P s"
    and keep: "\<And>t u. inv t \<Longrightarrow> P t \<Longrightarrow> step t u \<Longrightarrow> P u"
  shows "P t"
  using assms(1)
proof (induction rule: rtranclp_induct)
  case (step t u)
  with inv_reaches assms(2) keep show ?case by blast
qed (rule assms(3))

text \<open>One that holds only while some quantity that never falls, a clock say, is below a bound.\<close>

lemma keeps_until:
  fixes now :: "'s \<Rightarrow> nat"
  assumes "step\<^sup>*\<^sup>* s t" and "inv s" and "P s" and "now t < bound"
    and grows: "\<And>t u. step t u \<Longrightarrow> now t \<le> now u"
    and keep: "\<And>t u. inv t \<Longrightarrow> P t \<Longrightarrow> step t u \<Longrightarrow> now u < bound \<Longrightarrow> P u"
  shows "P t"
  using assms(1,4)
proof (induction rule: rtranclp_induct)
  case (step t u)
  then have "now t < bound" using grows le_less_trans by blast
  with step inv_reaches assms(2) keep show ?case by blast
qed (use assms(3) in simp)

end

section \<open>Machines that end\<close>

text \<open>
  \<open>soon\<close> are the steps a schedule that wants to end takes: they may be fewer than all steps, as
  where time passes no longer than it has to.
\<close>

locale ending_system = step_system step inv
  for step :: "'s \<Rightarrow> 's \<Rightarrow> bool" and inv :: "'s \<Rightarrow> bool" +
  fixes soon :: "'s \<Rightarrow> 's \<Rightarrow> bool"
    and final :: "'s \<Rightarrow> bool"
    and left :: "'s \<Rightarrow> nat"
  assumes soon_step: "soon s t \<Longrightarrow> step s t"
    and left_step: "step s t \<Longrightarrow> inv s \<Longrightarrow> left t < left s"
    and progress: "inv s \<Longrightarrow> \<not> final s \<Longrightarrow> \<exists>t. soon s t"
begin

lemma driven_keeping:
  assumes "inv s" and "P s" and keep: "\<And>t u. inv t \<Longrightarrow> P t \<Longrightarrow> soon t u \<Longrightarrow> P u"
  shows "\<exists>t. step\<^sup>*\<^sup>* s t \<and> final t \<and> P t"
  using assms(1,2)
proof (induction "left s" arbitrary: s rule: less_induct)
  case less
  show ?case
  proof (cases "final s")
    case True
    with less.prems show ?thesis by blast
  next
    case False
    from progress [OF less.prems(1) this] obtain t where t: "soon s t" ..
    note st = soon_step [OF t]
    from less.hyps [OF left_step [OF st less.prems(1)] inv_step [OF st less.prems(1)] keep [OF less.prems t]]
    obtain u where "step\<^sup>*\<^sup>* t u" "final u" "P u" by blast
    with st show ?thesis by (blast intro: converse_rtranclp_into_rtranclp)
  qed
qed

lemma driven: "inv s \<Longrightarrow> \<exists>t. step\<^sup>*\<^sup>* s t \<and> final t"
  using driven_keeping [of s "\<lambda>_. True"] by blast

lemma no_infinite_schedule: "wf {(t, s). inv s \<and> step s t}"
  by (rule wf_subset [OF wf_measure [of left]]) (auto intro: left_step)

lemma no_infinite_schedule_from: "inv i \<Longrightarrow> wf {(t, s). step\<^sup>*\<^sup>* i s \<and> step s t}"
  by (rule wf_subset [OF no_infinite_schedule]) (auto intro: inv_reaches)

end

section \<open>Projections\<close>

locale projected_system = step_system step inv
  for step :: "'s \<Rightarrow> 's \<Rightarrow> bool" and inv :: "'s \<Rightarrow> bool" +
  fixes proj :: "'s \<Rightarrow> 's"
  assumes step_proj: "step s t \<Longrightarrow> inv s \<Longrightarrow> proj t = proj s \<or> step (proj s) (proj t)"
begin

lemma reaches_proj:
  assumes "step\<^sup>*\<^sup>* s t" and "inv s"
  shows "step\<^sup>*\<^sup>* (proj s) (proj t)"
  using assms(1)
proof (induction rule: rtranclp_induct)
  case (step t u)
  with step_proj inv_reaches [OF _ assms(2)] show ?case by (metis rtranclp.rtrancl_into_rtrancl)
qed simp

end

section \<open>Chains of kinds of states\<close>

text \<open>From every state with \<open>P\<close> one with \<open>Q\<close> can be reached.\<close>

definition leads_to :: "('s \<Rightarrow> 's \<Rightarrow> bool) \<Rightarrow> ('s \<Rightarrow> bool) \<Rightarrow> ('s \<Rightarrow> bool) \<Rightarrow> bool" where
  "leads_to step P Q \<longleftrightarrow> (\<forall>s. P s \<longrightarrow> (\<exists>t. step\<^sup>*\<^sup>* s t \<and> Q t))"

lemma leads_to_refl: "leads_to step P P"
  by (auto simp: leads_to_def)

lemma leads_to_trans [trans]: "leads_to step P Q \<Longrightarrow> leads_to step Q R \<Longrightarrow> leads_to step P R"
  unfolding leads_to_def by (meson rtranclp_trans)

lemma leads_to_step: "(\<And>s. P s \<Longrightarrow> \<exists>t. step s t \<and> Q t) \<Longrightarrow> leads_to step P Q"
  unfolding leads_to_def by blast

end
