(* ===== verification/Emit.thy ===== *)
theory Emit
  imports Wire Chaos_IO Step_System
begin

text \<open>
  The emitting half of \<open>src/core/runner.c\<close> and \<open>include/playground/event.h\<close>: what
  runs inside the scenario child. \<open>child\<close> is the state of that process as the harness code
  sees it: the one \<open>pg_runctx\<close> object on the stack of the runner, the globals that point to
  it, the bytes written to the event pipe so far, and the decisions of the kernel still to come
  (answers to \<open>write\<close>, readings of the monotonic clock). \<open>pg_emit\<close> returns \<open>None\<close>
  when the answers run out while it is still in its loop. The step relation \<open>race_step\<close>
  interleaves the loop bodies of several threads that emit at the same time.
\<close>

section \<open>State\<close>

record pg_runctx =
  event_fd_w :: int
  ctx_seed :: u64
  ctx_rng :: pg_xosh_t
  ctx_thread_tag :: u32
  ctx_start_ns :: u64

text \<open>
  A \<open>pg_runctx_t *\<close>: a child has one context object, so a pointer is \<open>NULL\<close> or leads to it.
\<close>

datatype ctx_ptr = NullCtx | TheCtx

record child =
  ctx_obj :: pg_runctx
  g_runctx :: ctx_ptr
  g_thread_tag :: u32
  g_next_thread_tag :: u32
  g_child_event_fd :: int
  g_clock :: clock_state
  pipe_bytes :: "u8 list"
  answers :: "answer list"
  mono :: "nat \<Rightarrow> timespec"
  tick :: nat
  sig_handlers :: "signal list"
  rlimit_cpu :: "u64 option"
  sys_log :: "sysact list"

definition pg_runctx_seed :: "ctx_ptr \<Rightarrow> child \<Rightarrow> u64" where
  "pg_runctx_seed p c = (if p \<noteq> NullCtx then ctx_seed (ctx_obj c) else 0)"

definition pg_runctx_rand :: "ctx_ptr \<Rightarrow> child \<Rightarrow> u64 \<times> child" where
  "pg_runctx_rand p c =
     (if p \<noteq> NullCtx
      then (let (v, g) = pg_xosh_next (ctx_rng (ctx_obj c))
            in (v, c\<lparr>ctx_obj := (ctx_obj c)\<lparr>ctx_rng := g\<rparr>\<rparr>))
      else (0, c))"

definition pg_alloc_thread_tag :: "child \<Rightarrow> u32 \<times> child" where
  "pg_alloc_thread_tag c =
     (g_next_thread_tag c, c\<lparr>g_next_thread_tag := g_next_thread_tag c + 1\<rparr>)"

definition now_ns :: "child \<Rightarrow> u64 \<times> child" where
  "now_ns c =
     (let t = mono c (tick c)
      in (tv_sec t * 1000000000 + tv_nsec t, c\<lparr>tick := Suc (tick c)\<rparr>))"

section \<open>Emitting a record\<close>

text \<open>The header, time stamp and thread tag of the copy that is sent.\<close>

definition stamp :: "pg_event_t \<Rightarrow> child \<Rightarrow> pg_event_t \<times> child" where
  "stamp ev c =
     (let copy = ev\<lparr>ev_magic := PG_EVENT_MAGIC, ev_version := PG_EVENT_VERSION\<rparr>;
          (copy, c) =
            (if ev_ts_ns copy = 0
             then (let (t, c) = now_ns c in (copy\<lparr>ev_ts_ns := t - ctx_start_ns (ctx_obj c)\<rparr>, c))
             else (copy, c));
          copy =
            (if ev_thread_tag copy = 0
             then copy\<lparr>ev_thread_tag :=
                    (if g_thread_tag c \<noteq> 0 then g_thread_tag c else ctx_thread_tag (ctx_obj c))\<rparr>
             else copy)
      in (copy, c))"

text \<open>
  One turn of the loop: the bytes the kernel takes and whether the loop goes on, from which
  offset.
\<close>

datatype turn = Again nat | Leave

definition emit_body :: "u8 list \<Rightarrow> nat \<Rightarrow> answer \<Rightarrow> u8 list \<times> turn" where
  "emit_body buf off a =
     (case a of
        Fails e \<Rightarrow> if e = EINTR then ([], Again off) else ([], Leave)
      | Moves k \<Rightarrow>
          (let w = min k (length buf - off)
           in (take w (drop off buf), Again (off + w))))"

datatype emit_end = Complete | Broken | Blocked

fun emit_loop :: "u8 list \<Rightarrow> nat \<Rightarrow> answer list \<Rightarrow> u8 list \<times> emit_end \<times> answer list" where
  "emit_loop buf off ans =
     (if off < length buf
      then (case ans of
              [] \<Rightarrow> ([], Blocked, [])
            | a # ans \<Rightarrow>
                (case emit_body buf off a of
                   (w, Leave) \<Rightarrow> (w, Broken, ans)
                 | (w, Again off) \<Rightarrow>
                     (let (w', e, ans) = emit_loop buf off ans in (w @ w', e, ans))))
      else ([], Complete, ans))"

declare emit_loop.simps [simp del]

definition pg_emit :: "ctx_ptr \<Rightarrow> pg_event_t option \<Rightarrow> child \<Rightarrow> child option" where
  "pg_emit p ev c =
     (let p = (if p = NullCtx then g_runctx c else p)
      in case ev of
           None \<Rightarrow> Some c
         | Some ev \<Rightarrow>
             if p = NullCtx \<or> event_fd_w (ctx_obj c) < 0 then Some c
             else
               (let (copy, c) = stamp ev c;
                    (w, e, ans) = emit_loop (encode_event copy) 0 (answers c);
                    c = c\<lparr>pipe_bytes := pipe_bytes c @ w, answers := ans\<rparr>
                in if e = Blocked then None else Some c))"

section \<open>The helpers\<close>

text \<open>The zero-initialised record \<open>(pg_event_t){ .kind = k }\<close>.\<close>

definition blank_event :: "pg_event_kind_t \<Rightarrow> pg_event_t" where
  "blank_event k = \<lparr>ev_magic = 0, ev_version = 0, ev_pad0 = 0, ev_kind = kind_code k,
     ev_thread_tag = 0, ev_gap = 0, ev_ts_ns = 0, ev_num = 0,
     ev_key = replicate PG_EVENT_KEY_LEN 0, ev_text = replicate PG_EVENT_TEXT_LEN 0\<rparr>"

text \<open>A \<open>const char *\<close> argument: \<open>None\<close> is \<open>NULL\<close>, otherwise the bytes before the NUL.\<close>

type_synonym cstring = "u8 list option"

definition or_empty :: "cstring \<Rightarrow> u8 list" where
  "or_empty s = (case s of None \<Rightarrow> [] | Some s \<Rightarrow> s)"

text \<open>\<open>s\<close> is the formatted text, as \<open>vsnprintf\<close> would print it without a limit.\<close>

definition log_event :: "u8 list \<Rightarrow> pg_event_t" where
  "log_event s = (blank_event PG_EV_LOG)\<lparr>ev_text := cfield PG_EVENT_TEXT_LEN s\<rparr>"

definition text_event :: "pg_event_kind_t \<Rightarrow> cstring \<Rightarrow> pg_event_t" where
  "text_event k s = (blank_event k)\<lparr>ev_text := cfield PG_EVENT_TEXT_LEN (or_empty s)\<rparr>"

definition kv_event :: "pg_event_kind_t \<Rightarrow> cstring \<Rightarrow> i64 \<Rightarrow> pg_event_t" where
  "kv_event k key v =
     (blank_event k)\<lparr>ev_num := v, ev_key := cfield PG_EVENT_KEY_LEN (or_empty key)\<rparr>"

definition pg_logf :: "ctx_ptr \<Rightarrow> u8 list \<Rightarrow> child \<Rightarrow> child option" where
  "pg_logf p s c = pg_emit p (Some (log_event s)) c"

definition pg_phase :: "ctx_ptr \<Rightarrow> cstring \<Rightarrow> child \<Rightarrow> child option" where
  "pg_phase p name c = pg_emit p (Some (text_event PG_EV_PHASE name)) c"

definition emit_kv :: "ctx_ptr \<Rightarrow> pg_event_kind_t \<Rightarrow> cstring \<Rightarrow> i64 \<Rightarrow> child \<Rightarrow> child option" where
  "emit_kv p k key v c = pg_emit p (Some (kv_event k key v)) c"

definition pg_count :: "ctx_ptr \<Rightarrow> cstring \<Rightarrow> i64 \<Rightarrow> child \<Rightarrow> child option" where
  "pg_count p k v c = emit_kv p PG_EV_COUNTER k v c"

definition pg_gauge :: "ctx_ptr \<Rightarrow> cstring \<Rightarrow> i64 \<Rightarrow> child \<Rightarrow> child option" where
  "pg_gauge p k v c = emit_kv p PG_EV_GAUGE k v c"

definition pg_expect :: "ctx_ptr \<Rightarrow> cstring \<Rightarrow> i64 \<Rightarrow> child \<Rightarrow> child option" where
  "pg_expect p k v c = emit_kv p PG_EV_EXPECT k v c"

definition pg_actual :: "ctx_ptr \<Rightarrow> cstring \<Rightarrow> i64 \<Rightarrow> child \<Rightarrow> child option" where
  "pg_actual p k v c = emit_kv p PG_EV_ACTUAL k v c"

definition pg_sut_fault :: "ctx_ptr \<Rightarrow> cstring \<Rightarrow> child \<Rightarrow> child option" where
  "pg_sut_fault p what c = pg_emit p (Some (text_event PG_EV_SUT_FAULT what)) c"

definition pg_watchdog :: "ctx_ptr \<Rightarrow> cstring \<Rightarrow> child \<Rightarrow> child option" where
  "pg_watchdog p what c = pg_emit p (Some (text_event PG_EV_WATCHDOG what)) c"

definition pg_done :: "ctx_ptr \<Rightarrow> child \<Rightarrow> child option" where
  "pg_done p c = pg_emit p (Some (blank_event PG_EV_DONE)) c"

text \<open>A sequence of emits, as a scenario makes them.\<close>

fun emit_all :: "ctx_ptr \<Rightarrow> pg_event_t list \<Rightarrow> child \<Rightarrow> child option" where
  "emit_all p [] c = Some c"
| "emit_all p (ev # evs) c =
     (case pg_emit p (Some ev) c of None \<Rightarrow> None | Some c \<Rightarrow> emit_all p evs c)"

section \<open>Several threads emitting at the same time\<close>

text \<open>
  A thread inside the loop of \<open>pg_emit\<close>, with its copy and its offset, or back from it. In
  every step one thread runs one turn of its loop; \<open>promise asked a\<close> says which answers the
  kernel may give to a request for \<open>asked\<close> bytes.
\<close>

datatype emitter = InLoop "u8 list" nat | Back

inductive race_step ::
    "(nat \<Rightarrow> answer \<Rightarrow> bool) \<Rightarrow> u8 list \<times> emitter list \<Rightarrow> u8 list \<times> emitter list \<Rightarrow> bool"
  for promise
where
  turn: "i < length ts \<Longrightarrow> ts ! i = InLoop buf off \<Longrightarrow> off < length buf
    \<Longrightarrow> promise (length buf - off) a \<Longrightarrow> emit_body buf off a = (w, Again off')
    \<Longrightarrow> race_step promise (out, ts) (out @ w, ts[i := InLoop buf off'])"
| give_up: "i < length ts \<Longrightarrow> ts ! i = InLoop buf off \<Longrightarrow> off < length buf
    \<Longrightarrow> promise (length buf - off) a \<Longrightarrow> emit_body buf off a = (w, Leave)
    \<Longrightarrow> race_step promise (out, ts) (out @ w, ts[i := Back])"
| leave: "i < length ts \<Longrightarrow> ts ! i = InLoop buf off \<Longrightarrow> \<not> off < length buf
    \<Longrightarrow> race_step promise (out, ts) (out, ts[i := Back])"

text \<open>
  POSIX on pipes: a request of at most \<open>PIPE_BUF\<close> bytes is taken as a whole or not at all.
\<close>

definition pipe_buf_atomic :: "nat \<Rightarrow> answer \<Rightarrow> bool" where
  "pipe_buf_atomic asked a = (case a of Moves k \<Rightarrow> asked \<le> k | Fails e \<Rightarrow> True)"

text \<open>A kernel that may split any transfer.\<close>

definition any_answer :: "nat \<Rightarrow> answer \<Rightarrow> bool" where
  "any_answer asked a = True"


section \<open>Lemmas\<close>

definition hard :: "answer \<Rightarrow> bool" where
  "hard a = (case a of Moves k \<Rightarrow> False | Fails e \<Rightarrow> e \<noteq> EINTR)"

text \<open>The bytes the kernel is ready to take with one answer.\<close>

definition gives :: "answer \<Rightarrow> nat" where
  "gives a = (case a of Moves k \<Rightarrow> k | Fails e \<Rightarrow> 0)"

lemma answer_simps [simp]:
  "hard (Moves k) = False" "hard (Fails e) = (e \<noteq> EINTR)"
  "gives (Moves k) = k" "gives (Fails e) = 0"
  by (simp_all add: hard_def gives_def)

lemma emit_loop_done: "\<not> off < length buf \<Longrightarrow> emit_loop buf off ans = ([], Complete, ans)"
  by (simp add: emit_loop.simps)

lemma emit_loop_nil: "off < length buf \<Longrightarrow> emit_loop buf off [] = ([], Blocked, [])"
  by (simp add: emit_loop.simps)

lemma emit_loop_moves:
  "off < length buf \<Longrightarrow> emit_loop buf off (Moves k # ans) =
     (let w = min k (length buf - off);
          (w', e, r) = emit_loop buf (off + w) ans
      in (take w (drop off buf) @ w', e, r))"
  by (subst emit_loop.simps) (simp add: emit_body_def Let_def)

lemma emit_loop_fails:
  "off < length buf \<Longrightarrow> emit_loop buf off (Fails e # ans) =
     (if e = EINTR then emit_loop buf off ans else ([], Broken, ans))"
  by (subst emit_loop.simps) (simp add: emit_body_def Let_def split: prod.splits)

lemmas emit_loop_steps = emit_loop_done emit_loop_nil emit_loop_moves emit_loop_fails

text \<open>What the loop puts into the pipe, and which answers it uses up.\<close>

text \<open>
  What the answers \<open>used\<close> up to the end of the loop do: \<open>w\<close> is written, the loop is complete without
  a hard error, or broken off by one before the end.
\<close>

definition outcome :: "u8 list \<Rightarrow> nat \<Rightarrow> answer list \<Rightarrow> u8 list \<Rightarrow> emit_end \<Rightarrow> bool" where
  "outcome buf off used w e \<longleftrightarrow>
     w = take (length w) (drop off buf)
     \<and> (e = Complete \<longrightarrow> length w = length buf - off \<and> (\<forall>a \<in> set used. \<not> hard a))
     \<and> (e = Broken \<longrightarrow> length w < length buf - off \<and> (\<exists>a \<in> set used. hard a))"

lemma outcome_moves:
  assumes "outcome buf (off + n) used w e" and "off + n \<le> length buf"
  shows "outcome buf off (Moves k # used) (take n (drop off buf) @ w) e"
proof -
  have len: "length (take n (drop off buf) @ w) = n + length w" using assms(2) by simp
  have "take (length w) (drop n (drop off buf)) = w"
    using assms(1) by (simp add: outcome_def add.commute)
  then have "take n (drop off buf) @ w = take (n + length w) (drop off buf)" by (simp only: take_add)
  with assms show ?thesis unfolding outcome_def len by auto
qed

lemma outcome_eintr: "outcome buf off used w e \<Longrightarrow> outcome buf off (Fails EINTR # used) w e"
  by (simp add: outcome_def)

lemma emit_loop_outcome:
  assumes "emit_loop buf off ans = (w, e, r)" and "off \<le> length buf"
  shows "\<exists>used. ans = used @ r \<and> outcome buf off used w e"
  using assms
proof (induction ans arbitrary: off w)
  case Nil
  then show ?case
    by (cases "off < length buf") (auto simp: emit_loop_steps outcome_def)
next
  case (Cons a ans)
  show ?case
  proof (cases "off < length buf")
    case False
    with Cons.prems have "w = []" and "e = Complete" and "r = a # ans"
      by (auto simp: emit_loop_steps)
    with False show ?thesis by (intro exI [of _ "[]"]) (auto simp: outcome_def)
  next
    case True
    consider (moves) k where "a = Moves k" | (eintr) "a = Fails EINTR" | (fails) x where "a = Fails x" "x \<noteq> EINTR"
      by (metis answer.exhaust)
    then show ?thesis
    proof cases
      case (moves k)
      let ?n = "min k (length buf - off)"
      obtain w' where w': "emit_loop buf (off + ?n) ans = (w', e, r)" and w: "w = take ?n (drop off buf) @ w'"
        using Cons.prems(1) True moves by (auto simp: emit_loop_steps Let_def split: prod.splits)
      have le: "off + ?n \<le> length buf" using True by simp
      from Cons.IH [OF w' le] outcome_moves [OF _ le] show ?thesis
        unfolding w moves by (metis append_Cons)
    next
      case eintr
      with Cons.prems True have "emit_loop buf off ans = (w, e, r)" by (simp add: emit_loop_steps)
      from Cons.IH [OF this Cons.prems(2)] show ?thesis unfolding eintr by (metis append_Cons outcome_eintr)
    next
      case fails
      with Cons.prems True have "w = []" "e = Broken" "r = ans" by (auto simp: emit_loop_steps)
      with True fails show ?thesis by (intro exI [of _ "[a]"]) (auto simp: outcome_def)
    qed
  qed
qed

text \<open>When the answers have room for every byte left the loop ends.\<close>

lemma emit_loop_not_blocked:
  assumes "length buf - off \<le> sum_list (map gives ans)"
  shows "fst (snd (emit_loop buf off ans)) \<noteq> Blocked"
  using assms
proof (induction ans arbitrary: off)
  case Nil
  then show ?case by (simp add: emit_loop_steps)
next
  case (Cons a ans)
  show ?case
  proof (cases "off < length buf")
    case True
    show ?thesis
    proof (cases a)
      case (Moves k)
      have "length buf - (off + min k (length buf - off)) \<le> sum_list (map gives ans)"
        using Cons.prems True Moves by auto
      from Cons.IH [OF this] True Moves show ?thesis
        by (cases "emit_loop buf (off + min k (length buf - off)) ans")
          (simp add: emit_loop_steps Let_def)
    next
      case (Fails e)
      with Cons.prems have "length buf - off \<le> sum_list (map gives ans)"
        by simp
      from Cons.IH [OF this] True Fails show ?thesis
        by (simp add: emit_loop_steps)
    qed
  qed (simp add: emit_loop_steps)
qed

text \<open>
  A schedule of answers is fair to \<open>n\<close> bytes when it reports no error but \<open>EINTR\<close> and holds
  \<open>n\<close> answers that move something.
\<close>

definition fair_to :: "nat \<Rightarrow> answer list \<Rightarrow> bool" where
  "fair_to n ans \<longleftrightarrow>
     (\<forall>a \<in> set ans. \<not> hard a) \<and> n \<le> length (filter (\<lambda>a. 0 < gives a) ans)"

lemma emit_loop_thrift:
  "emit_loop buf off ans = (w, e, r) \<Longrightarrow>
     length (filter (\<lambda>a. 0 < gives a) ans) \<le> length w + length (filter (\<lambda>a. 0 < gives a) r)"
proof (induction ans arbitrary: off w)
  case Nil
  then show ?case by simp
next
  case (Cons a ans)
  show ?case
  proof (cases "off < length buf")
    case True
    show ?thesis
    proof (cases a)
      case (Moves k)
      obtain w' where "emit_loop buf (off + min k (length buf - off)) ans = (w', e, r)"
        and w: "w = take (min k (length buf - off)) (drop off buf) @ w'"
        using Cons.prems True Moves by (auto simp: emit_loop_steps Let_def split: prod.splits)
      from Cons.IH [OF this(1)] True Moves w show ?thesis by (cases k) auto
    next
      case (Fails x)
      with Cons True show ?thesis by (auto simp: emit_loop_steps split: if_splits)
    qed
  next
    case False
    with Cons.prems show ?thesis by (simp add: emit_loop_steps)
  qed
qed

lemma fair_room: "length (filter (\<lambda>a. 0 < gives a) ans) \<le> sum_list (map gives ans)"
  by (induction ans) auto

lemma stamp_fields:
  "stamp ev c = (copy, c') \<Longrightarrow>
     ev_magic copy = PG_EVENT_MAGIC \<and> ev_version copy = PG_EVENT_VERSION \<and> ev_kind copy = ev_kind ev
     \<and> ev_num copy = ev_num ev \<and> ev_key copy = ev_key ev \<and> ev_text copy = ev_text ev
     \<and> pipe_bytes c' = pipe_bytes c \<and> answers c' = answers c \<and> ctx_obj c' = ctx_obj c
     \<and> g_runctx c' = g_runctx c \<and> g_child_event_fd c' = g_child_event_fd c \<and> g_clock c' = g_clock c"
  by (auto simp: stamp_def now_ns_def Let_def split: if_splits)

lemma stamp_wf: "stamp ev c = (copy, c') \<Longrightarrow> event_wf ev \<Longrightarrow> event_wf copy \<and> header_ok copy"
  using stamp_fields [of ev c copy c'] by (simp add: event_wf_def header_ok_def)

lemma blank_event_wf [simp]: "event_wf (blank_event k)"
  by (simp add: blank_event_def event_wf_def)

lemma helper_event_wf [simp]:
  "event_wf (log_event s)" "event_wf (text_event k t)" "event_wf (kv_event k key v)"
  by (simp_all add: log_event_def text_event_def kv_event_def event_wf_def blank_event_def
      length_cfield event_consts)

lemma helper_strings_ok [simp]:
  "strings_ok (blank_event k)" "strings_ok (log_event s)" "strings_ok (text_event k t)"
  "strings_ok (kv_event k key v)"
  by (simp_all add: strings_ok_def log_event_def text_event_def kv_event_def blank_event_def
      cfield_has_nul event_consts)

text \<open>The event pipe of this child is open through the context it was given.\<close>

definition pipe_ready :: "ctx_ptr \<Rightarrow> child \<Rightarrow> bool" where
  "pipe_ready p c \<longleftrightarrow> (p = TheCtx \<or> g_runctx c = TheCtx) \<and> 0 \<le> event_fd_w (ctx_obj c)"

lemma pg_emit_unready: "\<not> pipe_ready p c \<Longrightarrow> pg_emit p ev c = Some c"
  by (cases p; cases "g_runctx c") (auto simp: pg_emit_def pipe_ready_def split: option.splits)

lemma pg_emit_ready:
  assumes "pipe_ready p c" and "stamp ev c = (copy, c1)"
    and "emit_loop (encode_event copy) 0 (answers c) = (w, e, r)"
  shows "pg_emit p (Some ev) c =
    (if e = Blocked then None else Some (c1\<lparr>pipe_bytes := pipe_bytes c @ w, answers := r\<rparr>))"
  using assms stamp_fields [OF assms(2)]
  by (cases p; cases "g_runctx c") (auto simp: pg_emit_def pipe_ready_def Let_def)


section \<open>Concurrent emitters over an atomic pipe\<close>

text \<open>
  \<open>order\<close> lists the threads whose record is in the pipe, in the order of their writes.
\<close>

definition race_inv :: "pg_event_t list \<Rightarrow> nat list \<Rightarrow> u8 list \<times> emitter list \<Rightarrow> bool" where
  "race_inv es order st \<longleftrightarrow>
     length (snd st) = length es \<and> distinct order \<and> set order \<subseteq> {..<length es}
     \<and> fst st = concat (map (\<lambda>i. encode_event (es ! i)) order)
     \<and> (\<forall>i < length es. case snd st ! i of
           InLoop buf off \<Rightarrow> buf = encode_event (es ! i) \<and> off = (if i \<in> set order then length buf else 0)
         | Back \<Rightarrow> True)"

lemma emit_body_atomic:
  assumes "pipe_buf_atomic (length buf - off) a" and "emit_body buf off a = (w, Again off')"
    and "off \<le> length buf"
  shows "w = drop off buf \<and> off' = length buf \<or> w = [] \<and> off' = off"
  using assms by (auto simp: pipe_buf_atomic_def emit_body_def Let_def split: answer.splits if_splits)

lemma race_inv_back:
  assumes "race_inv es order (out, ts)"
  shows "race_inv es order (out, ts[i := Back])"
proof -
  have "ts[i := Back] ! j = Back \<or> ts[i := Back] ! j = ts ! j" for j
    by (metis list_update_beyond not_less nth_list_update_eq nth_list_update_neq)
  note or_same = this
  let ?ok = "\<lambda>j t. case t of
      InLoop buf off \<Rightarrow> buf = encode_event (es ! j) \<and> off = (if j \<in> set order then length buf else 0)
    | Back \<Rightarrow> True"
  have "?ok j (ts[i := Back] ! j)" if "j < length es" for j
    using or_same [of j]
  proof
    assume "ts[i := Back] ! j = ts ! j"
    with assms that show ?thesis by (simp add: race_inv_def)
  qed simp
  with assms show ?thesis by (simp add: race_inv_def)
qed

lemma race_step_inv:
  assumes "race_step pipe_buf_atomic st st'" and "race_inv es order st"
    and "\<forall>e \<in> set es. event_wf e"
  shows "\<exists>order'. race_inv es order' st'"
  using assms
proof (induction rule: race_step.induct)
  case (turn i ts buf off a w off' out)
  then have i: "i < length es" and buf: "buf = encode_event (es ! i)" and "i \<notin> set order" and "off = 0"
    by (auto simp: race_inv_def split: if_splits)
  consider "w = buf" "off' = length buf" | "w = []" "off' = 0"
    using emit_body_atomic [OF turn.hyps(4,5)] \<open>off = 0\<close> by auto
  then show ?case
  proof cases
    case 1
    with turn.prems i buf \<open>i \<notin> set order\<close>
    have "race_inv es (order @ [i]) (out @ w, ts[i := InLoop buf off'])"
      by (auto simp: race_inv_def nth_list_update split: emitter.splits)
    then show ?thesis by blast
  next
    case 2
    with turn.prems turn.hyps(2) i buf \<open>i \<notin> set order\<close>
    have "race_inv es order (out @ w, ts[i := InLoop buf off'])"
      by (auto simp: race_inv_def nth_list_update split: emitter.splits)
    then show ?thesis by blast
  qed
next
  case (give_up i ts buf off a w out)
  then have "w = []" by (auto simp: emit_body_def Let_def split: answer.splits if_splits)
  with give_up.prems have "race_inv es order (out @ w, ts[i := Back])"
    by (simp add: race_inv_back)
  then show ?case by blast
next
  case (leave i ts buf off out)
  then have "race_inv es order (out, ts[i := Back])"
    by (simp add: race_inv_back)
  then show ?case by blast
qed

text \<open>Well-formed records stay whole records at every moment of the race.\<close>

definition race_ok :: "pg_event_t list \<Rightarrow> u8 list \<times> emitter list \<Rightarrow> bool" where
  "race_ok es st \<longleftrightarrow> (\<forall>e \<in> set es. event_wf e) \<and> (\<exists>order. race_inv es order st)"

interpretation race: step_system "race_step pipe_buf_atomic" "race_ok es" for es
  by unfold_locales (auto simp: race_ok_def dest: race_step_inv)

text \<open>The records of \<open>es\<close>, each held by a thread that has not written yet.\<close>

definition all_emitting :: "pg_event_t list \<Rightarrow> u8 list \<times> emitter list" where
  "all_emitting es = ([], map (\<lambda>e. InLoop (encode_event e) 0) es)"

lemma race_inv_start: "race_inv es [] (all_emitting es)"
  by (simp add: race_inv_def all_emitting_def)

lemma race_inv_frames:
  assumes "race_inv es order (out, ts)" and "\<forall>e \<in> set es. event_wf e"
  shows "map decode_event (frames EVENT_SIZE out) = map (\<lambda>i. es ! i) order"
    and "length out = EVENT_SIZE * length order"
proof -
  let ?rs = "map (\<lambda>i. es ! i) order"
  have wf: "\<forall>e \<in> set ?rs. event_wf e"
    using assms by (auto simp: race_inv_def)
  have out: "out = concat (map encode_event ?rs) @ []"
    using assms(1) by (simp add: race_inv_def comp_def)
  have nil: "length ([] :: u8 list) < EVENT_SIZE" by (simp add: EVENT_SIZE_def)
  show "map decode_event (frames EVENT_SIZE out) = ?rs"
    unfolding out by (rule event.decode_frames [OF wf nil])
  have "length (concat (map encode_event rs)) = EVENT_SIZE * length rs"
    if "\<forall>e \<in> set rs. event_wf e" for rs
    using that by (induction rs) (simp_all add: length_encode_event)
  from this [OF wf] show "length out = EVENT_SIZE * length order"
    unfolding out by simp
qed


lemma pg_emit_all:
  assumes "pipe_ready p c" and "event_wf ev"
    and "\<forall>a \<in> set (answers c). \<not> hard a" and "EVENT_SIZE \<le> sum_list (map gives (answers c))"
  obtains c' used where "pg_emit p (Some ev) c = Some c'"
    and "pipe_bytes c' = pipe_bytes c @ encode_event (fst (stamp ev c))"
    and "answers c = used @ answers c'"
    and "c' = (snd (stamp ev c))\<lparr>pipe_bytes := pipe_bytes c', answers := answers c'\<rparr>"
proof -
  obtain copy c1 where st: "stamp ev c = (copy, c1)" by (cases "stamp ev c")
  have len: "length (encode_event copy) = EVENT_SIZE"
    using stamp_wf [OF st] assms(2) by (simp add: length_encode_event)
  obtain w e r where lp: "emit_loop (encode_event copy) 0 (answers c) = (w, e, r)"
    by (cases "emit_loop (encode_event copy) 0 (answers c)")
  from emit_loop_outcome [OF lp] obtain used where used: "answers c = used @ r"
      "w = take (length w) (encode_event copy)"
      "e = Complete \<longrightarrow> length w = length (encode_event copy)"
      "e = Broken \<longrightarrow> (\<exists>a \<in> set used. hard a)"
    by (auto simp: outcome_def)
  have "e \<noteq> Blocked"
    using emit_loop_not_blocked [of "encode_event copy" 0 "answers c"] assms(4) lp len by simp
  moreover have "e \<noteq> Broken" using used(1,4) assms(3) by auto
  ultimately have "e = Complete" by (cases e) auto
  with used have "w = encode_event copy" by simp
  with \<open>e \<noteq> Blocked\<close> pg_emit_ready [OF assms(1) st lp] st used(1) show ?thesis
    by (intro that) auto
qed

text \<open>What a reader sees of an event apart from the stamp.\<close>

definition same_payload :: "pg_event_t \<Rightarrow> pg_event_t \<Rightarrow> bool" where
  "same_payload ev copy \<longleftrightarrow> ev_kind copy = ev_kind ev \<and> ev_num copy = ev_num ev
     \<and> ev_key copy = ev_key ev \<and> ev_text copy = ev_text ev"

text \<open>The parts of a child that emitting leaves alone.\<close>

definition same_wiring :: "child \<Rightarrow> child \<Rightarrow> bool" where
  "same_wiring c c' \<longleftrightarrow> ctx_obj c' = ctx_obj c \<and> g_runctx c' = g_runctx c
     \<and> g_child_event_fd c' = g_child_event_fd c \<and> g_clock c' = g_clock c
     \<and> sig_handlers c' = sig_handlers c \<and> rlimit_cpu c' = rlimit_cpu c \<and> sys_log c' = sys_log c"

lemma same_wiring_refl [simp]: "same_wiring c c"
  by (simp add: same_wiring_def)

lemma same_wiring_trans [trans]: "same_wiring a b \<Longrightarrow> same_wiring b c \<Longrightarrow> same_wiring a c"
  by (simp add: same_wiring_def)

lemma same_wiring_ready: "same_wiring c c' \<Longrightarrow> pipe_ready p c' = pipe_ready p c"
  by (simp add: same_wiring_def pipe_ready_def)

lemma pg_emit_fair:
  assumes rdy: "pipe_ready p c" and wf: "event_wf ev" and fair: "fair_to (256 + n) (answers c)"
  obtains c' copy where "pg_emit p (Some ev) c = Some c'"
    and "pipe_bytes c' = pipe_bytes c @ encode_event copy" and "same_payload ev copy"
    and "event_wf copy" and "header_ok copy" and "same_wiring c c'" and "fair_to n (answers c')"
proof -
  obtain copy c1 where st: "stamp ev c = (copy, c1)" by (cases "stamp ev c")
  have len: "length (encode_event copy) = 256"
    using stamp_wf [OF st] wf by (simp add: length_encode_event EVENT_SIZE_def)
  obtain w e r where lp: "emit_loop (encode_event copy) 0 (answers c) = (w, e, r)"
    by (cases "emit_loop (encode_event copy) 0 (answers c)")
  from emit_loop_outcome [OF lp] obtain used where used: "answers c = used @ r"
      "w = take (length w) (encode_event copy)"
      "e = Complete \<longrightarrow> length w = length (encode_event copy)"
      "e = Broken \<longrightarrow> (\<exists>a \<in> set used. hard a)"
    by (auto simp: outcome_def)
  have "256 \<le> sum_list (map gives (answers c))"
    using fair fair_room [of "answers c"] by (simp add: fair_to_def)
  then have "e \<noteq> Blocked"
    using emit_loop_not_blocked [of "encode_event copy" 0 "answers c"] lp len by simp
  moreover have "e \<noteq> Broken" using used(1,4) fair by (auto simp: fair_to_def)
  ultimately have "e = Complete" by (cases e) auto
  with used len have w: "w = encode_event copy" by simp
  have "fair_to n r"
    using emit_loop_thrift [OF lp] fair used(1) len w by (auto simp: fair_to_def)
  moreover have "same_wiring c (c1\<lparr>pipe_bytes := pipe_bytes c @ w, answers := r\<rparr>)"
    using st by (auto simp: same_wiring_def stamp_def now_ns_def Let_def split: if_splits)
  ultimately show ?thesis
    using pg_emit_ready [OF rdy st lp] \<open>e \<noteq> Blocked\<close> w stamp_fields [OF st] stamp_wf [OF st wf]
    by (intro that [of _ copy]) (auto simp: same_payload_def)
qed

lemma emit_all_fair:
  assumes "pipe_ready p c" and "\<forall>ev \<in> set evs. event_wf ev"
    and "fair_to (256 * length evs + n) (answers c)"
  obtains c' copies where "emit_all p evs c = Some c'"
    and "pipe_bytes c' = pipe_bytes c @ concat (map encode_event copies)"
    and "list_all2 same_payload evs copies"
    and "\<forall>ev \<in> set copies. event_wf ev \<and> header_ok ev" and "same_wiring c c'"
    and "fair_to n (answers c')"
  using assms
proof (induction evs arbitrary: c thesis)
  case Nil
  from Nil.prems(1) [of c "[]"] Nil.prems show ?case by simp
next
  case (Cons ev evs)
  have "fair_to (256 + (256 * length evs + n)) (answers c)" using Cons.prems(4) by (simp add: ac_simps)
  from pg_emit_fair [OF Cons.prems(2) _ this, of ev] Cons.prems(3) obtain c1 copy where
    c1: "pg_emit p (Some ev) c = Some c1" "pipe_bytes c1 = pipe_bytes c @ encode_event copy"
      "same_payload ev copy" "event_wf copy" "header_ok copy" "same_wiring c c1"
      "fair_to (256 * length evs + n) (answers c1)"
    by auto
  have "pipe_ready p c1" using Cons.prems(2) same_wiring_ready [OF c1(6)] by simp
  from Cons.IH [OF _ this _ c1(7)] Cons.prems(3) obtain c2 copies where
    c2: "emit_all p evs c1 = Some c2"
      "pipe_bytes c2 = pipe_bytes c1 @ concat (map encode_event copies)"
      "list_all2 same_payload evs copies" "\<forall>ev \<in> set copies. event_wf ev \<and> header_ok ev"
      "same_wiring c1 c2" "fair_to n (answers c2)"
    by auto
  show ?case
    by (rule Cons.prems(1) [of c2 "copy # copies"])
      (use c1 c2 same_wiring_trans [OF c1(6) c2(5)] in auto)
qed

section \<open>Properties\<close>

text \<open>
  C6: emitting works through interruptions and split writes: when the kernel has room for the
  record and reports no other error than \<open>EINTR\<close>, \<open>pg_emit\<close> returns, and it has appended
  to the pipe exactly the 256 bytes of one record, whatever the sizes of the single transfers. The
  record is the event with the protocol's magic and version; a time stamp of zero is filled in
  with the clock reading less the start of the run, a thread tag of zero with the tag of the
  calling thread or, when that is zero, of the context, and both are left alone when they are set.
  Apart from the pipe, the kernel's answers used up and the clock reading, nothing in the child
  changes. A \<open>NULL\<close> context means the active one.
\<close>

theorem pg_emit_delivers:
  assumes "p = TheCtx \<or> g_runctx c = TheCtx" and "0 \<le> event_fd_w (ctx_obj c)" and "event_wf ev"
    and "\<forall>a \<in> set (answers c). \<not> hard a" and "EVENT_SIZE \<le> sum_list (map gives (answers c))"
    and sent: "sent = ev\<lparr>ev_magic := 0xE5E7, ev_version := 1,
      ev_ts_ns := (if ev_ts_ns ev \<noteq> 0 then ev_ts_ns ev
        else tv_sec (mono c (tick c)) * 1000000000 + tv_nsec (mono c (tick c)) - ctx_start_ns (ctx_obj c)),
      ev_thread_tag := (if ev_thread_tag ev \<noteq> 0 then ev_thread_tag ev
        else if g_thread_tag c \<noteq> 0 then g_thread_tag c else ctx_thread_tag (ctx_obj c))\<rparr>"
  shows "length (encode_event sent) = 256
    \<and> (\<exists>used rest. answers c = used @ rest
        \<and> pg_emit p (Some ev) c = Some (c\<lparr>pipe_bytes := pipe_bytes c @ encode_event sent,
            answers := rest, tick := tick c + (if ev_ts_ns ev = 0 then 1 else 0)\<rparr>))"
proof -
  obtain copy c1 where st: "stamp ev c = (copy, c1)" by (cases "stamp ev c")
  have copy: "copy = sent" and c1: "c1 = c\<lparr>tick := tick c + (if ev_ts_ns ev = 0 then 1 else 0)\<rparr>"
    using st by (auto simp: stamp_def now_ns_def Let_def sent PG_EVENT_MAGIC_def PG_EVENT_VERSION_def
        split: if_splits)
  have "pipe_ready p c" using assms(1,2) by (simp add: pipe_ready_def)
  from pg_emit_all [OF this assms(3-5)] obtain c' used where e: "pg_emit p (Some ev) c = Some c'"
      "pipe_bytes c' = pipe_bytes c @ encode_event copy" "answers c = used @ answers c'"
      "c' = c1\<lparr>pipe_bytes := pipe_bytes c', answers := answers c'\<rparr>"
    using st by auto
  have "c1\<lparr>pipe_bytes := w, answers := r\<rparr> = c\<lparr>pipe_bytes := w, answers := r,
      tick := tick c + (if ev_ts_ns ev = 0 then 1 else 0)\<rparr>" for w r
    by (simp add: c1)
  from this [of "answers c'" "pipe_bytes c'"] e(2,4) copy
  have "c' = c\<lparr>pipe_bytes := pipe_bytes c @ encode_event sent,
      answers := answers c', tick := tick c + (if ev_ts_ns ev = 0 then 1 else 0)\<rparr>" by metis
  with e(1,3) stamp_wf [OF st assms(3)] length_encode_event [of copy] show ?thesis
    by (intro conjI exI [of _ used] exI [of _ "answers c'"]) (simp_all add: copy EVENT_SIZE_def)
qed

definition demo_child :: "answer list \<Rightarrow> child" where
  "demo_child ans = \<lparr>ctx_obj = \<lparr>event_fd_w = 4, ctx_seed = 42, ctx_rng = pg_xosh_seed 42,
       ctx_thread_tag = 0, ctx_start_ns = 1000\<rparr>,
     g_runctx = TheCtx, g_thread_tag = 0, g_next_thread_tag = 1, g_child_event_fd = 4,
     g_clock = init_clock, pipe_bytes = [], answers = ans,
     mono = (\<lambda>n. timespec_of_ns (1000 + of_nat n)), tick = 0, sig_handlers = [], rlimit_cpu = None, sys_log = []\<rparr>"

lemma log_event_unstamped [simp]: "ev_ts_ns (log_event s) = 0" "ev_thread_tag (log_event s) = 0"
  by (simp_all add: log_event_def blank_event_def)

theorem pg_emit_delivers_witness:
  "\<exists>rest. pg_emit NullCtx (Some (log_event (bytes ''hello'')))
        (demo_child [Moves 100, Fails EINTR, Moves 200])
      = Some ((demo_child [Moves 100, Fails EINTR, Moves 200])\<lparr>
          pipe_bytes := encode_event ((log_event (bytes ''hello''))\<lparr>ev_magic := 0xE5E7,
            ev_version := 1, ev_ts_ns := 0, ev_thread_tag := 0\<rparr>), answers := rest, tick := 1\<rparr>)"
proof -
  let ?c = "demo_child [Moves 100, Fails EINTR, Moves 200]"
  have clock: "tv_sec (mono ?c (tick ?c)) * 1000000000 + tv_nsec (mono ?c (tick ?c)) - ctx_start_ns (ctx_obj ?c) = 0"
    and tags: "g_thread_tag ?c = 0" "ctx_thread_tag (ctx_obj ?c) = 0" "pipe_bytes ?c = []" "tick ?c = 0"
    by (simp_all add: demo_child_def timespec_of_ns_def)
  have "NullCtx = TheCtx \<or> g_runctx ?c = TheCtx" "0 \<le> event_fd_w (ctx_obj ?c)"
    "\<forall>a \<in> set (answers ?c). \<not> hard a" "EVENT_SIZE \<le> sum_list (map gives (answers ?c))"
    by (simp_all add: demo_child_def EVENT_SIZE_def)
  from pg_emit_delivers [OF this(1,2) _ this(3,4) refl, of "log_event (bytes ''hello'')"] clock tags
  show ?thesis by auto
qed

text \<open>
  what a child leaves in the pipe is never anything but a prefix of the record. Whenever
  \<open>pg_emit\<close> returns, it has written the first bytes of the stamped event, all of them
  exactly when no write failed with an error other than \<open>EINTR\<close>. A torn record is
  therefore always the sign of such a failure.
\<close>

theorem pg_emit_prefix:
  assumes "p = TheCtx \<or> g_runctx c = TheCtx" and "0 \<le> event_fd_w (ctx_obj c)" and "event_wf ev"
    and "pg_emit p (Some ev) c = Some c'"
  shows "\<exists>n used. n \<le> EVENT_SIZE
    \<and> pipe_bytes c' = pipe_bytes c @ take n (encode_event (fst (stamp ev c)))
    \<and> answers c = used @ answers c' \<and> (n = EVENT_SIZE \<longleftrightarrow> (\<forall>a \<in> set used. \<not> hard a))"
proof -
  obtain copy c1 where st: "stamp ev c = (copy, c1)" by (cases "stamp ev c")
  have len: "length (encode_event copy) = EVENT_SIZE"
    using stamp_wf [OF st] assms(3) by (simp add: length_encode_event)
  obtain w e r where lp: "emit_loop (encode_event copy) 0 (answers c) = (w, e, r)"
    by (cases "emit_loop (encode_event copy) 0 (answers c)")
  have "pipe_ready p c" using assms(1,2) by (simp add: pipe_ready_def)
  from pg_emit_ready [OF this st lp] assms(4) have e: "e \<noteq> Blocked"
    and c': "c' = c1\<lparr>pipe_bytes := pipe_bytes c @ w, answers := r\<rparr>"
    by (auto split: if_splits)
  from emit_loop_outcome [OF lp] obtain used where "answers c = used @ r"
      "w = take (length w) (encode_event copy)"
      "e = Complete \<longrightarrow> length w = EVENT_SIZE \<and> (\<forall>a \<in> set used. \<not> hard a)"
      "e = Broken \<longrightarrow> length w < EVENT_SIZE \<and> (\<exists>a \<in> set used. hard a)"
    using len by (auto simp: outcome_def)
  with e c' st show ?thesis
    by (cases e) (auto intro!: exI [of _ "length w"] exI [of _ used])
qed

theorem pg_emit_prefix_witness:
  "\<exists>c'. pg_emit TheCtx (Some (blank_event PG_EV_DONE)) (demo_child [Moves 100, Fails EPIPE]) = Some c'
    \<and> length (pipe_bytes c') < EVENT_SIZE"
proof -
  let ?c = "demo_child [Moves 100, Fails EPIPE]"
  obtain copy c1 where st: "stamp (blank_event PG_EV_DONE) ?c = (copy, c1)"
    by (cases "stamp (blank_event PG_EV_DONE) ?c")
  have len: "length (encode_event copy) = 256"
    using stamp_wf [OF st] by (simp add: length_encode_event EVENT_SIZE_def)
  have rdy: "pipe_ready TheCtx ?c" by (simp add: pipe_ready_def demo_child_def)
  have "emit_loop (encode_event copy) 0 (answers ?c) = (take 100 (encode_event copy), Broken, [])"
    using len by (simp add: demo_child_def emit_loop_steps)
  from pg_emit_ready [OF rdy st this] obtain c' where
    c': "pg_emit TheCtx (Some (blank_event PG_EV_DONE)) ?c = Some c'" "answers c' = []"
    by auto
  from pg_emit_prefix [OF _ _ _ c'(1)] obtain n where
    "n \<le> EVENT_SIZE" "pipe_bytes c' = take n (encode_event copy)" "n \<noteq> EVENT_SIZE"
    using c'(2) st by (auto simp: demo_child_def)
  with c' show ?thesis by auto
qed

text \<open>
  C13: records of different threads never interleave. However the turns of any number of threads
  emitting at the same time are scheduled, over a pipe that takes a request of at most
  \<open>PIPE_BUF\<close> bytes as a whole or not at all, the pipe holds at every moment whole records
  of distinct threads one behind the other, and the frames of the stream decode to exactly them.
\<close>

theorem emit_race_whole_records:
  assumes "\<forall>e \<in> set es. event_wf e"
    and "(race_step pipe_buf_atomic)\<^sup>*\<^sup>* (all_emitting es) (out, ts)"
  shows "\<exists>order. distinct order \<and> set order \<subseteq> {..<length es}
    \<and> length out = EVENT_SIZE * length order
    \<and> map decode_event (frames EVENT_SIZE out) = map (\<lambda>i. es ! i) order"
proof -
  have "race_ok es (all_emitting es)" unfolding race_ok_def using race_inv_start assms(1) by blast
  from race.inv_reaches [OF assms(2) this] obtain order where inv: "race_inv es order (out, ts)"
    unfolding race_ok_def by blast
  with race_inv_frames [OF inv assms(1)] show ?thesis
    by (intro exI [of _ order]) (simp add: race_inv_def)
qed

theorem emit_race_whole_records_witness:
  "\<exists>order. distinct order \<and> set order \<subseteq> {..<length [0, 1 :: nat]}
    \<and> length (encode_event (log_event (bytes ''b''))) = EVENT_SIZE * length order"
proof -
  let ?a = "log_event (bytes ''a'')" and ?b = "log_event (bytes ''b'')"
  let ?B = "encode_event ?b"
  have len: "length ?B = 256" by (simp add: length_encode_event EVENT_SIZE_def)
  have step: "race_step pipe_buf_atomic (all_emitting [?a, ?b])
      (?B, [InLoop (encode_event ?a) 0, InLoop ?B 256])"
    using race_step.turn [of 1 "[InLoop (encode_event ?a) 0, InLoop ?B 0]" ?B 0 pipe_buf_atomic
        "Moves 4096" ?B 256 "[]"] len
    by (simp add: all_emitting_def pipe_buf_atomic_def emit_body_def)
  have steps: "(race_step pipe_buf_atomic)\<^sup>*\<^sup>* (all_emitting [?a, ?b])
      (?B, [InLoop (encode_event ?a) 0, InLoop ?B 256])"
    using step by simp
  show ?thesis
    using emit_race_whole_records [OF _ steps] by auto
qed

text \<open>
  the key-value helpers carry their arguments to the reader: every record they build has both
  strings terminated inside their arrays, the kind they name, the value, and a key that reads
  back as the first 31 bytes of the caller's; the text helpers likewise with 191 bytes. \<open>NULL\<close>
  reads back as the empty string.
\<close>

theorem helper_events_read_back:
  assumes "0 \<notin> set (or_empty key)"
  shows "cstr (ev_key (kv_event k key v)) = Some (take 31 (or_empty key))
    \<and> cstr (ev_text (text_event k key)) = Some (take 191 (or_empty key))
    \<and> kind_of (ev_kind (kv_event k key v)) = Some k \<and> kind_of (ev_kind (text_event k key)) = Some k
    \<and> ev_num (kv_event k key v) = v
    \<and> strings_ok (kv_event k key v) \<and> strings_ok (text_event k key)"
proof -
  have "strings_ok (kv_event k key v) \<and> strings_ok (text_event k key)" by simp
  with assms show ?thesis
    by (simp add: kv_event_def text_event_def blank_event_def cstr_cfield event_consts)
qed

theorem helper_events_read_back_witness:
  "cstr (ev_key (kv_event PG_EV_COUNTER (Some (bytes ''ops'')) 3)) = Some (bytes ''ops'')"
  using helper_events_read_back [of "Some (bytes ''ops'')" PG_EV_COUNTER 3]
  by (simp add: or_empty_def bytes_def)

end
