(* ===== verification/Registry.thy ===== *)
theory Registry
  imports Emit
begin

text \<open>
  The plug-in contract of \<open>include/playground/scenario.h\<close> and the registry of
  \<open>src/core/registry.c\<close>. A scenario is a record of strings and callbacks; a callback is a
  function on the state of the child, which may return a value, end with a signal, call
  \<open>_exit\<close>, or (\<open>None\<close>) not come back at all. The locale \<open>catalogue\<close> is what the clients
  of the registry rely on: entries keep their order of registration, and a lookup finds the first
  one of its name.
\<close>

section \<open>Scenarios\<close>

datatype 'a outcome = Returns 'a | DiesOf signal | Exits int

type_synonym 'a call = "child \<Rightarrow> (child \<times> 'a outcome) option"

record 's pg_scenario_t =
  sc_id :: string
  sc_title :: string
  sc_one_liner :: string
  sc_description :: string
  sc_expected :: string
  sc_lesson :: "string option"
  sc_category :: pg_category_t
  sc_init :: "(int \<times> 's option) call option"
  sc_run :: "'s option \<Rightarrow> int call"
  sc_teardown :: "('s option \<Rightarrow> unit call) option"
  sc_explain :: "('s option \<Rightarrow> unit call) option"

section \<open>The registry\<close>

definition PG_REG_MAX :: nat where "PG_REG_MAX = 256"

text \<open>\<open>g_reg\<close> and \<open>g_reg_n\<close>: the used part of the array.\<close>

type_synonym 's registry = "'s pg_scenario_t list"

definition pg_registry_add :: "'s pg_scenario_t option \<Rightarrow> 's registry \<Rightarrow> 's registry" where
  "pg_registry_add s g_reg =
     (case s of
        None \<Rightarrow> g_reg
      | Some s \<Rightarrow> if length g_reg < PG_REG_MAX then g_reg @ [s] else g_reg)"

definition pg_registry_list :: "'s registry \<Rightarrow> nat \<times> 's pg_scenario_t list" where
  "pg_registry_list g_reg = (length g_reg, g_reg)"

fun find_from :: "string \<Rightarrow> 's registry \<Rightarrow> nat \<Rightarrow> 's pg_scenario_t option" where
  "find_from name [] i = None"
| "find_from name (s # ss) i = (if sc_id s = name then Some s else find_from name ss (Suc i))"

definition pg_registry_find :: "string option \<Rightarrow> 's registry \<Rightarrow> 's pg_scenario_t option" where
  "pg_registry_find name g_reg =
     (case name of None \<Rightarrow> None | Some name \<Rightarrow> find_from name g_reg 0)"

text \<open>
  What \<open>PG_SCENARIO_REGISTER\<close> makes of a program: the constructors add the scenarios of the
  linked translation units before \<open>main\<close>, in an order the linker chooses.
\<close>

definition run_constructors :: "'s pg_scenario_t list \<Rightarrow> 's registry" where
  "run_constructors ss = foldl (\<lambda>g s. pg_registry_add (Some s) g) [] ss"

section \<open>Interface of a catalogue\<close>

locale catalogue =
  fixes add :: "'x \<Rightarrow> 'c \<Rightarrow> 'c"
    and entries :: "'c \<Rightarrow> 'x list"
    and lookup :: "'k \<Rightarrow> 'c \<Rightarrow> 'x option"
    and key :: "'x \<Rightarrow> 'k"
    and cap :: nat
    and empty :: 'c
    and inv :: "'c \<Rightarrow> bool"
  assumes entries_empty: "entries empty = []"
    and inv_empty: "inv empty"
    and inv_add: "inv c \<Longrightarrow> inv (add x c)"
    and entries_cap: "inv c \<Longrightarrow> length (entries c) \<le> cap"
    and entries_add: "entries (add x c) = (if length (entries c) < cap then entries c @ [x] else entries c)"
    and lookup_spec: "lookup k c = find (\<lambda>x. key x = k) (entries c)"
begin

lemma entries_fold:
  "inv c \<Longrightarrow> entries (foldl (\<lambda>c x. add x c) c xs) = take cap (entries c @ xs)"
proof (induction xs arbitrary: c)
  case Nil
  then show ?case using entries_cap by simp
next
  case (Cons x xs)
  have "entries (foldl (\<lambda>c x. add x c) (add x c) xs) = take cap (entries (add x c) @ xs)"
    by (rule Cons.IH [OF inv_add [OF Cons.prems]])
  also have "\<dots> = take cap (entries c @ x # xs)"
    using entries_cap [OF Cons.prems] by (auto simp: entries_add Suc_diff_Suc take_Cons')
  finally show ?case by simp
qed

lemma entries_built: "entries (foldl (\<lambda>c x. add x c) empty xs) = take cap xs"
  using entries_fold [OF inv_empty] by (simp add: entries_empty)

lemma lookup_built:
  assumes "i < length xs" and "i < cap" and "\<forall>j < i. key (xs ! j) \<noteq> key (xs ! i)"
  shows "lookup (key (xs ! i)) (foldl (\<lambda>c x. add x c) empty xs) = Some (xs ! i)"
  using assms by (auto simp: lookup_spec entries_built find_Some_iff intro!: exI [of _ i])

lemma lookup_none:
  assumes "length xs \<le> cap"
  shows "lookup k (foldl (\<lambda>c x. add x c) empty xs) = None \<longleftrightarrow> k \<notin> key ` set xs"
  using assms by (auto simp: lookup_spec entries_built find_None_iff)

end

lemma find_from_find: "find_from name ss i = find (\<lambda>s. sc_id s = name) ss"
  by (induction ss arbitrary: i) simp_all

definition registry_ok :: "'s registry \<Rightarrow> bool" where
  "registry_ok g \<longleftrightarrow> length g \<le> PG_REG_MAX"

interpretation reg: catalogue
  "\<lambda>s. pg_registry_add (Some s)" "\<lambda>g. snd (pg_registry_list g)"
  "\<lambda>k. pg_registry_find (Some k)" sc_id PG_REG_MAX "[]" registry_ok
  by unfold_locales
    (auto simp: pg_registry_list_def pg_registry_add_def pg_registry_find_def find_from_find
      registry_ok_def)

section \<open>Properties\<close>

text \<open>
  every scenario linked into the program, up to the 256 the table has room for, is listed once
  in the order of registration, and asking for its name finds it, or the earlier one of the same
  name. Nothing else is ever found, and a full table drops what comes later without touching
  what it holds.
\<close>

theorem registry_serves_what_was_added:
  assumes "i < length ss" and "i < 256" and "\<forall>j < i. sc_id (ss ! j) \<noteq> sc_id (ss ! i)"
  shows "pg_registry_list (run_constructors ss) = (min 256 (length ss), take 256 ss)
    \<and> pg_registry_find (Some (sc_id (ss ! i))) (run_constructors ss) = Some (ss ! i)
    \<and> (length ss \<le> 256 \<longrightarrow>
         (pg_registry_find (Some name) (run_constructors ss) = None \<longleftrightarrow> name \<notin> sc_id ` set ss))"
proof -
  have "run_constructors ss = take 256 ss"
    using reg.entries_built [of ss]
    by (simp add: run_constructors_def pg_registry_list_def PG_REG_MAX_def)
  moreover have "pg_registry_find (Some (sc_id (ss ! i))) (run_constructors ss) = Some (ss ! i)"
    using reg.lookup_built [of i ss] assms by (simp add: run_constructors_def PG_REG_MAX_def)
  moreover have "length ss \<le> 256 \<longrightarrow>
      (pg_registry_find (Some name) (run_constructors ss) = None \<longleftrightarrow> name \<notin> sc_id ` set ss)"
    using reg.lookup_none [of ss name] by (simp add: run_constructors_def PG_REG_MAX_def)
  ultimately show ?thesis by (simp add: pg_registry_list_def)
qed

definition demo_scenario :: "string \<Rightarrow> unit pg_scenario_t" where
  "demo_scenario name = \<lparr>sc_id = name, sc_title = name, sc_one_liner = [], sc_description = [],
     sc_expected = [], sc_lesson = None, sc_category = PG_CAT_MEMORY, sc_init = None,
     sc_run = (\<lambda>st c. Some (c, Returns 0)), sc_teardown = None, sc_explain = None\<rparr>"

theorem registry_serves_what_was_added_witness:
  "pg_registry_find (Some ''b'') (run_constructors [demo_scenario ''a'', demo_scenario ''b''])
    = Some (demo_scenario ''b'')"
  using registry_serves_what_was_added [of 1 "[demo_scenario ''a'', demo_scenario ''b'']"]
  by (simp add: demo_scenario_def)

end
