(* ===== verification/Runner.thy ===== *)
theory Runner
  imports Registry "HOL-Library.Monad_Syntax"
begin

text \<open>
  The process boundary of \<open>src/core/runner.c\<close>: what the forked child does around a scenario
  (\<open>child_main\<close>, the fault handler included), and the parent's \<open>pg_run_start\<close>,
  \<open>pg_run_poll\<close>, \<open>pg_run_abort\<close> and \<open>pg_run_reap\<close>. The reader's side of the pipe is
  the byte stream the child leaves, cut up by the kernel's answers in any way; since a reader
  waits for more bytes as long as a write end is open, a schedule of the two processes is
  nothing but such a cutting. \<open>drain\<close> is the loop all clients of \<open>pg_run_poll\<close> run.
\<close>

section \<open>The child\<close>

definition signal_name :: "signal \<Rightarrow> string" where
  "signal_name sig =
     (case sig of SIGSEGV \<Rightarrow> ''SIGSEGV'' | SIGBUS \<Rightarrow> ''SIGBUS'' | SIGABRT \<Rightarrow> ''SIGABRT''
      | SIGFPE \<Rightarrow> ''SIGFPE'' | SIGILL \<Rightarrow> ''SIGILL'' | _ \<Rightarrow> ''signal'')"

text \<open>The copying loops of the handler: \<open>text[i++] = *p\<close> as long as there is room.\<close>

fun hand_copy :: "u8 list \<Rightarrow> nat \<Rightarrow> u8 list \<Rightarrow> u8 list \<times> nat" where
  "hand_copy [] i text = (text, i)"
| "hand_copy (x # p) i text =
     (if i < PG_EVENT_TEXT_LEN - 1 then hand_copy p (Suc i) (text[i := x]) else (text, i))"

definition crash_event :: "signal \<Rightarrow> pg_event_t" where
  "crash_event sig =
     (let ev = (blank_event PG_EV_CHILD_CRASH)\<lparr>ev_magic := PG_EVENT_MAGIC, ev_version := PG_EVENT_VERSION\<rparr>;
          (text, i) = hand_copy (bytes ''child crashed: '') 0 (ev_text ev);
          (text, i) = hand_copy (bytes (signal_name sig)) i text
      in ev\<lparr>ev_text := text[i := 0]\<rparr>)"

text \<open>One \<open>write\<close>, whatever comes of it, then the default action of the signal.\<close>

definition child_fault_handler :: "signal \<Rightarrow> child \<Rightarrow> (child \<times> wait_status) option" where
  "child_fault_handler sig c =
     (if 0 \<le> g_child_event_fd c
      then (case answers c of
              [] \<Rightarrow> None
            | a # ans \<Rightarrow>
                Some (c\<lparr>pipe_bytes := pipe_bytes c @ fst (emit_body (encode_event (crash_event sig)) 0 a),
                        answers := ans\<rparr>, WSignaled sig))
      else Some (c, WSignaled sig))"

definition handled_signals :: "signal list" where
  "handled_signals = [SIGSEGV, SIGBUS, SIGABRT, SIGFPE, SIGILL]"

definition install_child_handlers :: "int \<Rightarrow> child \<Rightarrow> child" where
  "install_child_handlers event_fd c =
     c\<lparr>g_child_event_fd := event_fd, sig_handlers := handled_signals\<rparr>"

text \<open>A signal ends the process, through the handler where one is installed.\<close>

definition deliver :: "signal \<Rightarrow> child \<Rightarrow> (child \<times> wait_status) option" where
  "deliver sig c =
     (if sig \<in> set (sig_handlers c) then child_fault_handler sig c else Some (c, WSignaled sig))"

text \<open>\<open>env\<close> is the value of \<open>PG_CPU_LIMIT_SECONDS\<close>.\<close>

definition cpu_limit :: "string option \<Rightarrow> u64" where
  "cpu_limit env =
     (case env of
        None \<Rightarrow> 30
      | Some s \<Rightarrow> if s = [] then 30 else (let v = strtoull s 10 in if v > 0 then v else 30))"

text \<open>Everything the child does before the first callback.\<close>

definition child_setup :: "u64 \<Rightarrow> int \<Rightarrow> int \<Rightarrow> string option \<Rightarrow> child \<Rightarrow> child" where
  "child_setup seed rd wr env c =
     (let c = c\<lparr>sys_log := sys_log c @ [SysClose rd]\<rparr>;
          c = install_child_handlers wr c;
          (start, c) = now_ns c;
          c = c\<lparr>ctx_obj := \<lparr>event_fd_w = wr, ctx_seed = seed, ctx_rng = pg_xosh_seed seed,
                  ctx_thread_tag = 0, ctx_start_ns = start\<rparr>\<rparr>;
          c = c\<lparr>g_clock := chaos_clock_seed (seed XOR 0xC10CC10CC10CC10C) (g_clock c)\<rparr>;
          c = c\<lparr>g_runctx := TheCtx\<rparr>
      in c\<lparr>rlimit_cpu := Some (cpu_limit env)\<rparr>)"

text \<open>Continue with the value a callback returns, or end as it ends the process.\<close>

definition after ::
    "'a outcome \<Rightarrow> child \<Rightarrow> ('a \<Rightarrow> child \<Rightarrow> (child \<times> wait_status) option) \<Rightarrow> (child \<times> wait_status) option"
where
  "after r c k =
     (case r of Returns x \<Rightarrow> k x c | DiesOf sig \<Rightarrow> deliver sig c | Exits n \<Rightarrow> Some (c, WExited n))"

definition call_init :: "'s pg_scenario_t \<Rightarrow> (int \<times> 's option) call" where
  "call_init s c = (case sc_init s of None \<Rightarrow> Some (c, Returns (0, None)) | Some f \<Rightarrow> f c)"

definition call_teardown :: "'s pg_scenario_t \<Rightarrow> 's option \<Rightarrow> unit call" where
  "call_teardown s st c = (case sc_teardown s of None \<Rightarrow> Some (c, Returns ()) | Some f \<Rightarrow> f st c)"

definition child_body :: "'s pg_scenario_t \<Rightarrow> int \<Rightarrow> child \<Rightarrow> (child \<times> wait_status) option" where
  "child_body s wr c = do {
     (c, r) \<leftarrow> call_init s c;
     after r c (\<lambda>(rc, st) c. do {
       (c, r) \<leftarrow> (if rc = 0 then sc_run s st c else Some (c, Returns rc));
       after r c (\<lambda>rc c. do {
         (c, r) \<leftarrow> call_teardown s st c;
         after r c (\<lambda>_ c. do {
           c \<leftarrow> pg_done TheCtx c;
           Some (c\<lparr>sys_log := sys_log c @ [SysClose wr]\<rparr>, WExited (if rc = 0 then 0 else 1))
         })
       })
     })
   }"

definition child_main ::
    "'s pg_scenario_t \<Rightarrow> u64 \<Rightarrow> int \<Rightarrow> int \<Rightarrow> string option \<Rightarrow> child \<Rightarrow> (child \<times> wait_status) option"
where
  "child_main s seed rd wr env c = child_body s wr (child_setup seed rd wr env c)"

section \<open>The parent\<close>

record pg_run_handle_t =
  child_pid :: int
  event_fd :: int
  ctrl_fd :: int
  h_seed :: u64

text \<open>
  \<open>pipe_ans\<close> are the two descriptors of \<open>pipe\<close> or its failure, \<open>fork_ans\<close> what
  \<open>fork\<close> returns. The child's branch does not return.
\<close>

datatype 's started =
    Parent int "errno option" "pg_run_handle_t option" "sysact list"
  | InChild "child \<Rightarrow> (child \<times> wait_status) option"

definition pg_run_start ::
    "'s pg_scenario_t option \<Rightarrow> u64 \<Rightarrow> bool \<Rightarrow> string option \<Rightarrow> (int \<times> int) option \<Rightarrow> int \<Rightarrow> 's started"
where
  "pg_run_start s seed has_out env pipe_ans fork_ans =
     (case s of
        None \<Rightarrow> Parent (-1) (Some EINVAL) None []
      | Some s \<Rightarrow>
          if \<not> has_out then Parent (-1) (Some EINVAL) None []
          else
            (case pipe_ans of
               None \<Rightarrow> Parent (-1) None None []
             | Some (rd, wr) \<Rightarrow>
                 let pid = fork_ans
                 in if pid < 0 then Parent (-1) None None [SysOpen rd, SysOpen wr, SysClose rd, SysClose wr]
                    else if pid = 0 then InChild (child_main s seed rd wr env)
                    else Parent 0 None
                           (Some \<lparr>child_pid = pid, event_fd = rd, ctrl_fd = -1, h_seed = seed\<rparr>)
                           [SysOpen rd, SysOpen wr, SysClose wr]))"

text \<open>
  A \<open>read\<close> of at most \<open>want\<close> bytes from the stream \<open>inp\<close> that the writers leave:
  nothing only at its end (\<open>Moves\<close> with an empty rest is end of file), otherwise at least one
  byte.
\<close>

definition read_count :: "nat \<Rightarrow> nat \<Rightarrow> u8 list \<Rightarrow> nat" where
  "read_count k want inp = min (max k 1) (min want (length inp))"

text \<open>
  The reading loop: the return value when the call ends in it or \<open>None\<close> when the record is
  complete, the bytes in \<open>ev_out\<close>, the rest of the stream and of the answers. The outer
  \<open>None\<close> is a call that is still waiting.
\<close>

fun poll_loop :: "u8 list \<Rightarrow> u8 list \<Rightarrow> answer list \<Rightarrow> (int option \<times> u8 list \<times> u8 list \<times> answer list) option"
where
  "poll_loop got inp ans =
     (if length got < EVENT_SIZE
      then (case ans of
              [] \<Rightarrow> None
            | Fails e # ans \<Rightarrow>
                if e = EINTR then poll_loop got inp ans else Some (Some (-1), got, inp, ans)
            | Moves k # ans \<Rightarrow>
                (let n = read_count k (EVENT_SIZE - length got) inp
                 in if n = 0 then Some (Some (if length got = 0 then 0 else -1), got, inp, ans)
                    else poll_loop (got @ take n inp) (drop n inp) ans))
      else Some (None, got, inp, ans))"

declare poll_loop.simps [simp del]

text \<open>\<open>poll_ans\<close> is what \<open>poll\<close> returns when it is called.\<close>

definition pg_run_poll ::
    "pg_run_handle_t option \<Rightarrow> bool \<Rightarrow> int \<Rightarrow> int \<Rightarrow> u8 list \<Rightarrow> answer list
      \<Rightarrow> (int \<times> u8 list \<times> u8 list \<times> answer list) option"
where
  "pg_run_poll h has_out timeout_ms poll_ans inp ans =
     (case h of
        None \<Rightarrow> Some (-1, [], inp, ans)
      | Some h \<Rightarrow>
          if event_fd h < 0 \<or> \<not> has_out then Some (-1, [], inp, ans)
          else if timeout_ms \<ge> 0 \<and> poll_ans = 0 then Some (-2, [], inp, ans)
          else if timeout_ms \<ge> 0 \<and> poll_ans < 0 then Some (-1, [], inp, ans)
          else do {
            (r, got, inp, ans) \<leftarrow> poll_loop [] inp ans;
            (case r of
               Some rc \<Rightarrow> Some (rc, got, inp, ans)
             | None \<Rightarrow>
                 if \<not> header_ok (decode_event got) then Some (-1, got, inp, ans)
                 else Some (1, got, inp, ans))
          })"

definition pg_run_abort :: "pg_run_handle_t option \<Rightarrow> sysact list" where
  "pg_run_abort h =
     (case h of
        None \<Rightarrow> []
      | Some h \<Rightarrow> if child_pid h \<le> 0 then [] else [SysKill (child_pid h) SIGTERM])"

datatype wait_answer = Reaped wait_status | WaitFails errno

fun wait_loop :: "wait_answer list \<Rightarrow> (errno + wait_status) option" where
  "wait_loop [] = None"
| "wait_loop (Reaped st # ws) = Some (Inr st)"
| "wait_loop (WaitFails e # ws) = (if e = EINTR then wait_loop ws else Some (Inl e))"

text \<open>Returns the code, the status stored through \<open>exit_status\<close>, the handle and the calls.\<close>

definition pg_run_reap ::
    "pg_run_handle_t option \<Rightarrow> wait_answer list
      \<Rightarrow> (int \<times> wait_status option \<times> pg_run_handle_t option \<times> sysact list) option"
where
  "pg_run_reap h ws =
     (case h of
        None \<Rightarrow> Some (-1, None, None, [])
      | Some h \<Rightarrow> do {
          w \<leftarrow> (if child_pid h > 0 then wait_loop ws else Some (Inr (WExited 0)));
          (case w of
             Inl e \<Rightarrow> Some (-1, None, Some h, [])
           | Inr st \<Rightarrow>
               (let (fd', acts) = (if event_fd h \<ge> 0 then (-1, [SysClose (event_fd h)]) else (event_fd h, []))
                in Some (0, Some st, Some (h\<lparr>event_fd := fd', child_pid := -1\<rparr>), acts)))
        })"

section \<open>The reading loop\<close>

lemma poll_loop_full: "EVENT_SIZE \<le> length got \<Longrightarrow> poll_loop got inp ans = Some (None, got, inp, ans)"
  by (simp add: poll_loop.simps)

lemma poll_loop_nil: "length got < EVENT_SIZE \<Longrightarrow> poll_loop got inp [] = None"
  by (simp add: poll_loop.simps)

lemma poll_loop_fails:
  "length got < EVENT_SIZE \<Longrightarrow> poll_loop got inp (Fails e # ans) =
     (if e = EINTR then poll_loop got inp ans else Some (Some (-1), got, inp, ans))"
  by (simp add: poll_loop.simps [of got inp "Fails e # ans"])

lemma poll_loop_moves:
  "length got < EVENT_SIZE \<Longrightarrow> poll_loop got inp (Moves k # ans) =
     (let n = read_count k (EVENT_SIZE - length got) inp
      in if n = 0 then Some (Some (if got = [] then 0 else -1), got, inp, ans)
         else poll_loop (got @ take n inp) (drop n inp) ans)"
  by (simp add: poll_loop.simps [of got inp "Moves k # ans"] Let_def)

lemmas poll_loop_steps = poll_loop_full poll_loop_nil poll_loop_fails poll_loop_moves

lemma read_count_bounds:
  "read_count k want inp \<le> want" "read_count k want inp \<le> length inp"
  "0 < want \<Longrightarrow> read_count k want inp = 0 \<longleftrightarrow> inp = []"
  by (auto simp: read_count_def min_def max_def)

text \<open>No byte is lost or invented, and a complete record has exactly its 256 bytes.\<close>

lemma poll_loop_conserves:
  assumes "poll_loop g inp ans = Some (r, got, inp', ans')" and "length g \<le> EVENT_SIZE"
  shows "got @ inp' = g @ inp \<and> (r = None \<longrightarrow> length got = EVENT_SIZE) \<and> (\<forall>rc. r = Some rc \<longrightarrow> rc \<le> 0)"
  using assms
proof (induction ans arbitrary: g inp)
  case Nil
  then show ?case by (cases "length g < EVENT_SIZE") (auto simp: poll_loop_steps)
next
  case (Cons a ans)
  show ?case
  proof (cases "length g < EVENT_SIZE")
    case False
    with Cons.prems show ?thesis by (auto simp: poll_loop_steps)
  next
    case True
    show ?thesis
    proof (cases a)
      case (Moves k)
      let ?n = "read_count k (EVENT_SIZE - length g) inp"
      show ?thesis
      proof (cases "?n = 0")
        case True
        with Cons.prems \<open>length g < EVENT_SIZE\<close> Moves show ?thesis
          by (auto simp: poll_loop_moves split: if_splits)
      next
        case False
        with Cons.prems True Moves
        have "poll_loop (g @ take ?n inp) (drop ?n inp) ans = Some (r, got, inp', ans')"
          by (simp add: poll_loop_moves Let_def)
        from Cons.IH [OF this] read_count_bounds(1) [of k "EVENT_SIZE - length g" inp]
        show ?thesis using True by simp
      qed
    next
      case (Fails e)
      with Cons True show ?thesis by (auto simp: poll_loop_fails split: if_splits)
    qed
  qed
qed

lemma poll_loop_ends:
  assumes "poll_loop g inp ans = Some (r, got, inp', ans')" and "length g \<le> EVENT_SIZE"
  shows "r = None \<and> length got = EVENT_SIZE
    \<or> length got < EVENT_SIZE \<and> (r = Some (-1) \<or> r = Some 0 \<and> got = [])"
  using assms
proof (induction ans arbitrary: g inp)
  case Nil
  then show ?case by (cases "length g < EVENT_SIZE") (auto simp: poll_loop_steps)
next
  case (Cons a ans)
  show ?case
  proof (cases "length g < EVENT_SIZE")
    case False
    with Cons.prems show ?thesis by (auto simp: poll_loop_steps)
  next
    case True
    show ?thesis
    proof (cases a)
      case (Moves k)
      let ?n = "read_count k (EVENT_SIZE - length g) inp"
      have "length (g @ take ?n inp) \<le> EVENT_SIZE"
        using True read_count_bounds(1) [of k "EVENT_SIZE - length g" inp] by simp
      with Cons True Moves show ?thesis
        by (cases "?n = 0") (auto simp: poll_loop_moves Let_def split: if_splits)
    next
      case (Fails e)
      with Cons True show ?thesis by (auto simp: poll_loop_fails split: if_splits)
    qed
  qed
qed

lemma poll_loop_record:
  assumes "length g + length x = EVENT_SIZE" and "fair_to (length x + m) ans"
  obtains ans' where "poll_loop g (x @ rest) ans = Some (None, g @ x, rest, ans')" and "fair_to m ans'"
  using assms
proof (induction ans arbitrary: g x thesis)
  case Nil
  then have "x = []" "m = 0" by (auto simp: fair_to_def)
  with Nil show ?case by (auto simp: poll_loop_steps fair_to_def)
next
  case (Cons a ans)
  show ?case
  proof (cases "x = []")
    case True
    with Cons.prems show ?thesis by (auto simp: poll_loop_steps)
  next
    case False
    then have lt: "length g < EVENT_SIZE" using Cons.prems(2) by (cases x) auto
    show ?thesis
    proof (cases a)
      case (Moves k)
      let ?n = "read_count k (EVENT_SIZE - length g) (x @ rest)"
      have n: "0 < ?n" "?n \<le> length x"
        using read_count_bounds(1) [of k "EVENT_SIZE - length g" "x @ rest"]
          read_count_bounds(3) [of "EVENT_SIZE - length g" k "x @ rest"] lt False Cons.prems(2)
        by auto
      have "fair_to (length (drop ?n x) + m) ans"
        using Cons.prems(3) Moves n by (auto simp: fair_to_def split: if_splits)
      from Cons.IH [OF _ _ this, of "g @ take ?n x"] Cons.prems(2) n obtain ans' where
        "poll_loop (g @ take ?n x) (drop ?n x @ rest) ans = Some (None, g @ x, rest, ans')"
        "fair_to m ans'"
        by auto
      with Cons.prems(1) Moves n lt show ?thesis by (simp add: poll_loop_moves Let_def)
    next
      case (Fails e)
      then have "e = EINTR" "fair_to (length x + m) ans"
        using Cons.prems(3) by (auto simp: fair_to_def)
      with Cons.IH [OF _ Cons.prems(2)] Cons.prems(1) Fails lt show ?thesis
        by (auto simp: poll_loop_fails)
    qed
  qed
qed

lemma poll_loop_short:
  assumes "length g + length x < EVENT_SIZE" and "fair_to (length x + 1) ans"
  obtains ans' where
    "poll_loop g x ans = Some (Some (if g @ x = [] then 0 else -1), g @ x, [], ans')"
  using assms
proof (induction ans arbitrary: g x thesis)
  case Nil
  then show ?case by (simp add: fair_to_def)
next
  case (Cons a ans)
  have lt: "length g < EVENT_SIZE" using Cons.prems(2) by simp
  show ?case
  proof (cases a)
    case (Moves k)
    let ?n = "read_count k (EVENT_SIZE - length g) x"
    show ?thesis
    proof (cases "x = []")
      case True
      then have "?n = 0" by (simp add: read_count_def)
      with True Cons.prems(1) Moves lt show ?thesis by (simp add: poll_loop_moves Let_def)
    next
      case False
      then have n: "0 < ?n" "?n \<le> length x"
        using read_count_bounds(2,3) [of "EVENT_SIZE - length g" k x] read_count_bounds(2) lt by auto
      have "fair_to (length (drop ?n x) + 1) ans"
        using Cons.prems(3) Moves n by (auto simp: fair_to_def split: if_splits)
      from Cons.IH [OF _ _ this, of "g @ take ?n x"] Cons.prems(2) n False obtain ans' where
        "poll_loop (g @ take ?n x) (drop ?n x) ans = Some (Some (-1), g @ x, [], ans')"
        by auto
      with Cons.prems(1) Moves n lt False show ?thesis by (simp add: poll_loop_moves Let_def)
    qed
  next
    case (Fails e)
    then have "e = EINTR" "fair_to (length x + 1) ans"
      using Cons.prems(3) by (auto simp: fair_to_def)
    with Cons.IH [OF _ Cons.prems(2)] Cons.prems(1) Fails lt show ?thesis
      by (auto simp: poll_loop_fails)
  qed
qed

section \<open>Polling until the end\<close>

lemma pg_run_poll_wait:
  assumes "0 \<le> event_fd h"
  shows "pg_run_poll (Some h) True (-1) pr inp ans =
     (case poll_loop [] inp ans of
        None \<Rightarrow> None
      | Some (Some rc, got, inp', ans') \<Rightarrow> Some (rc, got, inp', ans')
      | Some (None, got, inp', ans') \<Rightarrow>
          Some (if header_ok (decode_event got) then 1 else -1, got, inp', ans'))"
  using assms by (auto simp: pg_run_poll_def split: option.splits)

lemma pg_run_poll_consumes:
  assumes "pg_run_poll h has_out t pr inp ans = Some (r, got, inp', ans')" and "0 < r"
  shows "length inp' < length inp"
proof -
  obtain q g i a where pl: "poll_loop [] inp ans = Some (q, g, i, a)"
    using assms by (auto simp: pg_run_poll_def bind_eq_Some_conv split: option.splits if_splits)
  have "q = None \<and> g = got \<and> i = inp'"
    using assms poll_loop_conserves [OF pl]
    by (cases q) (auto simp: pg_run_poll_def pl split: option.splits if_splits)
  with pl have "poll_loop [] inp ans = Some (None, got, inp', a)" by simp
  from poll_loop_conserves [OF this] have "got @ inp' = inp" and "length got = EVENT_SIZE"
    by auto
  then show ?thesis by (auto simp: EVENT_SIZE_def)
qed

text \<open>
  The loop \<open>while ((r = pg_run_poll(&h, &ev, -1)) > 0)\<close> of the clients: the events seen, the
  value that ended it, the rest of the stream and of the answers.
\<close>

function drain :: "pg_run_handle_t \<Rightarrow> u8 list \<Rightarrow> answer list
    \<Rightarrow> (pg_event_t list \<times> int \<times> u8 list \<times> answer list) option" where
  "drain h inp ans =
     (case pg_run_poll (Some h) True (-1) 0 inp ans of
        None \<Rightarrow> None
      | Some (r, got, inp', ans') \<Rightarrow>
          if 0 < r
          then (case drain h inp' ans' of
                  None \<Rightarrow> None
                | Some (evs, res) \<Rightarrow> Some (decode_event got # evs, res))
          else Some ([], r, inp', ans'))"
  by pat_completeness auto
termination
  by (relation "measure (\<lambda>(h, inp, ans). length inp)") (auto dest: pg_run_poll_consumes)

declare drain.simps [simp del]

lemma pg_run_poll_event:
  assumes "0 \<le> event_fd h" and "event_wf e" and "header_ok e" and "fair_to (256 + m) ans"
  obtains ans' where "fair_to m ans'"
    and "pg_run_poll (Some h) True (-1) 0 (encode_event e @ rest) ans = Some (1, encode_event e, rest, ans')"
proof -
  have "length ([] :: u8 list) + length (encode_event e) = EVENT_SIZE"
    using assms(2) by (simp add: length_encode_event)
  from poll_loop_record [OF this, of m ans rest] assms(2,4) obtain ans' where
    "poll_loop [] (encode_event e @ rest) ans = Some (None, encode_event e, rest, ans')" "fair_to m ans'"
    by (auto simp: length_encode_event EVENT_SIZE_def)
  with assms that show ?thesis by (simp add: pg_run_poll_wait decode_encode_event)
qed

lemma pg_run_poll_end:
  assumes "0 \<le> event_fd h" and "length tail < EVENT_SIZE" and "fair_to (length tail + 1) ans"
  obtains ans' where
    "pg_run_poll (Some h) True (-1) 0 tail ans = Some (if tail = [] then 0 else -1, tail, [], ans')"
proof -
  from poll_loop_short [of "[]" tail ans] assms(2,3) obtain ans' where
    "poll_loop [] tail ans = Some (Some (if tail = [] then 0 else -1), tail, [], ans')"
    by auto
  with assms(1) that show ?thesis by (simp add: pg_run_poll_wait)
qed

lemma drain_event:
  assumes "0 \<le> event_fd h" and "event_wf e" and "header_ok e" and "fair_to (256 + m) ans"
  obtains ans' where "fair_to m ans'"
    and "drain h (encode_event e @ rest) ans =
      map_option (\<lambda>(evs, res). (e # evs, res)) (drain h rest ans')"
proof -
  from pg_run_poll_event [OF assms, of rest] obtain ans' where "fair_to m ans'"
    and "pg_run_poll (Some h) True (-1) 0 (encode_event e @ rest) ans = Some (1, encode_event e, rest, ans')" .
  then have "drain h (encode_event e @ rest) ans =
      map_option (\<lambda>(evs, res). (e # evs, res)) (drain h rest ans')"
    using assms(2) by (subst drain.simps) (auto simp: decode_encode_event split: option.split)
  with \<open>fair_to m ans'\<close> show ?thesis by (rule that)
qed

lemma drain_tail:
  assumes "0 \<le> event_fd h" and "length tail < EVENT_SIZE" and "fair_to (length tail + 1) ans"
  obtains ans' where "drain h tail ans = Some ([], if tail = [] then 0 else -1, [], ans')"
proof -
  from pg_run_poll_end [OF assms] obtain ans' where
    "pg_run_poll (Some h) True (-1) 0 tail ans = Some (if tail = [] then 0 else -1, tail, [], ans')" .
  with that show ?thesis by (subst (asm) drain.simps) simp
qed

lemma drain_stream:
  assumes "0 \<le> event_fd h" and "\<forall>e \<in> set evs. event_wf e \<and> header_ok e"
    and "length tail < EVENT_SIZE"
    and "fair_to (256 * length evs + length tail + 1) ans"
  obtains ans' where "drain h (concat (map encode_event evs) @ tail) ans =
      Some (evs, if tail = [] then 0 else -1, [], ans')"
  using assms(2,4)
proof (induction evs arbitrary: ans thesis)
  case Nil
  with drain_tail [OF assms(1,3), of ans] show ?case by auto
next
  case (Cons e evs)
  have "fair_to (256 + (256 * length evs + length tail + 1)) ans"
    using Cons.prems(3) by (simp add: ac_simps)
  from drain_event [OF assms(1) _ _ this, of e "concat (map encode_event evs) @ tail"] Cons.prems(2)
  obtain ans1 where ans1: "fair_to (256 * length evs + length tail + 1) ans1"
    "drain h (encode_event e @ concat (map encode_event evs) @ tail) ans =
      map_option (\<lambda>(evs, res). (e # evs, res)) (drain h (concat (map encode_event evs) @ tail) ans1)"
    by auto
  from Cons.IH [OF _ _ ans1(1)] Cons.prems(2) obtain ans' where
    "drain h (concat (map encode_event evs) @ tail) ans1 =
      Some (evs, if tail = [] then 0 else -1, [], ans')"
    by auto
  with ans1(2) Cons.prems(1) show ?case by simp
qed

section \<open>The crash record\<close>

lemma hand_copy_eq:
  "length tx = 192 \<Longrightarrow> i + length p \<le> 191 \<Longrightarrow>
     hand_copy p i tx = (take i tx @ p @ drop (i + length p) tx, i + length p)"
proof (induction p arbitrary: i tx)
  case Nil
  then show ?case by simp
next
  case (Cons x p)
  from Cons.IH [of "tx[i := x]" "Suc i"] Cons.prems show ?case
    by (simp add: PG_EVENT_TEXT_LEN_def take_Suc_conv_app_nth)
qed

lemma signal_name_short: "length (signal_name sig) \<le> 7"
  by (cases sig) (simp_all add: signal_name_def)

lemma crash_event_text:
  "ev_text (crash_event sig) =
     bytes ''child crashed: '' @ bytes (signal_name sig) @ replicate (177 - length (signal_name sig)) 0"
proof -
  let ?p = "bytes ''child crashed: ''" and ?n = "bytes (signal_name sig)"
  have a: "hand_copy ?p 0 (replicate 192 0) = (?p @ replicate 177 0, 15)"
    by (simp add: hand_copy_eq)
  have "hand_copy ?n 15 (?p @ replicate 177 0) =
      (?p @ ?n @ replicate (177 - length (signal_name sig)) 0, 15 + length (signal_name sig))"
    using signal_name_short [of sig] by (simp add: hand_copy_eq)
  with a show ?thesis
    by (simp add: crash_event_def blank_event_def PG_EVENT_TEXT_LEN_def list_update_append
        replicate_update)
qed

lemma crash_event_wf: "event_wf (crash_event sig)"
  using signal_name_short [of sig]
  by (simp add: event_wf_def crash_event_text event_consts)
    (simp add: crash_event_def blank_event_def event_consts Let_def split: prod.splits)

lemma crash_event_header: "header_ok (crash_event sig)"
  by (simp add: crash_event_def header_ok_def Let_def split: prod.splits)

lemma crash_event_kind: "ev_kind (crash_event sig) = kind_code PG_EV_CHILD_CRASH"
  by (simp add: crash_event_def blank_event_def Let_def split: prod.splits)

lemma crash_event_reads:
  "cstr (ev_text (crash_event sig)) = Some (bytes (''child crashed: '' @ signal_name sig))"
proof -
  define s where "s = ''child crashed: '' @ signal_name sig"
  have "0 \<notin> set (bytes s)"
    unfolding s_def by (rule bytes_no_nul) (cases sig; simp add: signal_name_def)
  moreover have "ev_text (crash_event sig) = cfield 192 (bytes s)"
    using signal_name_short [of sig] by (simp add: s_def crash_event_text cfield_def bytes_def)
  moreover have "length s \<le> 191" using signal_name_short [of sig] by (simp add: s_def)
  ultimately have "cstr (ev_text (crash_event sig)) = Some (bytes s)"
    by (simp add: cstr_cfield)
  then show ?thesis by (simp only: s_def)
qed

section \<open>Properties\<close>

text \<open>
  C7: the parent gets back exactly what was emitted. From a stream of whole records, cut up by
  the kernel in any way and interrupted any number of times, polling until the end yields the
  same events in the same order; it ends with 0 at a clean end of file and with \<open>-1\<close> when the
  stream stops in the middle of a record, after every record before it has been delivered.
\<close>

theorem polling_delivers_the_stream:
  assumes "0 \<le> event_fd h" and "\<forall>e \<in> set evs. event_wf e \<and> header_ok e"
    and "length tail < EVENT_SIZE"
    and "fair_to (256 * length evs + length tail + 1) ans"
  shows "\<exists>ans'. drain h (concat (map encode_event evs) @ tail) ans =
    Some (evs, if tail = [] then 0 else -1, [], ans')"
  using drain_stream [OF assms] by metis

definition demo_handle :: pg_run_handle_t where
  "demo_handle = \<lparr>child_pid = 100, event_fd = 3, ctrl_fd = -1, h_seed = 42\<rparr>"

definition demo_records :: "pg_event_t list" where
  "demo_records = [crash_event SIGBUS, crash_event SIGSEGV]"

theorem polling_delivers_the_stream_witness:
  "\<exists>ans'. drain demo_handle (concat (map encode_event demo_records) @ [0xE7])
      (Fails EINTR # replicate 514 (Moves 100)) = Some (demo_records, -1, [], ans')"
  using polling_delivers_the_stream [of demo_handle demo_records "[0xE7]"
      "Fails EINTR # replicate 514 (Moves 100)"]
  by (simp add: demo_handle_def demo_records_def crash_event_wf crash_event_header EVENT_SIZE_def
      fair_to_def)

text \<open>
  C22: nothing resynchronises the stream after a torn record. When a writer stops inside a record,
  past its header, and another record follows, the next poll takes the missing bytes from that
  record, accepts the mixture, because the header test looks at the first three bytes only, and
  leaves the rest of the stream out of step by the length of the torn part.
\<close>

theorem torn_record_is_glued:
  assumes "0 \<le> event_fd h" and "event_wf a" and "header_ok a" and "event_wf b"
    and "4 \<le> k" and "k < EVENT_SIZE" and "fair_to 256 ans"
  shows "\<exists>ans'. pg_run_poll (Some h) True (-1) 0 (take k (encode_event a) @ encode_event b @ rest) ans =
    Some (1, take k (encode_event a) @ take (256 - k) (encode_event b),
          drop (256 - k) (encode_event b) @ rest, ans')"
proof -
  let ?a = "take k (encode_event a)" and ?b = "encode_event b"
  let ?x = "?a @ take (256 - k) ?b"
  have la: "length ?a = k" and lb: "length ?b = 256"
    using assms by (auto simp: length_encode_event EVENT_SIZE_def)
  have lx: "length ([] :: u8 list) + length ?x = EVENT_SIZE"
    using la lb assms(6) by (simp add: EVENT_SIZE_def)
  have "length ?x = 256" using lx by (simp only: EVENT_SIZE_def list.size add_0)
  then have fair: "fair_to (length ?x + 0) ans" using assms(7) by (simp only: add_0_right)
  from poll_loop_record [OF lx fair, of "drop (256 - k) ?b @ rest"] obtain ans' where
    pl: "poll_loop [] (?x @ drop (256 - k) ?b @ rest) ans =
      Some (None, ?x, drop (256 - k) ?b @ rest, ans')"
    by auto
  have "span off n ?x = span off n (encode_event a)" if "off + n \<le> 4" for off n
    using that assms(5) la
    by (simp add: span_append_left) (simp add: span_def take_drop min_def)
  then have "header_ok (decode_event ?x) = header_ok (decode_event (encode_event a))"
    by (simp add: header_ok_def decode_event_def)
  then have "header_ok (decode_event ?x)"
    using assms(2,3) by (simp add: decode_encode_event)
  moreover have str: "?a @ ?b @ rest = ?x @ drop (256 - k) ?b @ rest"
    by (metis append.assoc append_take_drop_id)
  ultimately show ?thesis
    using pl assms(1) unfolding str by (simp add: pg_run_poll_wait)
qed

theorem torn_record_is_glued_witness:
  "\<exists>ans'. pg_run_poll (Some demo_handle) True (-1) 0
      (take 100 (encode_event (crash_event SIGBUS)) @ encode_event (crash_event SIGSEGV))
      (replicate 300 (Moves 64)) =
    Some (1, take 100 (encode_event (crash_event SIGBUS)) @ take 156 (encode_event (crash_event SIGSEGV)),
          drop 156 (encode_event (crash_event SIGSEGV)), ans')"
  using torn_record_is_glued [of demo_handle "crash_event SIGBUS" "crash_event SIGSEGV" 100
      "replicate 300 (Moves 64)" "[]"]
  by (simp add: demo_handle_def crash_event_wf crash_event_header EVENT_SIZE_def fair_to_def)

text \<open>What a run that comes back leaves in the pipe.\<close>

lemma run_writes:
  assumes "call_init s (child_setup seed rd wr env c) = Some (c1, Returns (rc0, st))"
    and "if rc0 = 0 then sc_run s st c1 = Some (c2, Returns rc) else c2 = c1 \<and> rc = rc0"
    and "call_teardown s st c2 = Some (c3, Returns ())"
    and "0 \<le> event_fd_w (ctx_obj c3)" and "fair_to 256 (answers c3)"
  obtains c' copy where "child_main s seed rd wr env c = Some (c', WExited (if rc0 = 0 \<and> rc = 0 then 0 else 1))"
    and "pipe_bytes c' = pipe_bytes c3 @ encode_event copy" and "same_payload (blank_event PG_EV_DONE) copy"
    and "event_wf copy" and "header_ok copy"
proof -
  have "pipe_ready TheCtx c3" using assms(4) by (simp add: pipe_ready_def)
  moreover have "fair_to (256 + 0) (answers c3)" using assms(5) by simp
  ultimately obtain c4 copy where "pg_emit TheCtx (Some (blank_event PG_EV_DONE)) c3 = Some c4"
      "pipe_bytes c4 = pipe_bytes c3 @ encode_event copy" "same_payload (blank_event PG_EV_DONE) copy"
      "event_wf copy" "header_ok copy"
    by (rule pg_emit_fair [OF _ blank_event_wf])
  note c4 = this(1) [folded pg_done_def] this(2-)
  have "rc0 = 0 \<or> rc \<noteq> 0" using assms(2) by auto
  then have "child_main s seed rd wr env c =
      Some (c4\<lparr>sys_log := sys_log c4 @ [SysClose wr]\<rparr>, WExited (if rc0 = 0 \<and> rc = 0 then 0 else 1))"
    using assms(1-3) c4(1) by (auto simp: child_main_def child_body_def after_def split: if_splits)
  then show thesis by (rule that [of "c4\<lparr>sys_log := sys_log c4 @ [SysClose wr]\<rparr>" copy]) (use c4(2-5) in simp_all)
qed

lemma run_delivered:
  assumes "call_init s (child_setup seed rd wr env c) = Some (c1, Returns (rc0, st))"
    and "if rc0 = 0 then sc_run s st c1 = Some (c2, Returns rc) else c2 = c1 \<and> rc = rc0"
    and "call_teardown s st c2 = Some (c3, Returns ())"
    and "pipe_bytes c3 = concat (map encode_event evs)"
    and "\<forall>e \<in> set evs. event_wf e \<and> header_ok e"
    and "0 \<le> event_fd_w (ctx_obj c3)" and "fair_to 256 (answers c3)"
    and "0 \<le> event_fd h" and "fair_to (256 * (length evs + 1) + 1) ans"
  shows "\<exists>c' last ans'.
      child_main s seed rd wr env c = Some (c', WExited (if rc0 = 0 \<and> rc = 0 then 0 else 1))
      \<and> drain h (pipe_bytes c') ans = Some (evs @ [last], 0, [], ans')
      \<and> kind_of (ev_kind last) = Some PG_EV_DONE"
proof -
  from run_writes [OF assms(1-3,6,7)] obtain c' copy where
    c': "child_main s seed rd wr env c = Some (c', WExited (if rc0 = 0 \<and> rc = 0 then 0 else 1))"
      "pipe_bytes c' = pipe_bytes c3 @ encode_event copy" "same_payload (blank_event PG_EV_DONE) copy"
      "event_wf copy" "header_ok copy" .
  have "fair_to (256 * length (evs @ [copy]) + length ([] :: u8 list) + 1) ans"
    using assms(9) by simp
  from drain_stream [OF assms(8) _ _ this] assms(5) c'(4,5) obtain ans' where
    "drain h (concat (map encode_event (evs @ [copy])) @ []) ans = Some (evs @ [copy], 0, [], ans')"
    by (auto simp: EVENT_SIZE_def)
  with c' assms(4) show ?thesis
    by (intro exI [of _ c'] exI [of _ copy] exI [of _ ans'])
      (simp add: same_payload_def blank_event_def del: kind_code.simps)
qed

text \<open>
  C2: a scenario that comes back is reported in full. Whatever \<open>init\<close>, \<open>run\<close> and
  \<open>teardown\<close> emit, the reader gets these events and then one \<open>PG_EV_DONE\<close> and a clean end
  of file, and the child exits with 0 exactly when \<open>init\<close> and \<open>run\<close> both returned 0;
  \<open>run\<close> is skipped after a failed \<open>init\<close>, \<open>teardown\<close> and the final record are not.
\<close>

theorem run_delivers_everything:
  assumes "call_init s (child_setup seed rd wr env c) = Some (c1, Returns (rc0, st))"
    and "if rc0 = 0 then sc_run s st c1 = Some (c2, Returns rc) else c2 = c1 \<and> rc = rc0"
    and "call_teardown s st c2 = Some (c3, Returns ())"
    and "pipe_bytes c3 = concat (map encode_event evs)"
    and "\<forall>e \<in> set evs. event_wf e \<and> header_ok e"
    and "0 \<le> event_fd_w (ctx_obj c3)" and "fair_to 256 (answers c3)"
    and "0 \<le> event_fd h" and "fair_to (256 * (length evs + 1) + 1) ans"
  shows "\<exists>c' last ans'.
      child_main s seed rd wr env c = Some (c', WExited (if rc0 = 0 \<and> rc = 0 then 0 else 1))
      \<and> drain h (pipe_bytes c') ans = Some (evs @ [last], 0, [], ans')
      \<and> kind_of (ev_kind last) = Some PG_EV_DONE"
  by (rule run_delivered [OF assms])

theorem run_delivers_everything_witness:
  "\<exists>c' last ans'. child_main (demo_scenario ''quiet'') 42 3 4 None (demo_child (replicate 300 (Moves 1)))
      = Some (c', WExited 0)
    \<and> drain demo_handle (pipe_bytes c') (replicate 300 (Moves 7)) = Some ([last], 0, [], ans')
    \<and> kind_of (ev_kind last) = Some PG_EV_DONE"
proof -
  let ?s = "demo_scenario ''quiet''"
  let ?c = "child_setup 42 3 4 None (demo_child (replicate 300 (Moves 1)))"
  have c: "pipe_bytes ?c = []" "event_fd_w (ctx_obj ?c) = 4" "answers ?c = replicate 300 (Moves 1)"
    by (simp_all add: child_setup_def install_child_handlers_def now_ns_def demo_child_def Let_def)
  show ?thesis
    using run_delivers_everything [of ?s 42 3 4 None "demo_child (replicate 300 (Moves 1))" ?c 0 None
        ?c 0 ?c "[]" demo_handle "replicate 300 (Moves 7)"] c
    by (simp add: call_init_def call_teardown_def demo_scenario_def demo_handle_def fair_to_def)
qed

lemma crash_delivered:
  assumes "call_init s (child_setup seed rd wr env c) = Some (c1, Returns (0, st))"
    and "sc_run s st c1 = Some (c2, DiesOf sig)" and "sig \<in> set handled_signals"
    and "sig_handlers c2 = sig_handlers (child_setup seed rd wr env c)"
    and "g_child_event_fd c2 = g_child_event_fd (child_setup seed rd wr env c)" and "0 \<le> wr"
    and "pipe_bytes c2 = concat (map encode_event evs)"
    and "\<forall>e \<in> set evs. event_wf e \<and> header_ok e"
    and "answers c2 = a # later" and "pipe_buf_atomic 256 a" and "\<not> (\<exists>e. a = Fails e)"
    and "0 \<le> event_fd h" and "fair_to (256 * (length evs + 1) + 1) ans"
  shows "\<exists>c' last ans'. child_main s seed rd wr env c = Some (c', WSignaled sig)
      \<and> drain h (pipe_bytes c') ans = Some (evs @ [last], 0, [], ans')
      \<and> kind_of (ev_kind last) = Some PG_EV_CHILD_CRASH
      \<and> cstr (ev_text last) = Some (bytes (''child crashed: '' @ signal_name sig))"
proof -
  let ?e = "crash_event sig"
  have wiring: "sig_handlers c2 = handled_signals" "g_child_event_fd c2 = wr"
    using assms(4,5)
    by (simp_all add: child_setup_def install_child_handlers_def now_ns_def Let_def)
  have len: "length (encode_event ?e) = 256"
    using length_encode_event [OF crash_event_wf] by (simp add: EVENT_SIZE_def)
  with assms(10,11) have "fst (emit_body (encode_event ?e) 0 a) = encode_event ?e"
    by (cases a) (simp_all add: emit_body_def pipe_buf_atomic_def Let_def)
  then obtain c' where main: "child_main s seed rd wr env c = Some (c', WSignaled sig)"
    and out: "pipe_bytes c' = pipe_bytes c2 @ encode_event ?e"
    using assms(1,2,3,6,9) wiring
    by (simp add: child_main_def child_body_def after_def deliver_def child_fault_handler_def)
  have "fair_to (256 * length (evs @ [?e]) + length ([] :: u8 list) + 1) ans"
    using assms(13) by simp
  from drain_stream [OF assms(12) _ _ this] assms(8) obtain ans' where
    "drain h (concat (map encode_event (evs @ [?e])) @ []) ans = Some (evs @ [?e], 0, [], ans')"
    by (auto simp: EVENT_SIZE_def crash_event_wf crash_event_header)
  with main out assms(7) show ?thesis
    by (intro exI [of _ c'] exI [of _ ?e] exI [of _ ans'])
      (simp add: crash_event_kind crash_event_reads del: kind_code.simps)
qed

text \<open>
  C21: a crash stays inside the child and is reported. When \<open>run\<close> dies of one of the five
  signals the harness catches, the reader gets every event emitted before, then one
  \<open>PG_EV_CHILD_CRASH\<close> record that names the signal, and the wait status carries the signal.
\<close>

theorem crash_is_reported:
  assumes "call_init s (child_setup seed rd wr env c) = Some (c1, Returns (0, st))"
    and "sc_run s st c1 = Some (c2, DiesOf sig)" and "sig \<in> set handled_signals"
    and "sig_handlers c2 = sig_handlers (child_setup seed rd wr env c)"
    and "g_child_event_fd c2 = g_child_event_fd (child_setup seed rd wr env c)" and "0 \<le> wr"
    and "pipe_bytes c2 = concat (map encode_event evs)"
    and "\<forall>e \<in> set evs. event_wf e \<and> header_ok e"
    and "answers c2 = a # later" and "pipe_buf_atomic 256 a" and "\<not> (\<exists>e. a = Fails e)"
    and "0 \<le> event_fd h" and "fair_to (256 * (length evs + 1) + 1) ans"
  shows "\<exists>c' last ans'. child_main s seed rd wr env c = Some (c', WSignaled sig)
      \<and> drain h (pipe_bytes c') ans = Some (evs @ [last], 0, [], ans')
      \<and> kind_of (ev_kind last) = Some PG_EV_CHILD_CRASH
      \<and> cstr (ev_text last) = Some (bytes (''child crashed: '' @ signal_name sig))"
  by (rule crash_delivered [OF assms])

definition demo_crasher :: "unit pg_scenario_t" where
  "demo_crasher = (demo_scenario ''crash'')\<lparr>sc_run := (\<lambda>st c. Some (c, DiesOf SIGSEGV))\<rparr>"

theorem crash_is_reported_witness:
  "\<exists>c' last ans'. child_main demo_crasher 42 3 4 None (demo_child [Moves 4096]) = Some (c', WSignaled SIGSEGV)
    \<and> drain demo_handle (pipe_bytes c') (replicate 300 (Moves 7)) = Some ([last], 0, [], ans')
    \<and> cstr (ev_text last) = Some (bytes ''child crashed: SIGSEGV'')"
proof -
  let ?c = "child_setup 42 3 4 None (demo_child [Moves 4096])"
  have c: "pipe_bytes ?c = []" "answers ?c = [Moves 4096]"
    by (simp_all add: child_setup_def install_child_handlers_def now_ns_def demo_child_def Let_def)
  show ?thesis
    using crash_is_reported [of demo_crasher 42 3 4 None "demo_child [Moves 4096]" ?c None ?c SIGSEGV
        "[]" "Moves 4096" "[]" demo_handle "replicate 300 (Moves 7)"] c
    by (auto simp: call_init_def demo_crasher_def demo_scenario_def demo_handle_def fair_to_def
        handled_signals_def pipe_buf_atomic_def signal_name_def)
qed

lemma wait_loop_interrupted:
  "wait_loop (replicate n (WaitFails EINTR) @ Reaped st # later) = Some (Inr st)"
  by (induction n) simp_all

lemma wait_loop_fails:
  "x \<noteq> EINTR \<Longrightarrow> wait_loop (replicate n (WaitFails EINTR) @ WaitFails x # later) = Some (Inl x)"
  by (induction n) simp_all

text \<open>
  C23: what becomes of the descriptors and of the child. When \<open>pg_run_start\<close> fails, at whatever
  call, it returns \<open>-1\<close>, no handle, and every descriptor it opened is closed. When it succeeds
  the only descriptor left is the one in the handle, and reaping waits through any number of
  interruptions. If the child is then collected, reaping closes that descriptor and empties the
  handle, so that neither is used again. If \<open>waitpid\<close> fails for another reason, reaping returns
  \<open>-1\<close> before it closes anything: the descriptor is still open and the handle unchanged, so a
  caller that drops the handle then, as both callers do, loses the descriptor.
\<close>

theorem run_lifecycle_accounts:
  assumes "pg_run_start s seed has_out env pipe_ans pid = Parent rc e h acts"
    and "\<forall>rd wr. pipe_ans = Some (rd, wr) \<longrightarrow> 0 \<le> rd \<and> 0 \<le> wr \<and> rd \<noteq> wr"
  shows "(rc = -1 \<and> h = None \<and> open_fds acts = {}) \<or>
    (\<exists>hd. rc = 0 \<and> h = Some hd \<and> open_fds acts = {event_fd hd} \<and> child_pid hd = pid \<and> 0 < pid
      \<and> (\<forall>n st later. \<exists>h'.
            pg_run_reap h (replicate n (WaitFails EINTR) @ Reaped st # later)
              = Some (0, Some st, Some h', [SysClose (event_fd hd)])
            \<and> open_fds (acts @ [SysClose (event_fd hd)]) = {}
            \<and> event_fd h' = -1 \<and> pg_run_abort (Some h') = []
            \<and> (\<forall>t pr inp ans. pg_run_poll (Some h') True t pr inp ans = Some (-1, [], inp, ans)))
      \<and> (\<forall>n x later. x \<noteq> EINTR \<longrightarrow> (\<exists>acts'.
            pg_run_reap h (replicate n (WaitFails EINTR) @ WaitFails x # later) = Some (-1, None, h, acts')
            \<and> open_fds (acts @ acts') = {event_fd hd})))"
proof (cases "rc = 0")
  case False
  then have "rc = -1 \<and> h = None \<and> open_fds acts = {}"
    using assms by (auto simp: pg_run_start_def open_fds_def Let_def split: option.splits if_splits)
  then show ?thesis ..
next
  case True
  with assms obtain rd wr where
    h: "h = Some \<lparr>child_pid = pid, event_fd = rd, ctrl_fd = -1, h_seed = seed\<rparr>"
    and "0 < pid" "0 \<le> rd" "rd \<noteq> wr" and acts: "acts = [SysOpen rd, SysOpen wr, SysClose wr]"
    by (auto simp: pg_run_start_def Let_def split: option.splits if_splits)
  define hd where "hd = \<lparr>child_pid = pid, event_fd = rd, ctrl_fd = -1, h_seed = seed\<rparr>"
  have hd: "h = Some hd" "0 < pid" "child_pid hd = pid" "0 \<le> event_fd hd"
    using h \<open>0 < pid\<close> \<open>0 \<le> rd\<close> by (simp_all add: hd_def)
  have fds: "open_fds acts = {event_fd hd}" "open_fds (acts @ [SysClose (event_fd hd)]) = {}"
    using \<open>rd \<noteq> wr\<close> by (auto simp: open_fds_def acts hd_def)
  let ?h' = "hd\<lparr>event_fd := -1, child_pid := -1\<rparr>"
  have "pg_run_reap h (replicate n (WaitFails EINTR) @ Reaped st # later)
      = Some (0, Some st, Some ?h', [SysClose (event_fd hd)])" for n st later
    using hd by (simp add: pg_run_reap_def wait_loop_interrupted)
  moreover have "pg_run_reap h (replicate n (WaitFails EINTR) @ WaitFails x # later) = Some (-1, None, h, [])"
    if "x \<noteq> EINTR" for n x later
    using that hd by (simp add: pg_run_reap_def wait_loop_fails)
  moreover have "open_fds (acts @ []) = {event_fd hd}" using fds by simp
  ultimately show ?thesis
    using True hd(1-3) fds by (intro disjI2 exI [of _ hd]) (auto simp: pg_run_abort_def pg_run_poll_def)
qed

theorem run_lifecycle_accounts_witness:
  "\<exists>hd acts h' acts'. pg_run_start (Some (demo_scenario ''x'')) 7 True None (Some (3, 4)) 100
      = Parent 0 None (Some hd) acts \<and> open_fds acts = {3}
    \<and> pg_run_reap (Some hd) [WaitFails EINTR, Reaped (WExited 0)]
        = Some (0, Some (WExited 0), Some h', [SysClose 3])
    \<and> pg_run_reap (Some hd) [WaitFails EIO] = Some (-1, None, Some hd, acts')
    \<and> open_fds (acts @ acts') = {3}"
proof -
  obtain hd acts where st: "pg_run_start (Some (demo_scenario ''x'')) 7 True None (Some (3, 4)) 100
      = Parent 0 None (Some hd) acts" and fd: "event_fd hd = 3"
    by (simp add: pg_run_start_def)
  from run_lifecycle_accounts [OF st] fd have opened: "open_fds acts = {3}"
    and ok: "\<And>n st later. \<exists>h'. pg_run_reap (Some hd) (replicate n (WaitFails EINTR) @ Reaped st # later)
              = Some (0, Some st, Some h', [SysClose 3])"
    and bad: "\<And>n x later. x \<noteq> EINTR \<Longrightarrow> \<exists>acts'. pg_run_reap (Some hd) (replicate n (WaitFails EINTR) @ WaitFails x # later)
              = Some (-1, None, Some hd, acts') \<and> open_fds (acts @ acts') = {3}"
    by (simp_all, metis+)
  from ok [of 1 "WExited 0" "[]"] bad [of EIO 0 "[]"] st opened show ?thesis by auto
qed

text \<open>
  a record with a wrong magic number or version is rejected with \<open>-1\<close>, never delivered, and
  the poll consumes exactly its 256 bytes; conversely a poll that returns 1 has delivered 256
  bytes with a valid header and lost none of the stream.
\<close>

theorem poll_rejects_bad_header:
  assumes "pg_run_poll (Some h) True t pr inp ans = Some (r, got, inp', ans')"
  shows "got @ inp' = inp \<and> r \<in> {-2, -1, 0, 1}
    \<and> (r = 1 \<longleftrightarrow> length got = EVENT_SIZE \<and> header_ok (decode_event got))
    \<and> (r = 0 \<longrightarrow> got = [])"
proof (cases "event_fd h < 0 \<or> 0 \<le> t \<and> pr \<le> 0")
  case True
  with assms show ?thesis by (auto simp: pg_run_poll_def EVENT_SIZE_def split: if_splits)
next
  case False
  with assms obtain q where pl: "poll_loop [] inp ans = Some (q, got, inp', ans')"
    and r: "r = (case q of Some rc \<Rightarrow> rc | None \<Rightarrow> if header_ok (decode_event got) then 1 else -1)"
    by (auto simp: pg_run_poll_def bind_eq_Some_conv split: option.splits if_splits)
  have "q = None \<and> length got = EVENT_SIZE
      \<or> length got < EVENT_SIZE \<and> (q = Some (-1) \<or> q = Some 0 \<and> got = [])"
    using poll_loop_ends [OF pl] by (simp add: EVENT_SIZE_def)
  with r poll_loop_conserves [OF pl] show ?thesis by auto
qed

theorem poll_rejects_bad_header_witness:
  "\<exists>got inp' ans'. pg_run_poll (Some demo_handle) True (-1) 0 (replicate 300 0) [Moves 300]
      = Some (-1, got, inp', ans') \<and> got @ inp' = replicate 300 0"
proof -
  obtain r got inp' ans' where
    p: "pg_run_poll (Some demo_handle) True (-1) 0 (replicate 300 0) [Moves 300] = Some (r, got, inp', ans')"
    and g: "got = replicate 256 0" and r: "r = -1"
    by (simp add: pg_run_poll_wait demo_handle_def poll_loop_steps EVENT_SIZE_def read_count_def
        header_ok_def decode_event_def span_def PG_EVENT_VERSION_def numeral_2_eq_2)
  from poll_rejects_bad_header [OF p] p r show ?thesis by auto
qed

text \<open>
  the two generators of a run never coincide. For every seed, zero included, the scenario's
  generator and the one that draws the clock jitter start in different states, both live, so
  masking the seed keeps the streams apart; the context carries the seed it was given.
\<close>

theorem child_streams_differ:
  "ctx_rng (ctx_obj (child_setup seed rd wr env c)) = pg_xosh_seed seed
    \<and> ctx_rng (ctx_obj (child_setup seed rd wr env c))
        \<noteq> g_clock_rng (g_clock (child_setup seed rd wr env c))
    \<and> xosh_ok (g_clock_rng (g_clock (child_setup seed rd wr env c)))
    \<and> pg_runctx_seed TheCtx (child_setup seed rd wr env c) = seed"
proof -
  let ?m = "0xC10CC10CC10CC10C :: u64"
  have "pg_xosh_seed seed \<noteq> pg_xosh_seed (seed XOR ?m)"
  proof
    assume eq: "pg_xosh_seed seed = pg_xosh_seed (seed XOR ?m)"
    consider "seed = 0" | "seed = ?m" | "seed \<noteq> 0" "seed XOR ?m \<noteq> 0" by auto
    then show False
    proof cases
      case 1
      with eq pg_xosh_seed_inject [of "0xDEADBEEFDEADBEEF" ?m] show False
        by (simp add: pg_xosh_seed_zero)
    next
      case 2
      with eq pg_xosh_seed_inject [of ?m "0xDEADBEEFDEADBEEF"] show False
        by (simp add: pg_xosh_seed_zero)
    next
      case 3
      from pg_xosh_seed_inject [OF eq this] have "seed XOR 0 = seed XOR ?m" by simp
      then show False unfolding xor_left_cancel by simp
    qed
  qed
  then show ?thesis
    by (simp add: child_setup_def install_child_handlers_def now_ns_def chaos_clock_seed_def
        pg_runctx_seed_def pg_xosh_seed_ok Let_def)
qed

end
