(* ===== verification/Headless.thy ===== *)
theory Headless
  imports Runner
begin

text \<open>
  The command line of \<open>src/main.c\<close>: argument parsing, the list of scenarios, and the
  headless run that turns the event stream into lines of JSON or plain text. Standard output
  and standard error are byte strings. \<open>None\<close> stands for a run that does not return under the
  given kernel answers, and for a read past the end of a character array that holds no NUL.
\<close>

section \<open>Output\<close>

definition json_char :: "u8 \<Rightarrow> u8 list" where
  "json_char c =
     (if c = 34 then [92, 34]
      else if c = 92 then [92, 92]
      else if c = 10 then bytes [CHR 0x5C, CHR ''n'']
      else if c = 13 then bytes [CHR 0x5C, CHR ''r'']
      else if c = 9 then bytes [CHR 0x5C, CHR ''t'']
      else if c < 0x20 then bytes (CHR 0x5C # CHR ''u'' # show_hex4 c)
      else [c])"

definition json_escape :: "u8 list \<Rightarrow> u8 list" where
  "json_escape s = [34] @ concat (map json_char s) @ [34]"

definition newline :: "u8 list" where "newline = [10]"
definition quote :: string where "quote = [CHR 0x22]"

text \<open>One event as a line of JSON.\<close>

definition json_line :: "pg_event_t \<Rightarrow> u8 list option" where
  "json_line ev = do {
     key \<leftarrow> cstr (ev_key ev);
     txt \<leftarrow> cstr (ev_text ev);
     Some (bytes (''{'' @ quote @ ''kind'' @ quote @ '':'')
       @ json_escape (bytes (pg_event_kind_name (ev_kind ev)))
       @ bytes ('','' @ quote @ ''ts_ns'' @ quote @ '':'' @ show_nat (unat (ev_ts_ns ev)))
       @ bytes ('','' @ quote @ ''thread'' @ quote @ '':'' @ show_nat (unat (ev_thread_tag ev)))
       @ bytes ('','' @ quote @ ''key'' @ quote @ '':'') @ json_escape key
       @ bytes ('','' @ quote @ ''num'' @ quote @ '':'' @ show_int (sint (ev_num ev)))
       @ bytes ('','' @ quote @ ''text'' @ quote @ '':'') @ json_escape txt
       @ bytes ''}'' @ newline)
   }"

text \<open>\<open>%-ns\<close>.\<close>

definition pad_right :: "nat \<Rightarrow> u8 list \<Rightarrow> u8 list" where
  "pad_right n s = s @ replicate (n - length s) 32"

text \<open>One event as text; \<open>secs\<close> is what \<open>%9.3f\<close> prints for \<open>ts_ns / 1e9\<close>.\<close>

definition text_line :: "(u64 \<Rightarrow> u8 list) \<Rightarrow> pg_event_t \<Rightarrow> u8 list option" where
  "text_line secs ev = do {
     key \<leftarrow> cstr (ev_key ev);
     txt \<leftarrow> cstr (ev_text ev);
     Some (secs (ev_ts_ns ev)
       @ bytes ''  '' @ pad_right 8 (bytes (pg_event_kind_name (ev_kind ev)))
       @ bytes ''  t='' @ pad_right 2 (bytes (show_nat (unat (ev_thread_tag ev))))
       @ bytes ''  '' @ pad_right 16 key
       @ bytes ''  num='' @ pad_right 10 (bytes (show_int (sint (ev_num ev))))
       @ bytes ''  '' @ txt @ newline)
   }"

definition print_event :: "bool \<Rightarrow> (u64 \<Rightarrow> u8 list) \<Rightarrow> pg_event_t \<Rightarrow> u8 list option" where
  "print_event json secs ev = (if json then json_line ev else text_line secs ev)"

definition list_scenarios :: "'s registry \<Rightarrow> u8 list" where
  "list_scenarios g =
     (let (n, all) = pg_registry_list g
      in if n = 0 then bytes ''(no scenarios registered)'' @ newline
         else concat (map (\<lambda>s. bytes ''  '' @ pad_right 14 (bytes (sc_id s))
                @ bytes ''  '' @ pad_right 32 (bytes (sc_title s))
                @ bytes ''  ['' @ bytes (pg_category_name (sc_category s)) @ bytes '']'' @ newline) all))"

definition print_usage :: "string \<Rightarrow> u8 list" where
  "print_usage argv0 =
     bytes (''usage: '' @ argv0 @ '' [--scenario ID] [--seed N] [--json] [--list]'') @ newline
     @ bytes ''  default (no flags) : launches interactive TUI (if built in)'' @ newline
     @ bytes ''  --scenario ID      : run one scenario headless and stream events'' @ newline
     @ bytes ''  --seed N           : seed the deterministic RNG (default: time(NULL))'' @ newline
     @ bytes ''  --json             : emit one JSON object per event (otherwise plain text)'' @ newline
     @ bytes ''  --list             : list registered scenarios and exit'' @ newline"

section \<open>The headless run\<close>

text \<open>
  The loop over the stream: whether \<open>PG_EV_DONE\<close> was seen, the output, the rest of the stream.
\<close>

function event_loop ::
    "pg_run_handle_t \<Rightarrow> bool \<Rightarrow> (u64 \<Rightarrow> u8 list) \<Rightarrow> u8 list \<Rightarrow> answer list
      \<Rightarrow> (bool \<times> u8 list \<times> u8 list \<times> answer list) option"
where
  "event_loop h json secs inp ans =
     (case pg_run_poll (Some h) True (-1) 0 inp ans of
        None \<Rightarrow> None
      | Some (r, got, inp', ans') \<Rightarrow>
          if 0 < r
          then (let ev = decode_event got
                in case print_event json secs ev of
                     None \<Rightarrow> None
                   | Some line \<Rightarrow>
                       if ev_kind ev = kind_code PG_EV_DONE then Some (True, line, inp', ans')
                       else (case event_loop h json secs inp' ans' of
                               None \<Rightarrow> None
                             | Some (saw, out, rest) \<Rightarrow> Some (saw, line @ out, rest)))
          else Some (False, [], inp', ans'))"
  by pat_completeness auto
termination
  by (relation "measure (\<lambda>(h, json, secs, inp, ans). length inp)") (auto dest: pg_run_poll_consumes)

declare event_loop.simps [simp del]

text \<open>
  What the kernel decides in the parent: \<open>pipe\<close>, \<open>fork\<close>, the stream the child leaves, the
  answers to \<open>read\<close> and to \<open>waitpid\<close>.
\<close>

record parent_world =
  pw_pipe :: "(int \<times> int) option"
  pw_fork :: int
  pw_stream :: "u8 list"
  pw_reads :: "answer list"
  pw_waits :: "wait_answer list"

definition run_headless ::
    "'s registry \<Rightarrow> string \<Rightarrow> u64 \<Rightarrow> bool \<Rightarrow> string option \<Rightarrow> (u64 \<Rightarrow> u8 list) \<Rightarrow> parent_world
      \<Rightarrow> (int \<times> u8 list \<times> u8 list) option"
where
  "run_headless g name seed json env secs w =
     (case pg_registry_find (Some name) g of
        None \<Rightarrow> Some (2, [], bytes (''unknown scenario: '' @ name) @ newline)
      | Some s \<Rightarrow>
          (case pg_run_start (Some s) seed True env (pw_pipe w) (pw_fork w) of
             InChild k \<Rightarrow> None
           | Parent rc e None acts \<Rightarrow> Some (1, [], bytes ''failed to start scenario'' @ newline)
           | Parent rc e (Some h) acts \<Rightarrow> do {
               (saw_done, out, rest, ans) \<leftarrow> event_loop h json secs (pw_stream w) (pw_reads w);
               (rr, st, h', acts') \<leftarrow> pg_run_reap (Some h) (pw_waits w);
               let status = (case st of None \<Rightarrow> WExited 0 | Some st \<Rightarrow> st);
               Some (0, out,
                 if saw_done then []
                 else (case status of
                         WSignaled sig \<Rightarrow>
                           bytes (''child died from signal '' @ show_nat (signal_number sig)) @ newline
                       | WExited n \<Rightarrow>
                           bytes (''child exited '' @ show_int n @ '' before PG_EV_DONE'') @ newline))
             }))"

section \<open>The command line\<close>

record options =
  scenario_id :: "string option"
  o_seed :: u64
  o_json :: bool
  o_list :: bool

datatype bad_args = HelpAsked | UnknownArg string

fun parse_args :: "string list \<Rightarrow> options \<Rightarrow> bad_args + options" where
  "parse_args [] opt = Inr opt"
| "parse_args (a # rest) opt =
     (if a = ''--scenario'' \<and> rest \<noteq> [] then parse_args (tl rest) (opt\<lparr>scenario_id := Some (hd rest)\<rparr>)
      else if a = ''--seed'' \<and> rest \<noteq> [] then parse_args (tl rest) (opt\<lparr>o_seed := strtoull (hd rest) 0\<rparr>)
      else if a = ''--json'' then parse_args rest (opt\<lparr>o_json := True\<rparr>)
      else if a = ''--list'' then parse_args rest (opt\<lparr>o_list := True\<rparr>)
      else if a = ''-h'' \<or> a = ''--help'' then Inl HelpAsked
      else Inl (UnknownArg a))"

definition seed_warning :: "u8 list" where
  "seed_warning =
     bytes ''warning: seed=0 is internally remapped to a fixed default for the'' @ newline
     @ bytes ''         RNG; pass a non-zero --seed for true reproducibility.'' @ newline"

text \<open>
  \<open>tui\<close> is the result of \<open>tui_run\<close> in a build that has it, \<open>None\<close> in a headless build;
  \<open>now\<close> is \<open>time(NULL)\<close>.
\<close>

definition pg_main ::
    "'s registry \<Rightarrow> string \<Rightarrow> string list \<Rightarrow> u64 \<Rightarrow> int option \<Rightarrow> string option
      \<Rightarrow> (u64 \<Rightarrow> u8 list) \<Rightarrow> parent_world \<Rightarrow> (int \<times> u8 list \<times> u8 list) option"
where
  "pg_main g argv0 args now tui env secs w =
     (case parse_args args \<lparr>scenario_id = None, o_seed = now, o_json = False, o_list = False\<rparr> of
        Inl HelpAsked \<Rightarrow> Some (0, print_usage argv0, [])
      | Inl (UnknownArg a) \<Rightarrow>
          Some (2, [], bytes (''unknown arg: '' @ a) @ newline @ print_usage argv0)
      | Inr opt \<Rightarrow>
          if o_list opt then Some (0, list_scenarios g, [])
          else
            (let warn = (if o_seed opt = 0 then seed_warning else [])
             in case scenario_id opt of
                  Some name \<Rightarrow> do {
                    (rc, out, err) \<leftarrow> run_headless g name (o_seed opt) (o_json opt) env secs w;
                    Some (rc, out, warn @ err)
                  }
                | None \<Rightarrow>
                    (case tui of
                       Some rc \<Rightarrow> Some (rc, [], warn)
                     | None \<Rightarrow>
                         Some (2, [], warn
                           @ bytes ''this binary is headless-only. pass --scenario ID, or use ./playground.''
                           @ newline @ print_usage argv0))))"

section \<open>Reading JSON strings back\<close>

definition hex_digit :: "u8 \<Rightarrow> nat" where
  "hex_digit b = (if b < 58 then unat b - 48 else unat b - 87)"

text \<open>The inverse of \<open>json_escape\<close> by the JSON grammar, after the opening quote.\<close>

fun json_rest :: "u8 list \<Rightarrow> (u8 list \<times> u8 list) option" where
  "json_rest [] = None"
| "json_rest (c # cs) =
     (if c = 34 then Some ([], cs)
      else if c = 92 then
        (case cs of
           [] \<Rightarrow> None
         | d # ds \<Rightarrow>
             if d = 117
             then (case ds of
                     w # x # y # z # es \<Rightarrow>
                       map_option (apfst (Cons (of_nat (16 * hex_digit y + hex_digit z)))) (json_rest es)
                   | _ \<Rightarrow> None)
             else map_option (apfst (Cons (if d = 110 then 10 else if d = 114 then 13
                     else if d = 116 then 9 else d))) (json_rest ds))
      else if c < 32 then None
      else map_option (apfst (Cons c)) (json_rest cs))"

fun json_string :: "u8 list \<Rightarrow> (u8 list \<times> u8 list) option" where
  "json_string [] = None"
| "json_string (q # cs) = (if q = 34 then json_rest cs else None)"

lemma hex_digit_char: "n < 16 \<Longrightarrow> hex_digit (of_char (digit_char n)) = n"
  by (simp add: hex_digit_def word_less_nat_alt digit_char_byte)

lemma hex_value: "(of_nat (16 * (unat c div 16) + unat c mod 16) :: u8) = c"
  by simp

lemma json_rest_char: "json_rest (json_char c @ rest) = map_option (apfst (Cons c)) (json_rest rest)"
proof (cases "c = 34 \<or> c = 92 \<or> c = 10 \<or> c = 13 \<or> c = 9")
  case True
  then show ?thesis by (auto simp: json_char_def bytes_def)
next
  case False
  show ?thesis
  proof (cases "c < 32")
    case True
    have "unat c div 16 < 16" "unat c mod 16 < 16"
      using unsigned_less [of c, where ?'a = nat] by simp_all
    then have hex: "hex_digit (of_char (digit_char (unat c div 16))) = unat c div 16"
      "hex_digit (of_char (digit_char (unat c mod 16))) = unat c mod 16"
      by (simp_all add: hex_digit_char)
    have "json_rest (json_char c @ rest) =
        map_option (apfst (Cons (of_nat (16 * (unat c div 16) + unat c mod 16)))) (json_rest rest)"
      using False True by (simp add: json_char_def bytes_def show_hex4_def hex del: of_nat_add)
    then show ?thesis by (simp only: hex_value)
  next
    case no: False
    with False show ?thesis by (simp add: json_char_def)
  qed
qed

lemma json_rest_escaped: "json_rest (concat (map json_char s) @ 34 # rest) = Some (s, rest)"
  by (induction s) (simp_all add: json_rest_char)

lemma digit_char_printable: "n < 16 \<Longrightarrow> 32 \<le> (of_char (digit_char n) :: u8)"
  by (simp add: word_le_nat_alt digit_char_byte)

lemma json_char_printable: "b \<in> set (json_char c) \<Longrightarrow> 32 \<le> b"
proof -
  assume b: "b \<in> set (json_char c)"
  have "unat c div 16 < 16" "unat c mod 16 < 16"
    using unsigned_less [of c, where ?'a = nat] by simp_all
  with b show ?thesis
    by (auto simp: json_char_def bytes_def show_hex4_def digit_char_printable not_less split: if_splits)
qed

lemma json_escape_printable: "b \<in> set (json_escape s) \<Longrightarrow> 32 \<le> b"
  by (auto simp: json_escape_def dest: json_char_printable)

section \<open>Numbers in the output and on the command line\<close>

lemma digit_val_char: "d < 16 \<Longrightarrow> digit_val (digit_char d) = d"
  by (simp add: digit_val_def digit_char_code)

lemma show_nat_digits: "c \<in> set (show_nat n) \<Longrightarrow> \<exists>d < 10. c = digit_char d"
  unfolding show_nat_def by (rule show_base_digits) simp_all

lemma digits_val_show: "digits_val 10 (show_nat n) = n"
proof -
  have all: "takeWhile (\<lambda>c. digit_val c < 10) (show_nat n) = show_nat n"
    unfolding takeWhile_eq_all_conv using show_nat_digits digit_val_char by fastforce
  have "foldl (\<lambda>v c. v * 10 + digit_val c) 0 (show_base 10 n) = n"
  proof (induction n rule: less_induct)
    case (less n)
    then show ?case
      by (cases "n < 10") (simp_all add: show_base.simps [of 10 n] digit_val_char)
  qed
  then show ?thesis unfolding digits_val_def all by (simp add: show_nat_def)
qed

lemma show_nat_head:
  assumes "0 < n"
  obtains d cs where "0 < d" and "d < 10" and "show_nat n = digit_char d # cs"
  using assms unfolding show_nat_def
proof (induction n arbitrary: thesis rule: less_induct)
  case (less n)
  show ?case
  proof (cases "n < 10")
    case True
    with less.prems show ?thesis by (auto simp: show_base.simps [of 10 n])
  next
    case False
    then have "n div 10 < n" "0 < n div 10" by auto
    from less.IH [OF this(1) _ this(2)] obtain d cs where
      "0 < d" "d < 10" "show_base 10 (n div 10) = digit_char d # cs"
      by blast
    with False less.prems(1) show ?thesis by (simp add: show_base.simps [of 10 n])
  qed
qed

lemma digit_char_cases:
  assumes "0 < d" and "d < 10"
  shows "digit_char d \<noteq> CHR ''0''" and "digit_char d \<noteq> CHR ''-''" and "digit_char d \<noteq> CHR ''+''"
    and "\<not> isspace (digit_char d)"
proof -
  have code: "(of_char (digit_char d) :: nat) = 48 + d" using assms by (simp add: digit_char_code)
  have codes: "(of_char (CHR ''0'') :: nat) = 48" "(of_char (CHR ''-'') :: nat) = 45"
    "(of_char (CHR ''+'') :: nat) = 43"
    by simp_all
  show "digit_char d \<noteq> CHR ''0''" using code codes assms by auto
  show "digit_char d \<noteq> CHR ''-''" using code codes assms by auto
  show "digit_char d \<noteq> CHR ''+''" using code codes assms by auto
  show "\<not> isspace (digit_char d)" using code assms by (simp add: isspace_def)
qed

lemma base_split_plain: "c \<noteq> CHR ''0'' \<Longrightarrow> base_split 0 (c # cs) = (10, c # cs)"
  by (auto simp: base_split_def split: list.splits)

lemma strtoull_show_nat: "strtoull (show_nat n) 0 = (if n < 2 ^ 64 then of_nat n else ULLONG_MAX)"
proof (cases "n = 0")
  case True
  then show ?thesis
    by (simp add: show_nat_def show_base.simps strtoull_def digit_char_def isspace_def base_split_def
        digits_val_def digit_val_def)
next
  case False
  then obtain d cs where d: "0 < d" "d < 10" and s: "show_nat n = digit_char d # cs"
    using show_nat_head by blast
  have "sign_split (dropWhile isspace (show_nat n)) = (False, show_nat n)"
    using digit_char_cases [OF d] by (simp add: s)
  moreover have "base_split 0 (show_nat n) = (10, show_nat n)"
    using digit_char_cases [OF d] by (simp add: s base_split_plain)
  ultimately show ?thesis
    by (simp add: strtoull_def digits_val_show Let_def)
qed

section \<open>The loop over the stream\<close>

abbreviation is_done :: "pg_event_t \<Rightarrow> bool" where
  "is_done ev \<equiv> ev_kind ev = kind_code PG_EV_DONE"

text \<open>The lines printed for a list of events.\<close>

definition prints :: "bool \<Rightarrow> (u64 \<Rightarrow> u8 list) \<Rightarrow> pg_event_t list \<Rightarrow> u8 list list \<Rightarrow> bool" where
  "prints json secs evs lines \<longleftrightarrow> list_all2 (\<lambda>ev l. print_event json secs ev = Some l) evs lines"

lemma prints_Cons:
  "prints json secs (e # evs) ls \<longleftrightarrow> (\<exists>l ls'. ls = l # ls' \<and> print_event json secs e = Some l \<and> prints json secs evs ls')"
  by (auto simp: prints_def list_all2_Cons1)

lemma print_event_total: "strings_ok ev \<Longrightarrow> \<exists>l. print_event json secs ev = Some l"
  by (auto simp: print_event_def json_line_def text_line_def strings_ok_def cstr_def)

lemma prints_total: "\<forall>ev \<in> set evs. strings_ok ev \<Longrightarrow> \<exists>ls. prints json secs evs ls"
proof (induction evs)
  case Nil
  then show ?case by (auto simp: prints_def)
next
  case (Cons e evs)
  then show ?case using print_event_total [of e json secs] by (auto simp: prints_Cons)
qed

lemma event_loop_event:
  assumes "0 \<le> event_fd h" and "event_wf e" and "header_ok e" and "fair_to (256 + m) ans"
    and "print_event json secs e = Some l"
  obtains ans' where "fair_to m ans'"
    and "event_loop h json secs (encode_event e @ rest) ans =
      (if is_done e then Some (True, l, rest, ans')
       else map_option (\<lambda>(saw, out, r). (saw, l @ out, r)) (event_loop h json secs rest ans'))"
proof -
  from pg_run_poll_event [OF assms(1-4), of rest] obtain ans' where "fair_to m ans'"
    and "pg_run_poll (Some h) True (-1) 0 (encode_event e @ rest) ans = Some (1, encode_event e, rest, ans')" .
  then have "event_loop h json secs (encode_event e @ rest) ans =
      (if is_done e then Some (True, l, rest, ans')
       else map_option (\<lambda>(saw, out, r). (saw, l @ out, r)) (event_loop h json secs rest ans'))"
    using assms(2,5)
    by (subst event_loop.simps) (auto simp: decode_encode_event Let_def split: option.split)
  with \<open>fair_to m ans'\<close> show ?thesis by (rule that)
qed

lemma event_loop_events:
  assumes "0 \<le> event_fd h" and "\<forall>e \<in> set evs. event_wf e \<and> header_ok e \<and> \<not> is_done e"
    and "fair_to (256 * length evs + m) ans" and "prints json secs evs ls"
  obtains ans' where "fair_to m ans'"
    and "event_loop h json secs (concat (map encode_event evs) @ rest) ans =
      map_option (\<lambda>(saw, out, r). (saw, concat ls @ out, r)) (event_loop h json secs rest ans')"
  using assms(2-4)
proof (induction evs arbitrary: ans ls thesis)
  case Nil
  from Nil.prems(1) [of ans] Nil.prems(3,4) show ?case by (simp add: prints_def option.map_ident)
next
  case (Cons e evs)
  obtain l ls' where ls: "ls = l # ls'" "print_event json secs e = Some l" "prints json secs evs ls'"
    using Cons.prems(4) by (auto simp: prints_Cons)
  have "fair_to (256 + (256 * length evs + m)) ans" using Cons.prems(3) by (simp add: ac_simps)
  note fair = this
  have e: "event_wf e" "header_ok e" "\<not> is_done e" using Cons.prems(2) by simp_all
  let ?rest = "concat (map encode_event evs) @ rest"
  from event_loop_event [OF assms(1) e(1,2) fair ls(2), of ?rest] obtain ans1 where
    ans1: "fair_to (256 * length evs + m) ans1"
      "event_loop h json secs (encode_event e @ ?rest) ans =
        (if is_done e then Some (True, l, ?rest, ans1)
         else map_option (\<lambda>(saw, out, r). (saw, l @ out, r)) (event_loop h json secs ?rest ans1))" .
  from Cons.IH [OF _ _ ans1(1) ls(3)] Cons.prems(2) obtain ans' where "fair_to m ans'"
      "event_loop h json secs (concat (map encode_event evs) @ rest) ans1 =
        map_option (\<lambda>(saw, out, r). (saw, concat ls' @ out, r)) (event_loop h json secs rest ans')"
    by auto
  with ans1(2) e(3) Cons.prems(1) ls(1) show ?case
    by (simp add: option.map_comp comp_def case_prod_beta)
qed

lemma event_loop_end:
  assumes "0 \<le> event_fd h" and "length tail < EVENT_SIZE" and "fair_to (length tail + 1) ans"
  obtains ans' where "event_loop h json secs tail ans = Some (False, [], [], ans')"
proof -
  from pg_run_poll_end [OF assms] obtain ans' where
    "pg_run_poll (Some h) True (-1) 0 tail ans = Some (if tail = [] then 0 else -1, tail, [], ans')" .
  then have "event_loop h json secs tail ans = Some (False, [], [], ans')"
    by (subst event_loop.simps) simp
  then show ?thesis by (rule that)
qed

lemma concat_no_newline: "10 \<notin> set (json_escape s)"
  using json_escape_printable [of 10 s] by auto

lemma show_nat_bytes: "b \<in> set (bytes (show_nat n)) \<Longrightarrow> 48 \<le> b"
proof -
  assume "b \<in> set (bytes (show_nat n))"
  then obtain d where "d < 10" "b = of_char (digit_char d)"
    using show_nat_digits by (auto simp: bytes_def)
  then show ?thesis by (simp add: word_le_nat_alt digit_char_byte)
qed

lemma show_nat_no_newline: "10 \<notin> set (bytes (show_nat n))"
  using show_nat_bytes [of 10 n] by auto

lemma show_int_no_newline: "10 \<notin> set (bytes (show_int i))"
  using show_nat_no_newline by (auto simp: show_int_def bytes_def)

section \<open>Properties\<close>

text \<open>
  C24: escaping is faithful. Whatever bytes a key or a text holds, a JSON reader gets exactly
  these bytes back from the string that is printed and stops where it ends, and nothing below
  a blank is ever printed inside it.
\<close>

theorem json_escape_roundtrip:
  "json_string (json_escape s @ rest) = Some (s, rest) \<and> list_all ((\<le>) 32) (json_escape s)"
  using json_escape_printable by (auto simp: list_all_iff) (simp add: json_escape_def json_rest_escaped)

text \<open>
  an event is one line of JSON. Every line the program prints for an event ends in the only
  newline it contains, so no text a scenario logs can forge a second record; and an event whose
  strings are terminated, as those of the helpers are, always has a line.
\<close>

theorem json_line_is_one_line:
  assumes "json_line ev = Some l"
  shows "\<exists>body. l = body @ newline \<and> 10 \<notin> set body \<and> strings_ok ev"
proof -
  from assms obtain key tx where k: "cstr (ev_key ev) = Some key" "cstr (ev_text ev) = Some tx"
    by (auto simp: json_line_def bind_eq_Some_conv)
  have ok: "strings_ok ev"
    using k by (auto simp: strings_ok_def cstr_def split: if_splits)
  define parts where "parts =
    [bytes (''{'' @ quote @ ''kind'' @ quote @ '':''), json_escape (bytes (pg_event_kind_name (ev_kind ev))),
     bytes ('','' @ quote @ ''ts_ns'' @ quote @ '':''), bytes (show_nat (unat (ev_ts_ns ev))),
     bytes ('','' @ quote @ ''thread'' @ quote @ '':''), bytes (show_nat (unat (ev_thread_tag ev))),
     bytes ('','' @ quote @ ''key'' @ quote @ '':''), json_escape key,
     bytes ('','' @ quote @ ''num'' @ quote @ '':''), bytes (show_int (sint (ev_num ev))),
     bytes ('','' @ quote @ ''text'' @ quote @ '':''), json_escape tx, bytes ''}'']"
  have "l = concat parts @ newline"
    using assms k by (simp add: json_line_def parts_def bytes_def)
  moreover have "\<forall>p \<in> set parts. 10 \<notin> set p"
    unfolding parts_def
    by (simp only: list.set ball_simps concat_no_newline show_nat_no_newline show_int_no_newline)
      (simp add: bytes_def quote_def)
  ultimately have body: "l = concat parts @ newline" "10 \<notin> set (concat parts)" by auto
  with ok show ?thesis by blast
qed

theorem json_line_is_one_line_witness:
  "\<exists>l body. json_line (crash_event SIGSEGV) = Some l \<and> l = body @ newline \<and> 10 \<notin> set body"
proof -
  have "\<exists>l. json_line (crash_event SIGSEGV) = Some l"
    using crash_event_reads [of SIGSEGV]
    by (simp add: json_line_def crash_event_def blank_event_def cstr_def PG_EVENT_KEY_LEN_def Let_def
        split: prod.splits)
  then obtain l where l: "json_line (crash_event SIGSEGV) = Some l" ..
  from json_line_is_one_line [OF l] l show ?thesis by auto
qed

text \<open>
  a seed is read as it is written. The decimal form of every 64-bit seed given to
  \<open>--seed\<close> is taken exactly, larger numbers saturate, and the options after it are still
  parsed; a run without other arguments keeps all its defaults.
\<close>

theorem seed_argument_roundtrip:
  "parse_args (''--seed'' # show_nat n # rest) opt =
     parse_args rest (opt\<lparr>o_seed := if n < 2 ^ 64 then of_nat n else ULLONG_MAX\<rparr>)
   \<and> parse_args [] opt = Inr opt"
  by (simp add: strtoull_show_nat)

text \<open>The lines of a whole run.\<close>

lemma headless_lines:
  assumes "pg_registry_find (Some name) g = Some s" and "pw_pipe w = Some (rd, wr)" and "0 \<le> rd"
    and "0 < pw_fork w" and "pw_stream w = concat (map encode_event (evs @ [dn])) @ junk"
    and "\<forall>e \<in> set (evs @ [dn]). event_wf e \<and> header_ok e \<and> strings_ok e"
    and "\<forall>e \<in> set evs. \<not> is_done e" and "is_done dn"
    and "fair_to (256 * (length evs + 1)) (pw_reads w)" and "pw_waits w = Reaped st # later"
  shows "\<exists>lines. run_headless g name seed json env secs w = Some (0, concat lines, [])
    \<and> list_all2 (\<lambda>ev l. print_event json secs ev = Some l) (evs @ [dn]) lines"
proof -
  define h where "h = \<lparr>child_pid = pw_fork w, event_fd = rd, ctrl_fd = -1, h_seed = seed\<rparr>"
  have start: "pg_run_start (Some s) seed True env (pw_pipe w) (pw_fork w) =
      Parent 0 None (Some h) [SysOpen rd, SysOpen wr, SysClose wr]"
    using assms(2,4) by (simp add: pg_run_start_def h_def)
  have fd: "0 \<le> event_fd h" using assms(3) by (simp add: h_def)
  obtain ls where ls: "prints json secs evs ls" using prints_total [of evs json secs] assms(6) by auto
  obtain l where l: "print_event json secs dn = Some l"
    using print_event_total [of dn json secs] assms(6) by auto
  have "\<forall>e \<in> set evs. event_wf e \<and> header_ok e \<and> \<not> is_done e" using assms(6,7) by simp
  from event_loop_events [OF fd this _ ls, of 256 "pw_reads w" "encode_event dn @ junk"] assms(9)
  obtain ans1 where ans1: "fair_to 256 ans1"
      "event_loop h json secs (pw_stream w) (pw_reads w) =
        map_option (\<lambda>(saw, out, r). (saw, concat ls @ out, r))
          (event_loop h json secs (encode_event dn @ junk) ans1)"
    using assms(5) by (auto simp: add.commute)
  from event_loop_event [OF fd _ _ _ l, of 0 ans1 junk] ans1(1) assms(6,8) obtain ans2 where
    "event_loop h json secs (encode_event dn @ junk) ans1 = Some (True, l, junk, ans2)"
    by auto
  with ans1(2) have loop: "event_loop h json secs (pw_stream w) (pw_reads w) =
      Some (True, concat ls @ l, junk, ans2)" by simp
  obtain h' where reap: "pg_run_reap (Some h) (pw_waits w) = Some (0, Some st, h', [SysClose rd])"
    using assms(3,4,10) by (simp add: pg_run_reap_def h_def)
  have "run_headless g name seed json env secs w = Some (0, concat (ls @ [l]), [])"
    using assms(1) start loop reap by (simp add: run_headless_def)
  moreover have "list_all2 (\<lambda>ev l. print_event json secs ev = Some l) (evs @ [dn]) (ls @ [l])"
    using ls l by (simp add: prints_def list_all2_appendI)
  ultimately show ?thesis by blast
qed

text \<open>
  a headless run shows the whole run. When the child's stream is a list of events followed by
  \<open>PG_EV_DONE\<close>, in whatever pieces it is read, the program prints one line for each of them in
  order, \<open>PG_EV_DONE\<close> included, nothing of what may come behind, no diagnostic, and
  exits with 0.
\<close>

theorem headless_prints_run:
  assumes "pg_registry_find (Some name) g = Some s" and "pw_pipe w = Some (rd, wr)" and "0 \<le> rd"
    and "0 < pw_fork w" and "pw_stream w = concat (map encode_event (evs @ [dn])) @ junk"
    and "\<forall>e \<in> set (evs @ [dn]). event_wf e \<and> header_ok e \<and> strings_ok e"
    and "\<forall>e \<in> set evs. \<not> is_done e" and "is_done dn"
    and "fair_to (256 * (length evs + 1)) (pw_reads w)" and "pw_waits w = Reaped st # later"
  shows "\<exists>lines. run_headless g name seed json env secs w = Some (0, concat lines, [])
    \<and> list_all2 (\<lambda>ev l. print_event json secs ev = Some l) (evs @ [dn]) lines"
  using assms by (rule headless_lines)

definition demo_world :: "u8 list \<Rightarrow> wait_status \<Rightarrow> parent_world" where
  "demo_world str st = \<lparr>pw_pipe = Some (3, 4), pw_fork = 100, pw_stream = str,
     pw_reads = replicate 1100 (Moves 50), pw_waits = [Reaped st]\<rparr>"

definition demo_done :: pg_event_t where
  "demo_done = (blank_event PG_EV_DONE)\<lparr>ev_magic := PG_EVENT_MAGIC, ev_version := PG_EVENT_VERSION\<rparr>"

lemma demo_done_ok: "event_wf demo_done \<and> header_ok demo_done \<and> strings_ok demo_done \<and> is_done demo_done"
  by (simp add: demo_done_def event_wf_def header_ok_def strings_ok_def blank_event_def event_consts)

lemma crash_event_ok: "event_wf (crash_event sig) \<and> header_ok (crash_event sig) \<and> strings_ok (crash_event sig)
    \<and> \<not> is_done (crash_event sig)"
proof -
  have "0 \<in> set (ev_text (crash_event sig))"
    using signal_name_short [of sig] by (simp add: crash_event_text)
  moreover have "0 \<in> set (ev_key (crash_event sig))"
    by (simp add: crash_event_def blank_event_def PG_EVENT_KEY_LEN_def Let_def split: prod.splits)
  ultimately show ?thesis
    by (simp add: crash_event_wf crash_event_header crash_event_kind strings_ok_def)
qed

theorem headless_prints_run_witness:
  "\<exists>lines. run_headless [demo_scenario ''x''] ''x'' 42 True None (\<lambda>_. [])
      (demo_world (encode_event demo_done) (WExited 0)) = Some (0, concat lines, [])
    \<and> length lines = 1"
  using headless_prints_run [of "''x''" "[demo_scenario ''x'']" "demo_scenario ''x''"
      "demo_world (encode_event demo_done) (WExited 0)" 3 4 "[]" demo_done "[]" "WExited 0" "[]"
      42 True None "\<lambda>_. []"] demo_done_ok
  by (fastforce simp: demo_world_def pg_registry_find_def demo_scenario_def fair_to_def
      dest: list_all2_lengthD)

text \<open>
  C39: a headless run shows how a run broke off. When the stream ends without \<open>PG_EV_DONE\<close>, even
  in the middle of a record, every complete event is still printed, and standard error says
  which signal or exit status ended the child; the exit status of the program is 0 all the same.
\<close>

theorem headless_reports_death:
  assumes "pg_registry_find (Some name) g = Some s" and "pw_pipe w = Some (rd, wr)" and "0 \<le> rd"
    and "0 < pw_fork w" and "pw_stream w = concat (map encode_event evs) @ torn"
    and "length torn < EVENT_SIZE"
    and "\<forall>e \<in> set evs. event_wf e \<and> header_ok e \<and> strings_ok e \<and> \<not> is_done e"
    and "fair_to (256 * length evs + length torn + 1) (pw_reads w)" and "pw_waits w = Reaped st # later"
  shows "\<exists>lines. run_headless g name seed json env secs w = Some (0, concat lines,
        (case st of
           WSignaled sig \<Rightarrow> bytes (''child died from signal '' @ show_nat (signal_number sig)) @ newline
         | WExited n \<Rightarrow> bytes (''child exited '' @ show_int n @ '' before PG_EV_DONE'') @ newline))
    \<and> list_all2 (\<lambda>ev l. print_event json secs ev = Some l) evs lines"
proof -
  define h where "h = \<lparr>child_pid = pw_fork w, event_fd = rd, ctrl_fd = -1, h_seed = seed\<rparr>"
  have start: "pg_run_start (Some s) seed True env (pw_pipe w) (pw_fork w) =
      Parent 0 None (Some h) [SysOpen rd, SysOpen wr, SysClose wr]"
    using assms(2,4) by (simp add: pg_run_start_def h_def)
  have fd: "0 \<le> event_fd h" using assms(3) by (simp add: h_def)
  obtain ls where ls: "prints json secs evs ls" using prints_total [of evs json secs] assms(7) by auto
  have "\<forall>e \<in> set evs. event_wf e \<and> header_ok e \<and> \<not> is_done e" using assms(7) by simp
  from event_loop_events [OF fd this _ ls, of "length torn + 1" "pw_reads w" torn] assms(5,8)
  obtain ans1 where ans1: "fair_to (length torn + 1) ans1"
      "event_loop h json secs (pw_stream w) (pw_reads w) =
        map_option (\<lambda>(saw, out, r). (saw, concat ls @ out, r)) (event_loop h json secs torn ans1)"
    by auto
  from event_loop_end [OF fd assms(6) ans1(1), of json secs] obtain ans2 where
    "event_loop h json secs torn ans1 = Some (False, [], [], ans2)" .
  with ans1(2) have loop: "event_loop h json secs (pw_stream w) (pw_reads w) =
      Some (False, concat ls, [], ans2)" by simp
  obtain h' where reap: "pg_run_reap (Some h) (pw_waits w) = Some (0, Some st, h', [SysClose rd])"
    using assms(3,4,9) by (simp add: pg_run_reap_def h_def)
  have "run_headless g name seed json env secs w = Some (0, concat ls,
        (case st of
           WSignaled sig \<Rightarrow> bytes (''child died from signal '' @ show_nat (signal_number sig)) @ newline
         | WExited n \<Rightarrow> bytes (''child exited '' @ show_int n @ '' before PG_EV_DONE'') @ newline))"
    using assms(1) start loop reap by (simp add: run_headless_def split: wait_status.splits)
  with ls show ?thesis by (auto simp: prints_def)
qed

theorem headless_reports_death_witness:
  "\<exists>lines. run_headless [demo_scenario ''x''] ''x'' 42 True None (\<lambda>_. [])
      (demo_world (encode_event (crash_event SIGSEGV)) (WSignaled SIGSEGV))
        = Some (0, concat lines, bytes ''child died from signal 11'' @ newline)
    \<and> length lines = 1"
proof -
  let ?w = "demo_world (encode_event (crash_event SIGSEGV)) (WSignaled SIGSEGV)"
  have msg: "''child died from signal '' @ show_nat (signal_number SIGSEGV) = ''child died from signal 11''"
    by (simp add: show_nat_def show_base.simps digit_char_def char_of_def bit_Suc_0_iff)
  have find: "pg_registry_find (Some ''x'') [demo_scenario ''x''] = Some (demo_scenario ''x'')"
    by (simp add: pg_registry_find_def demo_scenario_def)
  have world: "pw_pipe ?w = Some (3, 4)" "pw_fork ?w = 100" "pw_waits ?w = [Reaped (WSignaled SIGSEGV)]"
    "pw_reads ?w = replicate 1100 (Moves 50)"
    "pw_stream ?w = concat (map encode_event [crash_event SIGSEGV]) @ []"
    by (simp_all add: demo_world_def)
  have "(0 :: int) \<le> 3" "0 < pw_fork ?w" "length ([] :: u8 list) < EVENT_SIZE"
    "\<forall>e \<in> set [crash_event SIGSEGV]. event_wf e \<and> header_ok e \<and> strings_ok e \<and> \<not> is_done e"
    "fair_to (256 * length [crash_event SIGSEGV] + length ([] :: u8 list) + 1) (pw_reads ?w)"
    using crash_event_ok [of SIGSEGV] by (simp_all add: world(2,4) EVENT_SIZE_def fair_to_def)
  from headless_reports_death [OF find world(1) this(1,2) world(5) this(3-5) world(3),
      where seed = 42 and json = True and env = None and secs = "\<lambda>_. []"]
  obtain lines where "run_headless [demo_scenario ''x''] ''x'' 42 True None (\<lambda>_. []) ?w =
      Some (0, concat lines, bytes (''child died from signal '' @ show_nat (signal_number SIGSEGV)) @ newline)"
    and ll: "list_all2 (\<lambda>ev l. print_event True (\<lambda>_. []) ev = Some l) [crash_event SIGSEGV] lines"
    unfolding wait_status.case by blast
  moreover have "length lines = 1" using list_all2_lengthD [OF ll] by simp
  ultimately show ?thesis unfolding msg by blast
qed

end
