(* ===== verification/Tui_Panes.thy ===== *)
theory Tui_Panes
  imports Headless "HOL-Library.Signed_Division"
begin

text \<open>
  What the terminal front end of \<open>src/tui/tui.c\<close> keeps and draws: the ring of log lines, the
  table of statistics, the panes, the overlay and the layout. ncurses is not modelled: a pane is
  the list of strings printed into it, each with its position, color pair and attribute, in the
  order of the calls. Window sizes are arguments, as \<open>getmaxyx\<close> returns them.
\<close>

section \<open>Styles\<close>

datatype attr = A_NORMAL | A_BOLD

type_synonym style_t = "nat \<times> attr"

definition CP_NORMAL :: nat where "CP_NORMAL = 1"
definition CP_CHAOS :: nat where "CP_CHAOS = 2"
definition CP_FAULT :: nat where "CP_FAULT = 3"
definition CP_HEADER :: nat where "CP_HEADER = 4"
definition CP_DIM :: nat where "CP_DIM = 5"
definition CP_SELECT :: nat where "CP_SELECT = 6"
definition CP_BAR :: nat where "CP_BAR = 7"
definition CP_MATCH :: nat where "CP_MATCH = 8"
definition CP_MISS :: nat where "CP_MISS = 9"

text \<open>A 32-bit kind that is no enumerator takes the \<open>default\<close> branch.\<close>

definition style_for :: "pg_event_kind_t option \<Rightarrow> style_t" where
  "style_for k =
     (case k of
        Some PG_EV_LOG \<Rightarrow> (CP_NORMAL, A_NORMAL)
      | Some PG_EV_PHASE \<Rightarrow> (CP_HEADER, A_BOLD)
      | Some PG_EV_COUNTER \<Rightarrow> (CP_DIM, A_NORMAL)
      | Some PG_EV_GAUGE \<Rightarrow> (CP_DIM, A_NORMAL)
      | Some PG_EV_EXPECT \<Rightarrow> (CP_CHAOS, A_NORMAL)
      | Some PG_EV_ACTUAL \<Rightarrow> (CP_CHAOS, A_BOLD)
      | Some PG_EV_SUT_FAULT \<Rightarrow> (CP_FAULT, A_BOLD)
      | Some PG_EV_CHILD_CRASH \<Rightarrow> (CP_FAULT, A_BOLD)
      | Some PG_EV_WATCHDOG \<Rightarrow> (CP_FAULT, A_BOLD)
      | Some PG_EV_DONE \<Rightarrow> (CP_NORMAL, A_BOLD)
      | None \<Rightarrow> (CP_NORMAL, A_NORMAL))"

definition category_color :: "pg_category_t \<Rightarrow> nat" where
  "category_color c =
     (case c of
        PG_CAT_CONCURRENCY \<Rightarrow> CP_CHAOS
      | PG_CAT_MEMORY \<Rightarrow> CP_FAULT
      | PG_CAT_NETWORK \<Rightarrow> CP_HEADER
      | PG_CAT_TIMEIO \<Rightarrow> CP_NORMAL
      | PG_CAT_COMPOUND \<Rightarrow> CP_MATCH
      | _ \<Rightarrow> CP_NORMAL)"

section \<open>Printing\<close>

text \<open>One call of \<open>mvwprintw\<close>: row, column, the formatted bytes, the style in force.\<close>

datatype put = Put (put_row: int) (put_col: int) (put_text: "u8 list") (put_style: style_t)

text \<open>\<open>%.*s\<close> and \<open>%-*.*s\<close> with width and precision \<open>w\<close>; a negative precision is none.\<close>

definition prec :: "int \<Rightarrow> u8 list \<Rightarrow> u8 list" where
  "prec w s = (if w \<ge> 0 then take (nat w) s else s)"

definition fit :: "int \<Rightarrow> u8 list \<Rightarrow> u8 list" where
  "fit w s = pad_right (nat \<bar>w\<bar>) (prec w s)"

definition show_plus :: "int \<Rightarrow> string" where
  "show_plus i = (if i < 0 then show_int i else CHR ''+'' # show_int i)"

section \<open>The log\<close>

definition LOG_LINES :: nat where "LOG_LINES = 512"
definition LOG_LINE_LEN :: nat where "LOG_LINE_LEN = 256"

text \<open>The text of an entry is the string the array holds.\<close>

record log_entry_t =
  le_text :: "u8 list"
  le_cp :: nat
  le_attr :: attr

record log_t =
  g_log :: "log_entry_t list"
  g_log_count :: u32

definition init_log :: log_t where
  "init_log = \<lparr>g_log = replicate LOG_LINES \<lparr>le_text = [], le_cp = 0, le_attr = A_NORMAL\<rparr>, g_log_count = 0\<rparr>"

definition log_clear :: "log_t \<Rightarrow> log_t" where
  "log_clear l = l\<lparr>g_log_count := 0\<rparr>"

definition log_entry :: "style_t \<Rightarrow> u8 list \<Rightarrow> log_entry_t" where
  "log_entry st s = \<lparr>le_text = take (LOG_LINE_LEN - 1) s, le_cp = fst st, le_attr = snd st\<rparr>"

definition log_pushf :: "style_t \<Rightarrow> u8 list \<Rightarrow> log_t \<Rightarrow> log_t" where
  "log_pushf st s l =
     l\<lparr>g_log := (g_log l)[unat (g_log_count l mod of_nat LOG_LINES) := log_entry st s],
       g_log_count := g_log_count l + 1\<rparr>"

text \<open>The entries the loop of \<open>draw_log\<close> visits, for a pane of \<open>viewable\<close> lines.\<close>

definition visible :: "log_t \<Rightarrow> nat \<Rightarrow> log_entry_t list" where
  "visible l viewable =
     (let start = (if g_log_count l > of_nat viewable then g_log_count l - of_nat viewable else 0)
      in map (\<lambda>i. g_log l ! unat ((start + of_nat i) mod of_nat LOG_LINES))
           (takeWhile (\<lambda>i. start + of_nat i < g_log_count l) [0..<viewable]))"

definition draw_log :: "int \<Rightarrow> int \<Rightarrow> log_t \<Rightarrow> put list" where
  "draw_log rows cols l =
     (let header = [Put 0 2 (bytes '' Event Log '') (CP_HEADER, A_BOLD)];
          viewable = rows - 2
      in if viewable < 1 then header
         else header @
           map (\<lambda>(i, e). Put (1 + int i) 1 (fit (cols - 2) (le_text e)) (le_cp e, le_attr e))
             (enumerate 0 (visible l (nat viewable))))"

section \<open>The statistics\<close>

definition STATS_MAX :: nat where "STATS_MAX = 64"

record stat_t =
  st_key :: "u8 list"
  st_value :: i64
  st_min :: i64
  st_max :: i64
  st_touched :: bool
  st_kind :: pg_event_kind_t

text \<open>\<open>g_stats\<close> and \<open>g_stats_n\<close>: the used part of the array.\<close>

type_synonym stats = "stat_t list"

definition stats_clear :: "stats \<Rightarrow> stats" where
  "stats_clear g = []"

definition stat_touch :: "i64 \<Rightarrow> stat_t \<Rightarrow> stat_t" where
  "stat_touch v s =
     (let s = (if \<not> st_touched s \<or> sint v < sint (st_min s) then s\<lparr>st_min := v\<rparr> else s);
          s = (if \<not> st_touched s \<or> sint v > sint (st_max s) then s\<lparr>st_max := v\<rparr> else s)
      in s\<lparr>st_touched := True\<rparr>)"

text \<open>
  The entry that is found is updated in place; \<open>None\<close> when there is none. A sum of a counter that
  leaves the range of \<open>int64_t\<close> is undefined in C; it wraps around here.
\<close>

fun stat_found :: "u8 list \<Rightarrow> i64 \<Rightarrow> pg_event_kind_t \<Rightarrow> bool \<Rightarrow> stats \<Rightarrow> stats option" where
  "stat_found key v kind delta [] = None"
| "stat_found key v kind delta (s # g) =
     (if st_kind s = kind \<and> st_key s = key
      then (let s = s\<lparr>st_value := (if delta then st_value s + v else v)\<rparr>
            in Some ((if kind = PG_EV_GAUGE then stat_touch v s else s) # g))
      else map_option (Cons s) (stat_found key v kind delta g))"

text \<open>
  A new entry. The gauge fields of the other kinds keep what was in the array, and nothing reads
  them; they are zero here.
\<close>

definition stat_new :: "u8 list \<Rightarrow> i64 \<Rightarrow> pg_event_kind_t \<Rightarrow> stat_t" where
  "stat_new key v kind =
     (let g = (kind = PG_EV_GAUGE)
      in \<lparr>st_key = take (PG_EVENT_KEY_LEN - 1) key, st_value = v, st_min = (if g then v else 0),
          st_max = (if g then v else 0), st_touched = g, st_kind = kind\<rparr>)"

definition stat_upsert :: "u8 list \<Rightarrow> i64 \<Rightarrow> pg_event_kind_t \<Rightarrow> bool \<Rightarrow> stats \<Rightarrow> stats" where
  "stat_upsert key v kind delta g =
     (case stat_found key v kind delta g of
        Some g' \<Rightarrow> g'
      | None \<Rightarrow> if length g < STATS_MAX then g @ [stat_new key v kind] else g)"

text \<open>
  The loops of \<open>draw_stats\<close>: one row for every entry of interest as long as there is room above
  row \<open>lim\<close>. The next free row is returned.
\<close>

fun stat_rows :: "(stat_t \<Rightarrow> bool) \<Rightarrow> (int \<Rightarrow> stat_t \<Rightarrow> put list) \<Rightarrow> int \<Rightarrow> int \<Rightarrow> stats \<Rightarrow> put list \<times> int" where
  "stat_rows sel drw lim row [] = ([], row)"
| "stat_rows sel drw lim row (s # g) =
     (if row < lim
      then (if \<not> sel s then stat_rows sel drw lim row g
            else (let (ps, row') = stat_rows sel drw lim (row + 1) g in (drw row s @ ps, row')))
      else ([], row))"

definition counter_row :: "int \<Rightarrow> stat_t \<Rightarrow> put list" where
  "counter_row row s =
     [Put row 2 (pad_right 18 (st_key s) @ bytes ('' '' @ show_int (sint (st_value s)))) (0, A_NORMAL)]"

text \<open>\<open>cells n d w\<close> is \<open>(int)(frac * w)\<close> for the clamped double \<open>frac = n / d\<close>.\<close>

definition draw_bar :: "int \<Rightarrow> int \<Rightarrow> int \<Rightarrow> int \<Rightarrow> put list" where
  "draw_bar y x width cellcount =
     (let filled = (if cellcount > width then width else cellcount)
      in [Put y x (replicate (nat filled) (of_char CHR ''#'')) (CP_BAR, A_NORMAL),
          Put y (x + filled) (replicate (nat (width - filled)) (of_char CHR ''.'')) (CP_DIM, A_NORMAL)])"

definition gauge_row :: "(i64 \<Rightarrow> i64 \<Rightarrow> int \<Rightarrow> int) \<Rightarrow> int \<Rightarrow> int \<Rightarrow> stat_t \<Rightarrow> put list" where
  "gauge_row cells bar_width row s =
     (let v = st_value s;
          lo = st_min s;
          hi = st_max s;
          sp = hi - lo;
          cellcount = (if sint sp > 0 then cells (v - lo) sp bar_width else bar_width)
      in [Put row 1 (bytes '' '' @ fit 12 (st_key s) @ bytes '' '') (0, A_NORMAL)]
         @ draw_bar row (1 + 14) bar_width cellcount
         @ [Put row (1 + 14 + bar_width + 1) (bytes (show_int (sint v))) (0, A_NORMAL)])"

definition actual_of :: "stats \<Rightarrow> u8 list \<Rightarrow> i64 option" where
  "actual_of g key = map_option st_value (find (\<lambda>s. st_kind s = PG_EV_ACTUAL \<and> st_key s = key) g)"

definition diff_row :: "stats \<Rightarrow> int \<Rightarrow> stat_t \<Rightarrow> put list" where
  "diff_row g row s =
     (let e = st_value s
      in case actual_of g (st_key s) of
           Some act \<Rightarrow>
             [Put row 2 (pad_right 14 (st_key s) @ bytes (''  '' @ show_int (sint e) @ '' vs '' @ show_int (sint act)
                @ ''  ('' @ show_plus (sint (act - e)) @ '')''))
                (if e = act then CP_MATCH else CP_MISS, A_BOLD)]
         | None \<Rightarrow>
             [Put row 2 (pad_right 14 (st_key s) @ bytes (''  '' @ show_int (sint e) @ '' vs (pending)'')) (CP_DIM, A_NORMAL)])"

text \<open>One section: its title, its rows and an empty line, or nothing.\<close>

definition stat_section ::
    "string \<Rightarrow> bool \<Rightarrow> (stat_t \<Rightarrow> bool) \<Rightarrow> (int \<Rightarrow> stat_t \<Rightarrow> put list) \<Rightarrow> int \<Rightarrow> stats \<Rightarrow> int \<Rightarrow> put list \<times> int" where
  "stat_section title has sel drw lim g row =
     (if has \<and> row < lim
      then (let (ps, row') = stat_rows sel drw lim (row + 1) g
            in (Put row 1 (bytes title) (CP_HEADER, A_BOLD) # ps, if row' < lim then row' + 1 else row'))
      else ([], row))"

definition draw_stats :: "(i64 \<Rightarrow> i64 \<Rightarrow> int \<Rightarrow> int) \<Rightarrow> int \<Rightarrow> int \<Rightarrow> stats \<Rightarrow> put list" where
  "draw_stats cells rows cols g =
     (let lim = rows - 1;
          is = (\<lambda>k s. st_kind s = k);
          bar = cols - 14 - 12 - 4;
          bar = (if bar < 6 then 6 else bar);
          (cs, row) = stat_section ''COUNTERS'' (list_ex (is PG_EV_COUNTER) g) (is PG_EV_COUNTER) counter_row lim g 1;
          (gs, row) = stat_section ''GAUGES'' (list_ex (is PG_EV_GAUGE) g) (is PG_EV_GAUGE) (gauge_row cells bar) lim g row;
          (ds, row) = stat_section ''EXPECTED vs ACTUAL''
             (list_ex (\<lambda>s. is PG_EV_EXPECT s \<or> is PG_EV_ACTUAL s) g) (is PG_EV_EXPECT) (diff_row g) lim g row
      in Put 0 2 (bytes '' Stats '') (CP_HEADER, A_BOLD) # cs @ gs @ ds)"

section \<open>The other panes\<close>

definition draw_menu :: "int \<Rightarrow> 's pg_scenario_t list \<Rightarrow> nat \<Rightarrow> put list" where
  "draw_menu cols g_scens g_sel =
     (let w = cols - 4;
          top = 2;
          row_of = (\<lambda>(i, s).
            Put (top + int i) 2 (bytes '' '' @ fit (w - 1) (bytes (sc_title s)) @ bytes '' '')
              (if i = g_sel then (CP_SELECT, A_BOLD) else (category_color (sc_category s), A_NORMAL)))
      in [Put 0 2 (bytes '' Failure Playground '') (CP_HEADER, A_BOLD)]
         @ map row_of (enumerate 0 g_scens)
         @ (if length g_scens > 0
            then (let s = g_scens ! g_sel;
                      y = top + int (length g_scens) + 1
                  in [Put y 2 (fit w (bytes (sc_one_liner s))) (CP_DIM, A_NORMAL),
                      Put (y + 1) 2 (bytes ''expect: '' @ fit (w - 8) (bytes (sc_expected s))) (CP_DIM, A_NORMAL)])
            else []))"

definition draw_status :: "int \<Rightarrow> string \<Rightarrow> put list" where
  "draw_status cols s = [Put 0 1 (fit (cols - 2) (bytes s)) (CP_DIM, A_NORMAL)]"

section \<open>The overlay\<close>

text \<open>Height, width and position.\<close>

definition overlay_box :: "int \<Rightarrow> int \<Rightarrow> int \<times> int \<times> int \<times> int" where
  "overlay_box rows cols =
     (let oh = (if rows > 28 then 24 else if rows > 8 then rows - 4 else rows);
          ow = (if cols > 90 then 80 else if cols > 12 then cols - 8 else cols)
      in (oh, ow, (rows - oh) sdiv 2, (cols - ow) sdiv 2))"

text \<open>
  The inner loop over one line of \<open>len\<close> bytes at \<open>p\<close>: the rows printed, the next row, and
  what is left. The comparison with \<open>(size_t)wrap\<close> is unsigned.
\<close>

function wrap_loop :: "int \<Rightarrow> int \<Rightarrow> int \<Rightarrow> u8 list \<Rightarrow> put list \<times> int \<times> u8 list" where
  "wrap_loop wrap lim y p =
     (if uint (of_int wrap :: u64) < int (length p) \<and> y < lim
      then (let (ps, y', p') = wrap_loop wrap lim (y + 1) (drop (nat wrap) p)
            in (Put y 2 (prec wrap p) (0, A_NORMAL) # ps, y', p'))
      else ([], y, p))"
  by pat_completeness auto
termination
  by (relation "measure (\<lambda>(wrap, lim, y, p). nat (lim - y))") auto

declare wrap_loop.simps [simp del]

text \<open>The loop over the lines of the body.\<close>

function body_loop :: "int \<Rightarrow> int \<Rightarrow> int \<Rightarrow> u8 list \<Rightarrow> put list" where
  "body_loop wrap lim y p =
     (if p \<noteq> [] \<and> y < lim
      then (let para = takeWhile (\<lambda>c. c \<noteq> 10) p;
                later = drop (length para) p;
                (ps, y, rest) = wrap_loop wrap lim y para;
                (qs, y) = (if y < lim then ([Put y 2 rest (0, A_NORMAL)], y + 1) else ([], y))
            in ps @ qs @ (if later \<noteq> [] then body_loop wrap lim y (tl later) else []))
      else [])"
  by pat_completeness auto
termination
  by (relation "measure (\<lambda>(wrap, lim, y, p). length p)")
    (auto simp: less_diff_conv length_takeWhile_le split: if_splits intro: le_less_trans)

declare body_loop.simps [simp del]

definition no_lesson :: string where
  "no_lesson = ''(no lesson written for this scenario)''"

definition show_overlay :: "int \<Rightarrow> int \<Rightarrow> string option \<Rightarrow> string option \<Rightarrow> put list" where
  "show_overlay rows cols title body =
     (let (oh, ow, oy, ox) = overlay_box rows cols;
          p = (case body of Some b \<Rightarrow> if b \<noteq> [] then b else no_lesson | None \<Rightarrow> no_lesson)
      in [Put 0 2 (bytes ('' '' @ (case title of Some t \<Rightarrow> t | None \<Rightarrow> ''Lesson'') @ '' '')) (CP_HEADER, A_BOLD)]
         @ body_loop (ow - 4) (oh - 2) 2 (bytes p)
         @ [Put (oh - 2) 2 (bytes ''(press any key)'') (CP_DIM, A_NORMAL)])"

section \<open>The layout\<close>

record window =
  win_h :: int
  win_w :: int
  win_y :: int
  win_x :: int

record layout =
  win_menu :: window
  win_log :: window
  win_stats :: window
  win_status :: window

definition layout_windows :: "int \<Rightarrow> int \<Rightarrow> layout" where
  "layout_windows rows cols =
     (let status_h = 1;
          main_h = rows - status_h;
          menu_w = cols sdiv 3;
          menu_w = (if menu_w < 34 then 34 else menu_w);
          menu_w = (if menu_w > cols - 24 then cols - 24 else menu_w);
          menu_w = (if menu_w < 20 then 20 else menu_w);
          right_w = cols - menu_w;
          log_h = main_h * 2 sdiv 3;
          stats_h = main_h - log_h
      in \<lparr>win_menu = \<lparr>win_h = main_h, win_w = menu_w, win_y = 0, win_x = 0\<rparr>,
          win_log = \<lparr>win_h = log_h, win_w = right_w, win_y = 0, win_x = menu_w\<rparr>,
          win_stats = \<lparr>win_h = stats_h, win_w = right_w, win_y = log_h, win_x = menu_w\<rparr>,
          win_status = \<lparr>win_h = status_h, win_w = cols, win_y = main_h, win_x = 0\<rparr>\<rparr>)"

section \<open>The ring holds the last lines\<close>

text \<open>
  \<open>hist\<close> are the entries pushed since the log was cleared: the ring holds the last 512 of them.
\<close>

definition log_rep :: "log_t \<Rightarrow> log_entry_t list \<Rightarrow> bool" where
  "log_rep l hist \<longleftrightarrow> length (g_log l) = LOG_LINES \<and> length hist < 2 ^ 32
     \<and> g_log_count l = of_nat (length hist)
     \<and> (\<forall>i < length hist. length hist \<le> i + LOG_LINES \<longrightarrow> g_log l ! (i mod LOG_LINES) = hist ! i)"

lemma u32_of_nat: "n < 2 ^ 32 \<Longrightarrow> unat (of_nat n :: u32) = n"
  by (simp add: unat_of_nat)

lemma u32_mod_lines:
  assumes "n < 2 ^ 32"
  shows "unat ((of_nat n :: u32) mod of_nat LOG_LINES) = n mod LOG_LINES"
proof -
  have "unat (of_nat LOG_LINES :: u32) = LOG_LINES" by (simp add: LOG_LINES_def)
  then show ?thesis using u32_of_nat [OF assms] by (simp add: unat_mod)
qed

lemma log_rep_clear: "length (g_log l) = LOG_LINES \<Longrightarrow> log_rep (log_clear l) []"
  by (simp add: log_rep_def log_clear_def)

lemma log_rep_push:
  assumes "log_rep l hist" and "length hist + 1 < 2 ^ 32"
  shows "log_rep (log_pushf st s l) (hist @ [log_entry st s])"
proof -
  let ?n = "length hist"
  have rep: "length (g_log l) = LOG_LINES" "?n < 2 ^ 32" "g_log_count l = of_nat ?n"
    "\<And>i. i < ?n \<Longrightarrow> ?n \<le> i + LOG_LINES \<Longrightarrow> g_log l ! (i mod LOG_LINES) = hist ! i"
    using assms(1) by (simp_all add: log_rep_def)
  have slot: "unat (g_log_count l mod of_nat LOG_LINES) = ?n mod LOG_LINES"
    using u32_mod_lines [OF rep(2)] rep(3) by simp
  have "g_log (log_pushf st s l) ! (i mod LOG_LINES) = (hist @ [log_entry st s]) ! i"
    if "i < ?n + 1" "?n + 1 \<le> i + LOG_LINES" for i
  proof (cases "i = ?n")
    case True
    then show ?thesis using rep(1) slot by (simp add: log_pushf_def LOG_LINES_def)
  next
    case False
    with that have "i < ?n" "?n \<le> i + LOG_LINES" "?n - i < LOG_LINES" "0 < ?n - i" by auto
    moreover from this have "i mod LOG_LINES \<noteq> ?n mod LOG_LINES"
      using mod_eq_dvd_iff_nat [of i ?n LOG_LINES] by (auto dest: dvd_imp_le)
    ultimately show ?thesis using rep(1) slot rep(4) by (simp add: log_pushf_def nth_append)
  qed
  with rep assms(2) show ?thesis
    by (simp add: log_rep_def log_pushf_def)
qed

definition log_pushes :: "(style_t \<times> u8 list) list \<Rightarrow> log_t \<Rightarrow> log_t" where
  "log_pushes es l = fold (\<lambda>(st, s). log_pushf st s) es l"

lemma log_rep_pushes:
  assumes "log_rep l hist" and "length hist + length es < 2 ^ 32"
  shows "log_rep (log_pushes es l) (hist @ map (\<lambda>(st, s). log_entry st s) es)"
  using assms
proof (induction es arbitrary: l hist)
  case Nil
  then show ?case by (simp add: log_pushes_def)
next
  case (Cons e es)
  obtain st s where e: "e = (st, s)" by (cases e)
  from Cons.IH [of "log_pushf st s l" "hist @ [log_entry st s]"] log_rep_push [of l hist st s] Cons.prems
  show ?case by (simp add: log_pushes_def e)
qed

lemma visible_window:
  assumes "log_rep l hist" and "v < 2 ^ 32"
  defines "k \<equiv> length hist - v"
  shows "visible l v = map (\<lambda>i. g_log l ! ((k + i) mod LOG_LINES)) [0..<min v (length hist)]"
proof -
  let ?n = "length hist"
  have n: "?n < 2 ^ 32" and cnt: "g_log_count l = of_nat ?n" using assms(1) by (simp_all add: log_rep_def)
  have gt: "g_log_count l > of_nat v \<longleftrightarrow> v < ?n"
    using n assms(2) cnt by (simp add: word_less_nat_alt u32_of_nat)
  have start: "(if g_log_count l > of_nat v then g_log_count l - of_nat v else 0) = (of_nat k :: u32)"
    using gt cnt by (simp add: k_def of_nat_diff not_less)
  have small: "k + i < 2 ^ 32" if "i < v" for i using that n assms(2) by (simp add: k_def)
  have lt: "(of_nat k :: u32) + of_nat i < g_log_count l \<longleftrightarrow> k + i < ?n" if "i < v" for i
    using small [OF that] n cnt
    by (simp only: of_nat_add [symmetric] word_less_nat_alt u32_of_nat)
  have "takeWhile (\<lambda>i. (of_nat k :: u32) + of_nat i < g_log_count l) [0..<v] = takeWhile (\<lambda>i. k + i < ?n) [0..<v]"
    using lt by (intro takeWhile_cong) auto
  also have "\<dots> = [0..<min v ?n]"
  proof (cases "v \<le> ?n")
    case True
    then have "takeWhile (\<lambda>i. k + i < ?n) [0..<v] = [0..<v]"
      by (intro takeWhile_eq_all_conv [THEN iffD2]) (auto simp: k_def)
    with True show ?thesis by (simp add: min_absorb1)
  next
    case False
    then have "[0..<v] = [0..<?n] @ [?n..<v]"
      using upt_add_eq_append [of 0 ?n "v - ?n"] by simp
    moreover have "takeWhile (\<lambda>i. k + i < ?n) ([0..<?n] @ [?n..<v]) = [0..<?n]"
      using False by (simp add: k_def takeWhile_append upt_conv_Cons)
    ultimately show ?thesis using False by (simp add: min_absorb2)
  qed
  finally have tw: "takeWhile (\<lambda>i. (of_nat k :: u32) + of_nat i < g_log_count l) [0..<v] = [0..<min v ?n]" .
  have "unat (((of_nat k :: u32) + of_nat i) mod of_nat LOG_LINES) = (k + i) mod LOG_LINES" if "i < v" for i
    using u32_mod_lines [OF small [OF that]] by simp
  then show ?thesis
    unfolding visible_def Let_def start tw by simp
qed

lemma visible_tail:
  assumes "log_rep l hist" and "v \<le> LOG_LINES"
  shows "visible l v = drop (length hist - v) hist"
proof -
  have v: "v < 2 ^ 32" using assms(2) by (simp add: LOG_LINES_def)
  have "g_log l ! ((length hist - v + i) mod LOG_LINES) = hist ! (length hist - v + i)"
    if "i < min v (length hist)" for i
  proof -
    from that assms(2) have "length hist - v + i < length hist" "length hist \<le> length hist - v + i + LOG_LINES"
      by auto
    with assms(1) show ?thesis unfolding log_rep_def by blast
  qed
  then show ?thesis
    unfolding visible_window [OF assms(1) v] by (intro nth_equalityI) auto
qed

lemma enumerate_map: "enumerate n (map f xs) = map (\<lambda>(i, x). (i, f x)) (enumerate n xs)"
  by (induction xs arbitrary: n) simp_all

text \<open>In a pane taller than the ring the lines repeat every 512 rows.\<close>

theorem tall_pane_repeats_lines:
  assumes "log_rep l hist" and "v < 2 ^ 32" and "i + 512 < min v (length hist)"
  shows "visible l v ! (i + 512) = visible l v ! i"
  using assms(3) by (simp add: visible_window [OF assms(1,2)] LOG_LINES_def flip: add.assoc)

text \<open>
  the log pane shows the newest lines. After any sequence of pushes since the log was cleared,
  a pane of at most 512 lines shows the last ones, oldest first, each cut to 255 bytes and fitted
  into the pane, in consecutive rows below the title, with the style they were pushed with.
\<close>

theorem log_pane_shows_tail:
  assumes "length (g_log l) = 512" and "length es < 2 ^ 32" and "1 \<le> rows - 2" and "rows - 2 \<le> 512"
  shows "tl (draw_log rows cols (log_pushes es (log_clear l))) =
    map (\<lambda>(i, st, s). Put (1 + int i) 1 (fit (cols - 2) (take 255 s)) st)
      (enumerate 0 (drop (length es - nat (rows - 2)) es))"
proof -
  let ?l = "log_pushes es (log_clear l)" and ?v = "nat (rows - 2)"
  have "log_rep (log_clear l) []" using assms(1) by (simp add: log_rep_clear LOG_LINES_def)
  from log_rep_pushes [OF this] assms(2)
  have "log_rep ?l (map (\<lambda>(st, s). log_entry st s) es)" by simp
  moreover have "?v \<le> LOG_LINES" using assms(4) by (simp add: LOG_LINES_def nat_le_iff)
  ultimately have "visible ?l ?v = map (\<lambda>(st, s). log_entry st s) (drop (length es - ?v) es)"
    using visible_tail [of ?l _ ?v] by (simp add: drop_map)
  moreover have "tl (draw_log rows cols ?l) =
      map (\<lambda>(i, e). Put (1 + int i) 1 (fit (cols - 2) (le_text e)) (le_cp e, le_attr e)) (enumerate 0 (visible ?l ?v))"
    using assms(3) by (simp add: draw_log_def Let_def)
  ultimately show ?thesis
    by (simp add: enumerate_map split_def log_entry_def LOG_LINE_LEN_def)
qed

theorem log_pane_shows_tail_witness:
  "tl (draw_log 4 7 (log_pushes [((1, A_NORMAL), bytes ''one''), ((2, A_BOLD), bytes ''two''), ((3, A_BOLD), bytes ''three'')]
        (log_clear init_log)))
    = [Put 1 1 (bytes ''two  '') (2, A_BOLD), Put 2 1 (bytes ''three'') (3, A_BOLD)]"
  by (rule trans [OF log_pane_shows_tail]) (simp_all add: init_log_def LOG_LINES_def, code_simp)

section \<open>A pane is not left\<close>

lemma stat_rows_bounds:
  assumes "stat_rows sel drw lim row g = (ps, row')" and "row \<le> lim"
    and "\<And>r s p. p \<in> set (drw r s) \<Longrightarrow> put_row p = r"
  shows "row \<le> row' \<and> row' \<le> lim \<and> list_all (\<lambda>p. row \<le> put_row p \<and> put_row p < row') ps"
  using assms(1,2)
proof (induction g arbitrary: row ps)
  case Nil
  then show ?case by simp
next
  case (Cons s g)
  show ?case
  proof (cases "row < lim \<and> sel s")
    case True
    then obtain qs where qs: "stat_rows sel drw lim (row + 1) g = (qs, row')" "ps = drw row s @ qs"
      using Cons.prems by (auto split: prod.splits)
    have "list_all (\<lambda>p. row \<le> put_row p \<and> put_row p < row + 1) (drw row s)"
      using assms(3) by (auto simp: list_all_iff)
    with Cons.IH [OF qs(1)] True qs(2) show ?thesis by (fastforce simp: list_all_iff)
  next
    case False
    with Cons show ?thesis by (auto split: if_splits)
  qed
qed

lemma stat_section_bounds:
  assumes "stat_section title has sel drw lim g row = (ps, row')" and "row \<le> lim"
    and "\<And>r s p. p \<in> set (drw r s) \<Longrightarrow> put_row p = r"
  shows "row \<le> row' \<and> row' \<le> lim \<and> list_all (\<lambda>p. row \<le> put_row p \<and> put_row p < lim) ps"
proof (cases "has \<and> row < lim")
  case True
  then obtain qs r where qs: "stat_rows sel drw lim (row + 1) g = (qs, r)"
      "ps = Put row 1 (bytes title) (CP_HEADER, A_BOLD) # qs" "row' = (if r < lim then r + 1 else r)"
    using assms(1) by (auto simp: stat_section_def split: prod.splits)
  from stat_rows_bounds [OF qs(1) _ assms(3)] True qs(2,3) show ?thesis
    by (fastforce simp: list_all_iff split: if_splits)
next
  case False
  with assms(1,2) show ?thesis by (auto simp: stat_section_def)
qed

lemma row_draws:
  "p \<in> set (counter_row r s) \<Longrightarrow> put_row p = r"
  "p \<in> set (gauge_row cells bar r s) \<Longrightarrow> put_row p = r"
  "p \<in> set (diff_row g r s) \<Longrightarrow> put_row p = r"
  by (auto simp: counter_row_def gauge_row_def draw_bar_def diff_row_def Let_def split: option.splits)

text \<open>
  nothing is drawn over the border. Whatever the statistics and whatever the size of the pane
  from two rows on, every string but the title is printed strictly between the first and the last
  row of the pane.
\<close>

theorem stats_pane_is_not_left:
  assumes "2 \<le> rows"
  shows "list_all (\<lambda>p. 1 \<le> put_row p \<and> put_row p < rows - 1) (tl (draw_stats cells rows cols g))"
proof -
  let ?lim = "rows - 1"
  define bar where "bar = (if cols - 14 - 12 - 4 < 6 then 6 else cols - 14 - 12 - 4)"
  obtain cs r1 where cs: "stat_section ''COUNTERS'' (list_ex (\<lambda>s. st_kind s = PG_EV_COUNTER) g)
      (\<lambda>s. st_kind s = PG_EV_COUNTER) counter_row ?lim g 1 = (cs, r1)"
    by (meson surj_pair)
  obtain gs r2 where gs: "stat_section ''GAUGES'' (list_ex (\<lambda>s. st_kind s = PG_EV_GAUGE) g)
      (\<lambda>s. st_kind s = PG_EV_GAUGE) (gauge_row cells bar) ?lim g r1 = (gs, r2)"
    by (meson surj_pair)
  obtain ds r3 where ds: "stat_section ''EXPECTED vs ACTUAL''
      (list_ex (\<lambda>s. st_kind s = PG_EV_EXPECT \<or> st_kind s = PG_EV_ACTUAL) g)
      (\<lambda>s. st_kind s = PG_EV_EXPECT) (diff_row g) ?lim g r2 = (ds, r3)"
    by (meson surj_pair)
  have draw: "tl (draw_stats cells rows cols g) = cs @ gs @ ds"
    unfolding draw_stats_def Let_def bar_def [symmetric] cs gs ds prod.case by simp
  have c: "1 \<le> r1 \<and> r1 \<le> ?lim \<and> list_all (\<lambda>p. 1 \<le> put_row p \<and> put_row p < ?lim) cs"
    using stat_section_bounds [OF cs] row_draws(1) assms by auto
  have g: "r1 \<le> r2 \<and> r2 \<le> ?lim \<and> list_all (\<lambda>p. r1 \<le> put_row p \<and> put_row p < ?lim) gs"
    using stat_section_bounds [OF gs] row_draws(2) c by auto
  have "list_all (\<lambda>p. r2 \<le> put_row p \<and> put_row p < ?lim) ds"
    using stat_section_bounds [OF ds] row_draws(3) g by auto
  with c g show ?thesis unfolding draw by (fastforce simp: list_all_iff)
qed

theorem stats_pane_is_not_left_witness:
  "list_all (\<lambda>p. 1 \<le> put_row p \<and> put_row p < 3)
    (tl (draw_stats (\<lambda>n d w. w) 4 40 (stat_upsert (bytes ''x'') 3 PG_EV_COUNTER True [])))"
  using stats_pane_is_not_left [of 4 "\<lambda>n d w. w" 40] by simp

section \<open>Statistics of a stream\<close>

text \<open>
  A table with room for \<open>cap\<close> keys, where every update of a key that is there changes its entry
  by \<open>step\<close> and the first one makes it by \<open>start\<close>. As long as no more than \<open>cap\<close> keys occur, the
  entry of a key is a fold over the values that came for it.
\<close>

definition vals_of :: "'k \<Rightarrow> ('k \<times> 'v) list \<Rightarrow> 'v list" where
  "vals_of k us = map snd (filter (\<lambda>u. fst u = k) us)"

definition folded :: "('k \<Rightarrow> 'v \<Rightarrow> 'a) \<Rightarrow> ('k \<Rightarrow> 'v \<Rightarrow> 'a \<Rightarrow> 'a) \<Rightarrow> 'k \<Rightarrow> 'v list \<Rightarrow> 'a option" where
  "folded start step k vs = (case vs of [] \<Rightarrow> None | v # vs \<Rightarrow> Some (fold (step k) vs (start k v)))"

lemma vals_of_snoc: "vals_of k (us @ [(k', v)]) = vals_of k us @ (if k' = k then [v] else [])"
  by (simp add: vals_of_def)

lemma vals_of_none: "vals_of k us = [] \<longleftrightarrow> k \<notin> fst ` set us"
  by (auto simp: vals_of_def filter_empty_conv)

lemma folded_snoc:
  "folded start step k (vs @ [v]) =
    Some (case folded start step k vs of None \<Rightarrow> start k v | Some a \<Rightarrow> step k v a)"
  by (cases vs) (simp_all add: folded_def)

lemma folded_none [simp]: "folded start step k vs = None \<longleftrightarrow> vs = []"
  by (simp add: folded_def split: list.splits)

locale tally =
  fixes look :: "'k \<Rightarrow> 's \<Rightarrow> 'a option"
    and add :: "'k \<Rightarrow> 'v \<Rightarrow> 's \<Rightarrow> 's"
    and used :: "'s \<Rightarrow> nat"
    and cap :: nat
    and inv :: "'s \<Rightarrow> bool"
    and ok :: "'k \<Rightarrow> bool"
    and start :: "'k \<Rightarrow> 'v \<Rightarrow> 'a"
    and step :: "'k \<Rightarrow> 'v \<Rightarrow> 'a \<Rightarrow> 'a"
    and empty :: 's
  assumes empty_inv: "inv empty"
    and empty_look: "look k empty = None"
    and add_inv: "inv s \<Longrightarrow> ok k \<Longrightarrow> inv (add k v s)"
    and used_keys: "inv s \<Longrightarrow> card {k. look k s \<noteq> None} = used s"
    and add_there: "look k s = Some a \<Longrightarrow> look k (add k v s) = Some (step k v a)"
    and add_new: "ok k \<Longrightarrow> look k s = None \<Longrightarrow> used s < cap \<Longrightarrow> look k (add k v s) = Some (start k v)"
    and add_other: "ok k \<Longrightarrow> k' \<noteq> k \<Longrightarrow> look k' (add k v s) = look k' s"
begin

definition build :: "('k \<times> 'v) list \<Rightarrow> 's" where
  "build us = fold (\<lambda>(k, v). add k v) us empty"

lemma build_folds:
  assumes "\<forall>u \<in> set us. ok (fst u)" and "card (fst ` set us) \<le> cap"
  shows "inv (build us) \<and> (\<forall>k. look k (build us) = folded start step k (vals_of k us))"
  using assms
proof (induction us rule: rev_induct)
  case Nil
  then show ?case by (simp add: build_def empty_inv empty_look vals_of_def folded_def)
next
  case (snoc u us)
  obtain k v where u: "u = (k, v)" by (cases u)
  let ?s = "build us"
  have "card (fst ` set us) \<le> card (fst ` set (us @ [u]))" by (intro card_mono) auto
  with snoc have inv: "inv ?s" and lk: "\<And>k. look k ?s = folded start step k (vals_of k us)" by auto
  have okk: "ok k" using snoc.prems(1) u by simp
  have b: "build (us @ [u]) = add k v ?s" by (simp add: build_def u)
  have "look k (add k v ?s) = folded start step k (vals_of k us @ [v])"
  proof (cases "vals_of k us")
    case Nil
    have "{k. look k ?s \<noteq> None} = fst ` set us" by (auto simp: lk vals_of_none)
    with used_keys [OF inv] have "used ?s = card (fst ` set us)" by simp
    moreover have "k \<notin> fst ` set us" using Nil vals_of_none by metis
    ultimately have "used ?s < cap" using snoc.prems(2) u by (simp add: card_insert_if)
    with add_new [OF okk, of ?s v] lk [of k] Nil show ?thesis by (simp add: folded_def)
  next
    case (Cons w ws)
    then obtain a where "folded start step k (vals_of k us) = Some a" by (simp add: folded_def)
    with add_there [of k ?s a v] lk show ?thesis by (simp add: folded_snoc)
  qed
  with add_inv [OF inv okk] add_other [OF okk] lk show ?case
    by (auto simp: b [unfolded u] u vals_of_snoc)
qed

end

text \<open>The entry under a kind and a key.\<close>

definition stat_look :: "pg_event_kind_t \<times> u8 list \<Rightarrow> stats \<Rightarrow> stat_t option" where
  "stat_look k g = find (\<lambda>s. (st_kind s, st_key s) = k) g"

definition stat_add :: "pg_event_kind_t \<times> u8 list \<Rightarrow> i64 \<Rightarrow> stats \<Rightarrow> stats" where
  "stat_add k v g = stat_upsert (snd k) v (fst k) (fst k = PG_EV_COUNTER) g"

definition stat_step :: "pg_event_kind_t \<times> u8 list \<Rightarrow> i64 \<Rightarrow> stat_t \<Rightarrow> stat_t" where
  "stat_step k v s =
     (let s = s\<lparr>st_value := (if fst k = PG_EV_COUNTER then st_value s + v else v)\<rparr>
      in if fst k = PG_EV_GAUGE then stat_touch v s else s)"

definition stat_start :: "pg_event_kind_t \<times> u8 list \<Rightarrow> i64 \<Rightarrow> stat_t" where
  "stat_start k v = stat_new (snd k) v (fst k)"

definition stat_keys :: "stats \<Rightarrow> (pg_event_kind_t \<times> u8 list) list" where
  "stat_keys g = map (\<lambda>s. (st_kind s, st_key s)) g"

lemma stat_touch_key [simp]: "st_kind (stat_touch v s) = st_kind s" "st_key (stat_touch v s) = st_key s"
  "st_value (stat_touch v s) = st_value s"
  by (simp_all add: stat_touch_def Let_def)

lemma stat_step_key [simp]: "st_kind (stat_step k v s) = st_kind s" "st_key (stat_step k v s) = st_key s"
  by (simp_all add: stat_step_def Let_def)

lemma stat_found_step:
  "stat_found (snd k) v (fst k) (fst k = PG_EV_COUNTER) g =
    (if k \<in> set (stat_keys g)
     then Some (takeWhile (\<lambda>s. (st_kind s, st_key s) \<noteq> k) g
       @ (case dropWhile (\<lambda>s. (st_kind s, st_key s) \<noteq> k) g of [] \<Rightarrow> [] | s # r \<Rightarrow> stat_step k v s # r))
     else None)"
  by (induction g) (auto simp: stat_keys_def stat_step_def Let_def)

lemma stat_look_none: "stat_look k g = None \<longleftrightarrow> k \<notin> set (stat_keys g)"
  by (auto simp: stat_look_def find_None_iff stat_keys_def)

lemma stat_look_append:
  "stat_look k (g @ h) = (case stat_look k g of None \<Rightarrow> stat_look k h | Some s \<Rightarrow> Some s)"
  by (induction g) (simp_all add: stat_look_def)

lemma stat_split:
  assumes "k \<in> set (stat_keys g)"
  obtains pre s post where "g = pre @ s # post" "k \<notin> set (stat_keys pre)" "(st_kind s, st_key s) = k"
    "stat_add k v g = pre @ stat_step k v s # post"
proof -
  let ?P = "\<lambda>s. (st_kind s, st_key s) \<noteq> k"
  have "dropWhile ?P g \<noteq> []" using assms by (auto simp: stat_keys_def)
  then obtain s post where d: "dropWhile ?P g = s # post" by (cases "dropWhile ?P g") auto
  then have sk: "(st_kind s, st_key s) = k" using dropWhile_eq_Cons_conv [of ?P g s post] by blast
  have "k \<notin> set (stat_keys (takeWhile ?P g))" by (auto simp: stat_keys_def dest: set_takeWhileD)
  moreover have "g = takeWhile ?P g @ s # post" using d takeWhile_dropWhile_id [of ?P g] by simp
  moreover have "stat_add k v g = takeWhile ?P g @ stat_step k v s # post"
    using assms d by (simp add: stat_add_def stat_upsert_def stat_found_step)
  ultimately show thesis using sk that by blast
qed

lemma stat_add_new:
  assumes "k \<notin> set (stat_keys g)"
  shows "stat_add k v g = (if length g < STATS_MAX then g @ [stat_start k v] else g)"
  using assms by (simp add: stat_add_def stat_upsert_def stat_found_step stat_start_def)

lemma stat_start_key:
  "length (snd k) < PG_EVENT_KEY_LEN \<Longrightarrow> (st_kind (stat_start k v), st_key (stat_start k v)) = k"
  by (simp add: stat_start_def stat_new_def Let_def)

interpretation stt: tally stat_look stat_add length STATS_MAX "\<lambda>g. distinct (stat_keys g)"
  "\<lambda>k. length (snd k) < PG_EVENT_KEY_LEN" stat_start stat_step "[]"
proof unfold_locales
  show "distinct (stat_keys [])" by (simp add: stat_keys_def)
  show "stat_look k [] = None" for k by (simp add: stat_look_def)
next
  fix s and k :: "pg_event_kind_t \<times> u8 list" and v
  assume d: "distinct (stat_keys s)" and ok: "length (snd k) < PG_EVENT_KEY_LEN"
  show "distinct (stat_keys (stat_add k v s))"
  proof (cases "k \<in> set (stat_keys s)")
    case True
    then obtain pre b post where "s = pre @ b # post" "stat_add k v s = pre @ stat_step k v b # post"
      by (rule stat_split)
    with d show ?thesis by (simp add: stat_keys_def)
  next
    case False
    with d stat_start_key [OF ok, of v] show ?thesis by (simp add: stat_add_new stat_keys_def)
  qed
next
  fix s
  assume "distinct (stat_keys s)"
  then have "card (set (stat_keys s)) = length s" using distinct_card by (fastforce simp: stat_keys_def)
  moreover have "{k. stat_look k s \<noteq> None} = set (stat_keys s)" by (auto simp: stat_look_none)
  ultimately show "card {k. stat_look k s \<noteq> None} = length s" by simp
next
  fix k s a v
  assume l: "stat_look k s = Some a"
  then have "k \<in> set (stat_keys s)" using stat_look_none [of k s] by simp
  then obtain pre b post where g: "s = pre @ b # post" "k \<notin> set (stat_keys pre)" "(st_kind b, st_key b) = k"
    "stat_add k v s = pre @ stat_step k v b # post" by (rule stat_split)
  moreover have "stat_look k pre = None" using g(2) by (simp add: stat_look_none)
  ultimately show "stat_look k (stat_add k v s) = Some (stat_step k v a)"
    using l by (auto simp: stat_look_append) (auto simp: stat_look_def)
next
  fix k :: "pg_event_kind_t \<times> u8 list" and s v
  assume "length (snd k) < PG_EVENT_KEY_LEN" "stat_look k s = None" "length s < STATS_MAX"
  then show "stat_look k (stat_add k v s) = Some (stat_start k v)"
    using stat_start_key [of k v] stat_look_none [of k s]
    by (simp add: stat_add_new stat_look_append) (simp add: stat_look_def)
next
  fix k k' :: "pg_event_kind_t \<times> u8 list" and s v
  assume ok: "length (snd k) < PG_EVENT_KEY_LEN" and ne: "k' \<noteq> k"
  show "stat_look k' (stat_add k v s) = stat_look k' s"
  proof (cases "k \<in> set (stat_keys s)")
    case True
    then obtain pre b post where "s = pre @ b # post" "(st_kind b, st_key b) = k"
      "stat_add k v s = pre @ stat_step k v b # post" by (rule stat_split)
    with ne show ?thesis by (auto simp: stat_look_append split: option.splits) (auto simp: stat_look_def)
  next
    case False
    have "stat_look k' [stat_start k v] = None"
      using stat_start_key [OF ok, of v] ne by (simp add: stat_look_def)
    with False show ?thesis
      by (simp add: stat_add_new stat_look_append split: option.splits)
  qed
qed

text \<open>The folds in closed form.\<close>

lemma counter_fold:
  "fst k = PG_EV_COUNTER \<Longrightarrow> st_value (fold (stat_step k) vs s) = st_value s + sum_list vs"
  by (induction vs arbitrary: s) (simp_all add: stat_step_def add.assoc)

lemma other_fold:
  "fst k \<noteq> PG_EV_COUNTER \<Longrightarrow> st_value (fold (stat_step k) vs s) = last (st_value s # vs)"
  by (induction vs arbitrary: s) (simp_all add: stat_step_def Let_def)

lemma gauge_fold:
  assumes "fst k = PG_EV_GAUGE" and "st_touched s"
  shows "sint (st_min (fold (stat_step k) vs s)) = Min (insert (sint (st_min s)) (sint ` set vs))
    \<and> sint (st_max (fold (stat_step k) vs s)) = Max (insert (sint (st_max s)) (sint ` set vs))"
  using assms(2)
proof (induction vs arbitrary: s)
  case Nil
  then show ?case by simp
next
  case (Cons v vs)
  have t: "st_touched (stat_step k v s)" using assms(1) by (simp add: stat_step_def stat_touch_def Let_def)
  have mn: "sint (st_min (stat_step k v s)) = min (sint v) (sint (st_min s))"
    and mx: "sint (st_max (stat_step k v s)) = max (sint v) (sint (st_max s))"
    using assms(1) Cons.prems by (auto simp: stat_step_def stat_touch_def Let_def)
  have "Min (insert (min a b) X) = Min (insert b (insert a X))" "Max (insert (max a b) X) = Max (insert b (insert a X))"
    if "finite X" for a b :: int and X
    using that by (cases "X = {}"; simp add: min.assoc min.left_commute min.commute max.assoc max.left_commute max.commute)+
  with Cons.IH [OF t] mn mx show ?case by simp
qed

text \<open>
  C30: the statistics are those of the whole stream. As long as at most 64 pairs of kind and key
  occur, the entry of a pair holds, for a counter, the sum of all the numbers that came, wrapped
  to 64 bits; for every other kind the last one; and the ends of a gauge are the least and the
  greatest number that came. There is no entry for a pair that did not occur.
\<close>

theorem stats_summarise_stream:
  fixes kind :: pg_event_kind_t and key :: "u8 list" and us :: "((pg_event_kind_t \<times> u8 list) \<times> i64) list"
  assumes "\<forall>u \<in> set us. length (snd (fst u)) < 32" and "card (fst ` set us) \<le> 64"
  defines "g \<equiv> fold (\<lambda>((kind, key), v). stat_upsert key v kind (kind = PG_EV_COUNTER)) us []"
    and "vs \<equiv> map snd (filter (\<lambda>u. fst u = (kind, key)) us)"
  shows "case find (\<lambda>s. st_kind s = kind \<and> st_key s = key) g of
      None \<Rightarrow> vs = []
    | Some s \<Rightarrow> vs \<noteq> [] \<and> st_value s = (if kind = PG_EV_COUNTER then sum_list vs else last vs)
        \<and> (if kind = PG_EV_GAUGE then sint (st_min s) = Min (sint ` set vs) \<and> sint (st_max s) = Max (sint ` set vs) else True)"
proof -
  have b: "stt.build us = g"
    unfolding stt.build_def g_def stat_add_def by (rule fold_cong) auto
  have v: "vals_of (kind, key) us = vs" by (simp add: vals_of_def vs_def)
  have l: "stat_look (kind, key) g = find (\<lambda>s. st_kind s = kind \<and> st_key s = key) g"
    by (simp add: stat_look_def)
  have f: "find (\<lambda>s. st_kind s = kind \<and> st_key s = key) g = folded stat_start stat_step (kind, key) vs"
    using stt.build_folds [of us] assms(1,2) b v l by (simp add: PG_EVENT_KEY_LEN_def STATS_MAX_def)
  show ?thesis
  proof (cases vs)
    case Nil
    then show ?thesis by (simp add: f folded_def)
  next
    case (Cons w ws)
    have "st_touched (stat_start (kind, key) w)" if "kind = PG_EV_GAUGE"
      using that by (simp add: stat_start_def stat_new_def Let_def)
    moreover have "st_value (stat_start k w) = w" for k
      by (simp add: stat_start_def stat_new_def Let_def)
    moreover have "kind = PG_EV_GAUGE \<Longrightarrow> st_min (stat_start (kind, key) w) = w \<and> st_max (stat_start (kind, key) w) = w"
      by (simp add: stat_start_def stat_new_def Let_def)
    ultimately show ?thesis
      using gauge_fold [of "(kind, key)" "stat_start (kind, key) w" ws]
      by (simp add: f folded_def Cons counter_fold other_fold)
  qed
qed

theorem stats_summarise_stream_witness:
  "case find (\<lambda>s. st_kind s = PG_EV_COUNTER \<and> st_key s = bytes ''n'')
      (fold (\<lambda>((kind, key), v). stat_upsert key v kind (kind = PG_EV_COUNTER))
        [((PG_EV_COUNTER, bytes ''n''), 2), ((PG_EV_GAUGE, bytes ''n''), 7), ((PG_EV_COUNTER, bytes ''n''), 3)] []) of
     None \<Rightarrow> False | Some s \<Rightarrow> st_value s = 5"
  using stats_summarise_stream [of "[((PG_EV_COUNTER, bytes ''n''), 2), ((PG_EV_GAUGE, bytes ''n''), 7),
      ((PG_EV_COUNTER, bytes ''n''), 3)]" PG_EV_COUNTER "bytes ''n''"]
  by (simp add: bytes_def card_insert_if split: option.splits)

section \<open>The overlay wraps lines\<close>

text \<open>
  The reference: the lines of the text, each cut into pieces of \<open>n\<close> bytes. An empty line is one
  empty piece, and nothing follows a line feed at the end.
\<close>

function chunks :: "nat \<Rightarrow> u8 list \<Rightarrow> u8 list list" where
  "chunks n xs = (if n = 0 \<or> length xs \<le> n then [xs] else take n xs # chunks n (drop n xs))"
  by pat_completeness auto
termination
  by (relation "measure (\<lambda>(n, xs). length xs)") auto

declare chunks.simps [simp del]

function lines_of :: "u8 list \<Rightarrow> u8 list list" where
  "lines_of p =
     (if p = [] then []
      else takeWhile (\<lambda>c. c \<noteq> 10) p # lines_of (drop (Suc (length (takeWhile (\<lambda>c. c \<noteq> 10) p))) p))"
  by pat_completeness auto
termination
  by (relation "measure length") (auto simp: diff_less)

declare lines_of.simps [simp del]

definition rows_at :: "int \<Rightarrow> u8 list list \<Rightarrow> put list" where
  "rows_at y xs = map (\<lambda>(i, s). Put (y + int i) 2 s (0, A_NORMAL)) (enumerate 0 xs)"

lemma rows_at_simps:
  "rows_at y [] = []"
  "rows_at y (x # xs) = Put y 2 x (0, A_NORMAL) # rows_at (y + 1) xs"
  by (simp_all add: rows_at_def enumerate_Suc_eq [of 0] o_def split_def add.assoc)

lemma rows_at_append: "rows_at y (xs @ ys) = rows_at y xs @ rows_at (y + int (length xs)) ys"
  by (induction xs arbitrary: y) (simp_all add: rows_at_simps add.assoc)

lemma wrap_loop_chunks:
  assumes "wrap_loop wrap lim y p = (ps, y', rest)" and "1 \<le> wrap" and "wrap < 2 ^ 31" and "y \<le> lim"
  shows "ps @ (if y' < lim then [Put y' 2 rest (0, A_NORMAL)] else [])
      = rows_at y (take (nat (lim - y)) (chunks (nat wrap) p))
    \<and> (if y' < lim then y' + 1 else y') = y + int (min (nat (lim - y)) (length (chunks (nat wrap) p)))
    \<and> y \<le> y' \<and> y' \<le> lim"
  using assms
proof (induction wrap lim y p arbitrary: ps rule: wrap_loop.induct)
  case (1 wrap lim y p)
  have w: "uint (of_int wrap :: u64) = wrap" using 1(3,4) by (simp add: uint_word_of_int)
  show ?case
  proof (cases "nat wrap < length p \<and> y < lim")
    case True
    then have c: "uint (of_int wrap :: u64) < int (length p) \<and> y < lim" using 1(3) w by auto
    then obtain qs where q: "wrap_loop wrap lim (y + 1) (drop (nat wrap) p) = (qs, y', rest)"
        "ps = Put y 2 (prec wrap p) (0, A_NORMAL) # qs"
      using 1(2) by (subst (asm) wrap_loop.simps) (auto split: prod.splits)
    have ch: "chunks (nat wrap) p = take (nat wrap) p # chunks (nat wrap) (drop (nat wrap) p)"
      using True 1(3) by (subst chunks.simps) simp
    have n: "nat (lim - y) = Suc (nat (lim - (y + 1)))" using True by linarith
    from 1(1) [OF c q(1) 1(3,4)] True q(2) 1(3) show ?thesis
      by (simp add: ch n rows_at_simps prec_def split: if_splits)
  next
    case False
    then have c: "\<not> (uint (of_int wrap :: u64) < int (length p) \<and> y < lim)" using 1(3) w by auto
    then have e: "ps = []" "y' = y" "rest = p"
      using 1(2) by (subst (asm) wrap_loop.simps, simp)+
    show ?thesis
    proof (cases "y < lim")
      case True
      with False have "chunks (nat wrap) p = [p]" by (subst chunks.simps) simp
      moreover from True obtain m where "nat (lim - y) = Suc m" by (cases "nat (lim - y)") auto
      ultimately show ?thesis using True e by (simp add: rows_at_simps)
    next
      case no: False
      with e 1(5) show ?thesis by (simp add: rows_at_simps)
    qed
  qed
qed

lemma chunks_not_nil: "chunks n xs \<noteq> []"
  by (subst chunks.simps) simp

text \<open>One paragraph: its pieces as far as there are rows, then the rest from the next free row.\<close>

lemma body_loop_para:
  fixes p :: "u8 list"
  defines "para \<equiv> takeWhile (\<lambda>c. c \<noteq> 10) p"
  assumes "p \<noteq> []" and "y < lim" and "1 \<le> wrap" and "wrap < 2 ^ 31"
  obtains y2 where "y2 = y + int (min (nat (lim - y)) (length (chunks (nat wrap) para)))" and "y2 \<le> lim"
    and "body_loop wrap lim y p = rows_at y (take (nat (lim - y)) (chunks (nat wrap) para))
      @ (if drop (length para) p \<noteq> [] then body_loop wrap lim y2 (tl (drop (length para) p)) else [])"
proof -
  obtain ps y1 rest where wl: "wrap_loop wrap lim y para = (ps, y1, rest)" by (metis prod_cases3)
  define y2 where "y2 = (if y1 < lim then y1 + 1 else y1)"
  from wrap_loop_chunks [OF wl assms(4,5)] assms(3)
  have line: "ps @ (if y1 < lim then [Put y1 2 rest (0, A_NORMAL)] else [])
      = rows_at y (take (nat (lim - y)) (chunks (nat wrap) para))"
    and y2: "y2 = y + int (min (nat (lim - y)) (length (chunks (nat wrap) para)))" "y2 \<le> lim"
    by (auto simp: y2_def)
  have "body_loop wrap lim y p = rows_at y (take (nat (lim - y)) (chunks (nat wrap) para))
      @ (if drop (length para) p \<noteq> [] then body_loop wrap lim y2 (tl (drop (length para) p)) else [])"
    unfolding line [symmetric] using assms(2,3)
    by (subst body_loop.simps) (cases "y1 < lim"; simp add: wl Let_def y2_def flip: para_def)
  with y2 show thesis by (rule that)
qed

text \<open>
  C31: the overlay's loop wraps the lines. For a positive width it prints exactly the pieces
  of the reference, one per row from row \<open>y\<close> on, as many as there are rows above \<open>lim\<close>: nothing
  is lost, doubled or drawn below.
\<close>

theorem overlay_wraps_lines:
  assumes "1 \<le> wrap" and "wrap < 2 ^ 31" and "y \<le> lim"
  shows "body_loop wrap lim y p =
    rows_at y (take (nat (lim - y)) (concat (map (chunks (nat wrap)) (lines_of p))))"
  using assms(3)
proof (induction "length p" arbitrary: y p rule: less_induct)
  case less
  show ?case
  proof (cases "p \<noteq> [] \<and> y < lim")
    case False
    then show ?thesis by (subst body_loop.simps) (auto simp: lines_of.simps [of "[]"] rows_at_simps)
  next
    case True
    let ?para = "takeWhile (\<lambda>c. c \<noteq> 10) p"
    define C where "C = chunks (nat wrap) ?para"
    define R where "R = concat (map (chunks (nat wrap)) (lines_of (drop (Suc (length ?para)) p)))"
    from True body_loop_para [of p y lim wrap] assms(1,2) obtain y2 where
      y2: "y2 = y + int (min (nat (lim - y)) (length C))" "y2 \<le> lim"
      and loop: "body_loop wrap lim y p = rows_at y (take (nat (lim - y)) C)
        @ (if drop (length ?para) p \<noteq> [] then body_loop wrap lim y2 (tl (drop (length ?para) p)) else [])"
      unfolding C_def by metis
    have tl: "tl (drop (length ?para) p) = drop (Suc (length ?para)) p" by (simp add: drop_Suc tl_drop)
    have L: "concat (map (chunks (nat wrap)) (lines_of p)) = C @ R"
      using True by (subst lines_of.simps) (simp add: C_def R_def)
    have "body_loop wrap lim y2 (drop (Suc (length ?para)) p) = rows_at y2 (take (nat (lim - y2)) R)"
      unfolding R_def by (rule less.hyps [OF _ y2(2)]) (use True in simp)
    moreover have "R = []" if "drop (length ?para) p = []"
      using that by (simp add: R_def lines_of.simps [of "[]"])
    moreover have "nat (lim - y2) = nat (lim - y) - length C" using y2(1) by auto
    ultimately show ?thesis
      unfolding loop L tl take_append rows_at_append
      by (cases "length C \<le> nat (lim - y)") (auto simp: rows_at_simps y2(1))
  qed
qed

theorem overlay_wraps_lines_witness:
  "body_loop 4 5 2 (bytes (''abcdefghij'' @ CHR 0x0A # ''kl'')) =
    [Put 2 2 (bytes ''abcd'') (0, A_NORMAL), Put 3 2 (bytes ''efgh'') (0, A_NORMAL), Put 4 2 (bytes ''ij'') (0, A_NORMAL)]"
  by (rule trans [OF overlay_wraps_lines]) (simp_all, code_simp)

section \<open>The windows tile the screen\<close>

definition covers :: "window \<Rightarrow> int \<Rightarrow> int \<Rightarrow> bool" where
  "covers w r c \<longleftrightarrow> win_y w \<le> r \<and> r < win_y w + win_h w \<and> win_x w \<le> c \<and> c < win_x w + win_w w"

lemma sdiv_2_3: "0 \<le> (n::int) \<Longrightarrow> n * 2 sdiv 3 = n * 2 div 3" "0 \<le> n \<Longrightarrow> n sdiv 3 = n div 3"
  by (simp_all add: signed_divide_int_def sgn_if)

text \<open>
  the windows tile the screen. On a terminal of at least three rows and twenty-one columns all
  four windows are non-empty, and every cell of the screen lies in exactly one of them. From 58
  columns on the menu has at least 34 and the panes on the right at least 24.
\<close>

theorem windows_tile_screen:
  assumes "3 \<le> rows" and "21 \<le> cols"
  defines "l \<equiv> layout_windows rows cols"
  defines "ws \<equiv> [win_menu l, win_log l, win_stats l, win_status l]"
  shows "list_all (\<lambda>w. 0 < win_h w \<and> 0 < win_w w) ws
    \<and> (\<forall>r \<in> {0..<rows}. \<forall>c \<in> {0..<cols}. length (filter (\<lambda>w. covers w r c) ws) = 1)
    \<and> (if 58 \<le> cols then 34 \<le> win_w (win_menu l) \<and> 24 \<le> win_w (win_log l) else True)"
proof -
  define log_h where "log_h = (rows - 1) * 2 div 3"
  define menu_w where "menu_w = win_w (win_menu l)"
  have h: "0 < log_h" "log_h < rows - 1" using assms(1) by (simp_all add: log_h_def)
  have w: "0 < menu_w" "menu_w < cols" "58 \<le> cols \<Longrightarrow> 34 \<le> menu_w \<and> 24 \<le> cols - menu_w"
    using assms(2) by (auto simp: menu_w_def l_def layout_windows_def Let_def sdiv_2_3)
  have l: "l = \<lparr>win_menu = \<lparr>win_h = rows - 1, win_w = menu_w, win_y = 0, win_x = 0\<rparr>,
      win_log = \<lparr>win_h = log_h, win_w = cols - menu_w, win_y = 0, win_x = menu_w\<rparr>,
      win_stats = \<lparr>win_h = rows - 1 - log_h, win_w = cols - menu_w, win_y = log_h, win_x = menu_w\<rparr>,
      win_status = \<lparr>win_h = 1, win_w = cols, win_y = rows - 1, win_x = 0\<rparr>\<rparr>"
    using assms(1) by (simp add: menu_w_def l_def layout_windows_def Let_def log_h_def sdiv_2_3)
  show ?thesis using h w unfolding ws_def l by (auto simp: covers_def)
qed

theorem windows_tile_screen_witness:
  "length (filter (\<lambda>w. covers w 16 40)
      [win_menu (layout_windows 24 80), win_log (layout_windows 24 80), win_stats (layout_windows 24 80),
       win_status (layout_windows 24 80)]) = 1"
  using windows_tile_screen [of 24 80] by simp

end
