(* ===== verification/Tui.thy ===== *)
theory Tui
  imports Tui_Panes
begin

text \<open>
  The terminal front end of \<open>src/tui/tui.c\<close>: how an event becomes a line of the log and an entry
  of the statistics, the loop that watches a running scenario, and the key machine of
  \<open>tui_run\<close>. What the terminal and the kernel decide (keys, window sizes, results of \<open>poll\<close>,
  the stream of the child, \<open>waitpid\<close>) are arguments. What is drawn is a list of screens, the
  newest last. \<open>None\<close> is a loop that has not ended yet, or a string with no end.
\<close>

section \<open>State\<close>

text \<open>
  \<open>te_secs\<close> is what \<open>%6.3f\<close> prints for \<open>ts_ns / 1e9\<close>, \<open>te_cells\<close> the number of cells a
  gauge fills (a product of doubles).
\<close>

record 's tui_env =
  g_scens :: "'s pg_scenario_t list"
  te_secs :: "u64 \<Rightarrow> u8 list"
  te_cells :: "i64 \<Rightarrow> i64 \<Rightarrow> int \<Rightarrow> int"
  te_cpu_limit :: "string option"

datatype screen =
    Panes "put list" "put list" "put list" "put list"
  | Overlay "put list"

record tui =
  t_log :: log_t
  t_stats :: stats
  g_sel :: nat
  g_last_exit :: wait_status
  g_last_seed :: u64
  t_wins :: layout
  t_screens :: "screen list"

definition running_status :: string where
  "running_status = ''running...   [q] abort''"

definition menu_status :: string where
  "menu_status = ''[UP/DOWN] select   [ENTER] run   [q] quit''"

definition post_status :: string where
  "post_status = ''[r] rerun   [R] new seed   [e] lesson   [ENTER] menu   [q] quit''"

definition log_push :: "nat \<Rightarrow> attr \<Rightarrow> string \<Rightarrow> tui \<Rightarrow> tui" where
  "log_push cp at s t = t\<lparr>t_log := log_pushf (cp, at) (bytes s) (t_log t)\<rparr>"

definition redraw_all :: "'s tui_env \<Rightarrow> string \<Rightarrow> tui \<Rightarrow> tui" where
  "redraw_all e status t =
     (let w = t_wins t
      in t\<lparr>t_screens := t_screens t @
           [Panes (draw_menu (win_w (win_menu w)) (g_scens e) (g_sel t))
              (draw_log (win_h (win_log w)) (win_w (win_log w)) (t_log t))
              (draw_stats (te_cells e) (win_h (win_stats w)) (win_w (win_stats w)) (t_stats t))
              (draw_status (win_w (win_status w)) status)]\<rparr>)"

section \<open>Events\<close>

text \<open>The line of an event; its strings are read up to the first NUL.\<close>

definition event_text :: "(u64 \<Rightarrow> u8 list) \<Rightarrow> pg_event_t \<Rightarrow> u8 list option" where
  "event_text secs ev =
     (let t = secs (ev_ts_ns ev);
          num = bytes (show_int (sint (ev_num ev)))
      in case kind_of (ev_kind ev) of
           Some PG_EV_LOG \<Rightarrow>
             map_option (\<lambda>s. t @ bytes ('' log[t'' @ show_nat (unat (ev_thread_tag ev)) @ ''] '') @ s) (cstr (ev_text ev))
         | Some PG_EV_PHASE \<Rightarrow> map_option (\<lambda>s. t @ bytes '' -- '' @ s @ bytes '' --'') (cstr (ev_text ev))
         | Some PG_EV_COUNTER \<Rightarrow> map_option (\<lambda>k. t @ bytes '' counter '' @ k @ bytes '' += '' @ num) (cstr (ev_key ev))
         | Some PG_EV_GAUGE \<Rightarrow> map_option (\<lambda>k. t @ bytes '' gauge   '' @ k @ bytes '' = '' @ num) (cstr (ev_key ev))
         | Some PG_EV_EXPECT \<Rightarrow> map_option (\<lambda>k. t @ bytes '' expect  '' @ k @ bytes '' = '' @ num) (cstr (ev_key ev))
         | Some PG_EV_ACTUAL \<Rightarrow> map_option (\<lambda>k. t @ bytes '' actual  '' @ k @ bytes '' = '' @ num) (cstr (ev_key ev))
         | Some PG_EV_SUT_FAULT \<Rightarrow> map_option (\<lambda>s. t @ bytes '' SUT FAULT  '' @ s) (cstr (ev_text ev))
         | Some PG_EV_CHILD_CRASH \<Rightarrow> map_option (\<lambda>s. t @ bytes '' CRASH      '' @ s) (cstr (ev_text ev))
         | Some PG_EV_WATCHDOG \<Rightarrow> map_option (\<lambda>s. t @ bytes '' WATCHDOG   '' @ s) (cstr (ev_text ev))
         | Some PG_EV_DONE \<Rightarrow> Some (t @ bytes '' done.'')
         | None \<Rightarrow> Some (t @ bytes '' ?''))"

definition push_event :: "(u64 \<Rightarrow> u8 list) \<Rightarrow> pg_event_t \<Rightarrow> log_t \<Rightarrow> log_t option" where
  "push_event secs ev l =
     map_option (\<lambda>s. log_pushf (style_for (kind_of (ev_kind ev))) s l) (event_text secs ev)"

text \<open>The \<open>switch\<close> of \<open>run_scenario\<close> that feeds the statistics.\<close>

definition stat_event :: "pg_event_t \<Rightarrow> stats \<Rightarrow> stats option" where
  "stat_event ev g =
     (case kind_of (ev_kind ev) of
        Some PG_EV_COUNTER \<Rightarrow> map_option (\<lambda>k. stat_upsert k (ev_num ev) PG_EV_COUNTER True g) (cstr (ev_key ev))
      | Some PG_EV_GAUGE \<Rightarrow> map_option (\<lambda>k. stat_upsert k (ev_num ev) PG_EV_GAUGE False g) (cstr (ev_key ev))
      | Some PG_EV_EXPECT \<Rightarrow> map_option (\<lambda>k. stat_upsert k (ev_num ev) PG_EV_EXPECT False g) (cstr (ev_key ev))
      | Some PG_EV_ACTUAL \<Rightarrow> map_option (\<lambda>k. stat_upsert k (ev_num ev) PG_EV_ACTUAL False g) (cstr (ev_key ev))
      | _ \<Rightarrow> Some g)"

definition show_event :: "'s tui_env \<Rightarrow> pg_event_t \<Rightarrow> tui \<Rightarrow> tui option" where
  "show_event e ev t = do {
     l \<leftarrow> push_event (te_secs e) ev (t_log t);
     g \<leftarrow> stat_event ev (t_stats t);
     Some (redraw_all e running_status (t\<lparr>t_log := l, t_stats := g\<rparr>))
   }"

section \<open>Watching a run\<close>

datatype key = ERR | Key char | KEY_UP | KEY_DOWN | KEY_RESIZE | KEY_ENTER | OtherKey

text \<open>
  One turn of the loop: what \<open>poll\<close> returns, the key when standard input is readable, whether
  the pipe is readable or hung up, and what the \<open>poll\<close> inside \<open>pg_run_poll\<close> returns.
\<close>

record ui_turn =
  tn_poll :: int
  tn_key :: "key option"
  tn_event :: bool
  tn_probe :: int

definition abort_key :: "pg_run_handle_t \<Rightarrow> key option \<Rightarrow> bool \<Rightarrow> tui \<Rightarrow> tui \<times> sysact list \<times> bool" where
  "abort_key h k aborted t =
     (if (k = Some (Key CHR ''q'') \<or> k = Some (Key CHR ''Q'')) \<and> \<not> aborted
      then (log_push CP_FAULT A_BOLD ''(user aborted -- SIGTERM to child)'' t, pg_run_abort (Some h), True)
      else (t, [], aborted))"

fun event_turns ::
    "'s tui_env \<Rightarrow> pg_run_handle_t \<Rightarrow> ui_turn list \<Rightarrow> bool \<Rightarrow> u8 list \<Rightarrow> answer list \<Rightarrow> tui
      \<Rightarrow> (tui \<times> sysact list) option"
where
  "event_turns e h [] aborted inp ans t = None"
| "event_turns e h (tn # tns) aborted inp ans t =
     (if tn_poll tn < 0 then Some (t, [])
      else
        (let (t, acts, aborted) = abort_key h (tn_key tn) aborted t
         in if \<not> tn_event tn
            then map_option (apsnd ((@) acts)) (event_turns e h tns aborted inp ans t)
            else
              (case pg_run_poll (Some h) True 0 (tn_probe tn) inp ans of
                 None \<Rightarrow> None
               | Some (r, got, inp, ans) \<Rightarrow>
                   if r = 1
                   then (let ev = decode_event got
                         in case show_event e ev t of
                              None \<Rightarrow> None
                            | Some t \<Rightarrow>
                                if ev_kind ev = kind_code PG_EV_DONE then Some (t, acts)
                                else map_option (apsnd ((@) acts)) (event_turns e h tns aborted inp ans t))
                   else if r \<le> 0 then Some (t, acts)
                   else map_option (apsnd ((@) acts)) (event_turns e h tns aborted inp ans t))))"

declare event_turns.simps [simp del]

text \<open>What the kernel and the terminal decide during one run.\<close>

record run_world =
  rw_pipe :: "(int \<times> int) option"
  rw_fork :: int
  rw_stream :: "u8 list"
  rw_reads :: "answer list"
  rw_turns :: "ui_turn list"
  rw_waits :: "wait_answer list"

definition exit_line :: "tui \<Rightarrow> tui" where
  "exit_line t =
     (case g_last_exit t of
        WSignaled sig \<Rightarrow>
          log_push CP_FAULT A_BOLD (''child killed by signal '' @ show_nat (signal_number sig)) t
      | WExited n \<Rightarrow>
          if n \<noteq> 0 then log_push CP_FAULT A_BOLD (''child exited '' @ show_int n) t else t)"

text \<open>The result, the system calls and the state; the branch of the child does not come back.\<close>

definition run_begin :: "'s tui_env \<Rightarrow> 's pg_scenario_t \<Rightarrow> u64 \<Rightarrow> tui \<Rightarrow> tui" where
  "run_begin e s seed t =
     redraw_all e running_status
       (log_push CP_HEADER A_BOLD (''starting '' @ sc_id s @ ''   seed='' @ show_nat (unat seed))
         (t\<lparr>t_log := log_clear (t_log t), t_stats := stats_clear (t_stats t), g_last_seed := seed\<rparr>))"

definition run_scenario ::
    "'s tui_env \<Rightarrow> 's pg_scenario_t \<Rightarrow> u64 \<Rightarrow> run_world \<Rightarrow> tui \<Rightarrow> (int \<times> sysact list \<times> tui) option"
where
  "run_scenario e s seed w t =
     (let t = run_begin e s seed t
      in case pg_run_start (Some s) seed True (te_cpu_limit e) (rw_pipe w) (rw_fork w) of
           InChild k \<Rightarrow> None
         | Parent rc er None acts \<Rightarrow>
             Some (-1, acts, redraw_all e running_status (log_push CP_FAULT A_BOLD ''failed to start scenario'' t))
         | Parent rc er (Some h) acts \<Rightarrow> do {
             (t, acts2) \<leftarrow> event_turns e h (rw_turns w) False (rw_stream w) (rw_reads w) t;
             (rr, st, h', acts3) \<leftarrow> pg_run_reap (Some h) (rw_waits w);
             let t = (case st of None \<Rightarrow> t | Some st \<Rightarrow> t\<lparr>g_last_exit := st\<rparr>);
             Some (0, acts @ acts2 @ acts3, exit_line t)
           })"

section \<open>The key machine\<close>

datatype mode = S_MENU | S_POST

record 's main =
  m_state :: mode
  m_running :: bool
  m_last :: "'s pg_scenario_t option"
  m_tui :: tui

text \<open>
  What one iteration of \<open>while (running)\<close> meets: the key, \<open>time(NULL)\<close>, the size of the
  terminal, and the world of the run it may start.
\<close>

record input =
  in_key :: key
  in_now :: u64
  in_rows :: int
  in_cols :: int
  in_run :: run_world

definition run_last :: "'s tui_env \<Rightarrow> 's pg_scenario_t \<Rightarrow> u64 \<Rightarrow> run_world \<Rightarrow> 's main \<Rightarrow> (sysact list \<times> 's main) option" where
  "run_last e s seed w m =
     map_option (\<lambda>(rc, acts, t). (acts, m\<lparr>m_tui := t\<rparr>)) (run_scenario e s seed w (m_tui m))"

definition resize :: "input \<Rightarrow> 's main \<Rightarrow> 's main" where
  "resize i m = m\<lparr>m_tui := (m_tui m)\<lparr>t_wins := layout_windows (in_rows i) (in_cols i)\<rparr>\<rparr>"

definition sel_up :: "'s main \<Rightarrow> 's main" where
  "sel_up m =
     (let t = m_tui m in if g_sel t > 0 then m\<lparr>m_tui := t\<lparr>g_sel := g_sel t - 1\<rparr>\<rparr> else m)"

definition sel_down :: "'s tui_env \<Rightarrow> 's main \<Rightarrow> 's main" where
  "sel_down e m =
     (let t = m_tui m
      in if g_sel t + 1 < length (g_scens e) then m\<lparr>m_tui := t\<lparr>g_sel := g_sel t + 1\<rparr>\<rparr> else m)"

definition quit_key :: "key \<Rightarrow> bool" where
  "quit_key k \<longleftrightarrow> k = Key CHR ''q'' \<or> k = Key CHR ''Q''"

definition enter_key :: "key \<Rightarrow> bool" where
  "enter_key k \<longleftrightarrow> k = Key CHR 0x0A \<or> k = KEY_ENTER \<or> k = Key CHR '' ''"

definition menu_key :: "'s tui_env \<Rightarrow> input \<Rightarrow> 's main \<Rightarrow> (sysact list \<times> 's main) option" where
  "menu_key e i m =
     (let k = in_key i
      in if quit_key k then Some ([], m\<lparr>m_running := False\<rparr>)
         else if k = KEY_UP then Some ([], sel_up m)
         else if k = KEY_DOWN then Some ([], sel_down e m)
         else if k = KEY_RESIZE then Some ([], resize i m)
         else if enter_key k
         then (if length (g_scens e) > 0
               then (let s = g_scens e ! g_sel (m_tui m)
                     in map_option (apsnd (\<lambda>m. m\<lparr>m_state := S_POST\<rparr>))
                          (run_last e s (in_now i) (in_run i) (m\<lparr>m_last := Some s\<rparr>)))
               else Some ([], m))
         else Some ([], m))"

definition lesson_title :: "'s pg_scenario_t \<Rightarrow> string" where
  "lesson_title s = take 127 (''Lesson: '' @ sc_title s)"

definition post_key :: "'s tui_env \<Rightarrow> input \<Rightarrow> 's main \<Rightarrow> (sysact list \<times> 's main) option" where
  "post_key e i m =
     (let k = in_key i; t = m_tui m
      in if quit_key k then Some ([], m\<lparr>m_running := False\<rparr>)
         else if k = Key CHR ''r''
         then (case m_last m of None \<Rightarrow> Some ([], m) | Some s \<Rightarrow> run_last e s (g_last_seed t) (in_run i) m)
         else if k = Key CHR ''R''
         then (case m_last m of
                 None \<Rightarrow> Some ([], m)
               | Some s \<Rightarrow> run_last e s (in_now i XOR g_last_seed t XOR 0x5A5A5A5A) (in_run i) m)
         else if k = Key CHR ''e'' \<or> k = Key CHR ''E''
         then (case m_last m of
                 None \<Rightarrow> Some ([], m)
               | Some s \<Rightarrow>
                   Some ([], m\<lparr>m_tui := t\<lparr>t_screens := t_screens t @
                     [Overlay (show_overlay (in_rows i) (in_cols i) (Some (lesson_title s)) (sc_lesson s))]\<rparr>\<rparr>))
         else if k = KEY_RESIZE then Some ([], resize i m)
         else if enter_key k \<or> k = Key CHR 0x1B
         then Some ([], m\<lparr>m_state := S_MENU\<rparr>)
         else Some ([], m))"

definition main_step :: "'s tui_env \<Rightarrow> input \<Rightarrow> 's main \<Rightarrow> (sysact list \<times> 's main) option" where
  "main_step e i m =
     (if in_key i = ERR then Some ([], m)
      else map_option (apsnd (\<lambda>m. m\<lparr>m_tui :=
               redraw_all e (if m_state m = S_MENU then menu_status else post_status) (m_tui m)\<rparr>))
             (if m_state m = S_MENU then menu_key e i m else post_key e i m))"

text \<open>The loop: \<open>None\<close> while keys are still awaited.\<close>

fun main_loop :: "'s tui_env \<Rightarrow> input list \<Rightarrow> 's main \<Rightarrow> (sysact list \<times> 's main) option" where
  "main_loop e is m =
     (if \<not> m_running m then Some ([], m)
      else (case is of
              [] \<Rightarrow> None
            | i # is \<Rightarrow> do {
                (acts, m) \<leftarrow> main_step e i m;
                (acts', m) \<leftarrow> main_loop e is m;
                Some (acts @ acts', m)
              }))"

declare main_loop.simps [simp del]

definition init_tui :: "int \<Rightarrow> int \<Rightarrow> tui" where
  "init_tui rows cols =
     \<lparr>t_log = init_log, t_stats = [], g_sel = 0, g_last_exit = WExited 0, g_last_seed = 0,
      t_wins = layout_windows rows cols, t_screens = []\<rparr>"

text \<open>\<open>initscr\<close> answers with the size of the terminal, or not at all.\<close>

definition tui_run :: "'s tui_env \<Rightarrow> (int \<times> int) option \<Rightarrow> input list \<Rightarrow> (int \<times> sysact list \<times> screen list) option" where
  "tui_run e scr is =
     (case scr of
        None \<Rightarrow> Some (1, [], [])
      | Some (rows, cols) \<Rightarrow>
          map_option (\<lambda>(acts, m). (0, acts, t_screens (m_tui m)))
            (main_loop e is
              \<lparr>m_state = S_MENU, m_running = True, m_last = None,
               m_tui = redraw_all e menu_status (init_tui rows cols)\<rparr>))"

section \<open>Lines and updates of an event\<close>

definition event_line :: "(u64 \<Rightarrow> u8 list) \<Rightarrow> pg_event_t \<Rightarrow> style_t \<times> u8 list" where
  "event_line secs ev = (style_for (kind_of (ev_kind ev)), the (event_text secs ev))"

definition charted :: "pg_event_kind_t set" where
  "charted = {PG_EV_COUNTER, PG_EV_GAUGE, PG_EV_EXPECT, PG_EV_ACTUAL}"

text \<open>What an event does to the statistics, as a list of at most one update.\<close>

definition stat_update :: "pg_event_t \<Rightarrow> ((pg_event_kind_t \<times> u8 list) \<times> i64) list" where
  "stat_update ev =
     (case kind_of (ev_kind ev) of
        None \<Rightarrow> []
      | Some k \<Rightarrow> if k \<in> charted then [((k, takeWhile (\<lambda>b. b \<noteq> 0) (ev_key ev)), ev_num ev)] else [])"

definition stat_fold :: "((pg_event_kind_t \<times> u8 list) \<times> i64) list \<Rightarrow> stats \<Rightarrow> stats" where
  "stat_fold us g = fold (\<lambda>((kind, key), v). stat_upsert key v kind (kind = PG_EV_COUNTER)) us g"

lemma stat_fold_append: "stat_fold (us @ vs) g = stat_fold vs (stat_fold us g)"
  by (simp add: stat_fold_def)

lemma log_pushes_append: "log_pushes (xs @ ys) l = log_pushes ys (log_pushes xs l)"
  by (simp add: log_pushes_def)

lemma log_pushes_one: "log_pushes [(st, s)] l = log_pushf st s l"
  by (simp add: log_pushes_def)

lemma event_text_readable: "strings_ok ev \<Longrightarrow> event_text secs ev \<noteq> None"
  by (simp add: event_text_def strings_ok_def cstr_def Let_def split: option.splits pg_event_kind_t.splits)

lemma stat_event_update: "strings_ok ev \<Longrightarrow> stat_event ev g = Some (stat_fold (stat_update ev) g)"
  by (simp add: stat_event_def stat_update_def stat_fold_def charted_def strings_ok_def cstr_def
      split: option.splits pg_event_kind_t.splits)

lemma show_event_effect:
  assumes "strings_ok ev"
  obtains t' where "show_event e ev t = Some t'"
    and "t_log t' = log_pushes [event_line (te_secs e) ev] (t_log t)"
    and "t_stats t' = stat_fold (stat_update ev) (t_stats t)"
    and "g_sel t' = g_sel t" and "g_last_seed t' = g_last_seed t" and "g_last_exit t' = g_last_exit t"
  using event_text_readable [OF assms, of "te_secs e"] stat_event_update [OF assms, of "t_stats t"]
  by (auto simp: show_event_def push_event_def redraw_all_def Let_def event_line_def log_pushes_one)

section \<open>Every event is shown\<close>

lemma pg_run_poll_ready:
  "0 < pr \<Longrightarrow> pg_run_poll (Some h) True 0 pr inp ans = pg_run_poll (Some h) True (-1) 0 inp ans"
  by (simp add: pg_run_poll_def)

lemma no_acts: "map_option (apsnd ((@) [])) x = x"
  by (cases x) auto

text \<open>A turn that is not interrupted and in which nobody asks for the end.\<close>

definition calm :: "ui_turn \<Rightarrow> bool" where
  "calm tn \<longleftrightarrow> 0 \<le> tn_poll tn \<and> (tn_event tn \<longrightarrow> 0 < tn_probe tn)
     \<and> tn_key tn \<noteq> Some (Key CHR ''q'') \<and> tn_key tn \<noteq> Some (Key CHR ''Q'')"

lemma event_turns_idle:
  "calm tn \<Longrightarrow> \<not> tn_event tn \<Longrightarrow> event_turns e h (tn # tns) ab inp ans t = event_turns e h tns ab inp ans t"
  by (simp add: event_turns.simps calm_def abort_key_def no_acts)

lemma event_turns_read:
  assumes "calm tn" and "tn_event tn" and "0 \<le> event_fd h" and "event_wf ev" and "header_ok ev"
    and "show_event e ev t = Some t'"
    and "pg_run_poll (Some h) True (-1) 0 (encode_event ev @ rest) ans = Some (1, encode_event ev, rest, ans')"
  shows "event_turns e h (tn # tns) ab (encode_event ev @ rest) ans t =
    (if ev_kind ev = kind_code PG_EV_DONE then Some (t', []) else event_turns e h tns ab rest ans' t')"
  using assms
  by (simp add: event_turns.simps(2) calm_def abort_key_def pg_run_poll_ready
      decode_encode_event Let_def no_acts)

lemma event_turns_end:
  assumes "calm tn" and "tn_event tn" and "0 \<le> event_fd h" and "fair_to 1 ans"
  shows "event_turns e h (tn # tns) ab [] ans t = Some (t, [])"
proof -
  from pg_run_poll_end [of h "[]" ans] assms(3,4) obtain ans' where
    "pg_run_poll (Some h) True (-1) 0 [] ans = Some (0, [], [], ans')"
    by (auto simp: EVENT_SIZE_def)
  with assms(1,2) show ?thesis
    by (simp add: event_turns.simps(2) calm_def abort_key_def pg_run_poll_ready no_acts)
qed

lemma event_turns_one:
  assumes "calm tn" and "tn_event tn" and "0 \<le> event_fd h" and "event_wf ev" and "header_ok ev" and "strings_ok ev"
    and "fair_to (256 + n) ans"
  obtains t1 ans' where "fair_to n ans'"
    and "event_turns e h (tn # tns) ab (encode_event ev @ rest) ans t =
      (if ev_kind ev = kind_code PG_EV_DONE then Some (t1, []) else event_turns e h tns ab rest ans' t1)"
    and "t_log t1 = log_pushes [event_line (te_secs e) ev] (t_log t)"
    and "t_stats t1 = stat_fold (stat_update ev) (t_stats t)"
proof -
  obtain t1 where t1: "show_event e ev t = Some t1"
    "t_log t1 = log_pushes [event_line (te_secs e) ev] (t_log t)"
    "t_stats t1 = stat_fold (stat_update ev) (t_stats t)"
    using show_event_effect [of ev e t] assms(6) by auto
  from pg_run_poll_event [OF assms(3-5,7), of rest] obtain ans' where fair: "fair_to n ans'"
    and poll: "pg_run_poll (Some h) True (-1) 0 (encode_event ev @ rest) ans = Some (1, encode_event ev, rest, ans')"
    by auto
  show thesis by (rule that [OF fair event_turns_read [OF assms(1-5) t1(1) poll] t1(2,3)])
qed

lemma event_turns_all:
  assumes "\<forall>tn \<in> set tns. calm tn" and "length evs < length (filter tn_event tns)"
    and "0 \<le> event_fd h"
    and "\<forall>ev \<in> set evs. event_wf ev \<and> header_ok ev \<and> strings_ok ev"
    and "\<forall>ev \<in> set (butlast evs). ev_kind ev \<noteq> kind_code PG_EV_DONE"
    and "fair_to (256 * length evs + 1) ans"
  shows "\<exists>t'. event_turns e h tns ab (concat (map encode_event evs)) ans t = Some (t', [])
    \<and> t_log t' = log_pushes (map (event_line (te_secs e)) evs) (t_log t)
    \<and> t_stats t' = stat_fold (concat (map stat_update evs)) (t_stats t)"
  using assms(1,2,4-6)
proof (induction tns arbitrary: evs ans t)
  case Nil
  then show ?case by simp
next
  case (Cons tn tns)
  have calm: "calm tn" using Cons.prems(1) by simp
  consider (idle) "\<not> tn_event tn" | (over) "tn_event tn" "evs = []" | (event) ev evs' where "tn_event tn" "evs = ev # evs'"
    by (metis list.exhaust)
  then show ?case
  proof cases
    case idle
    then have "\<forall>tn \<in> set tns. calm tn" "length evs < length (filter tn_event tns)" using Cons.prems by simp_all
    from Cons.IH [OF this Cons.prems(3-5), of t] show ?thesis unfolding event_turns_idle [OF calm idle] .
  next
    case over
    with event_turns_end [OF calm _ assms(3), of ans e tns ab t] Cons.prems(5) show ?thesis
      by (simp add: log_pushes_def stat_fold_def)
  next
    case (event ev evs')
    note ev = event(2)
    have "fair_to (256 + (256 * length evs' + 1)) ans" using Cons.prems(5) ev by (simp add: add.assoc)
    moreover have ok: "event_wf ev" "header_ok ev" "strings_ok ev" using Cons.prems(3) ev by simp_all
    ultimately obtain t1 ans' where fair: "fair_to (256 * length evs' + 1) ans'"
      and step: "event_turns e h (tn # tns) ab (concat (map encode_event evs)) ans t =
          (if ev_kind ev = kind_code PG_EV_DONE then Some (t1, [])
           else event_turns e h tns ab (concat (map encode_event evs')) ans' t1)"
      and t1: "t_log t1 = log_pushes [event_line (te_secs e) ev] (t_log t)" "t_stats t1 = stat_fold (stat_update ev) (t_stats t)"
      unfolding ev list.map concat.simps by (metis event_turns_one [OF calm event(1) assms(3)])
    have bl: "\<forall>ev \<in> set (butlast evs'). ev_kind ev \<noteq> kind_code PG_EV_DONE"
      and fin: "ev_kind ev = kind_code PG_EV_DONE \<Longrightarrow> evs' = []"
      using Cons.prems(4) ev by (cases evs'; auto)+
    have "\<forall>tn \<in> set tns. calm tn" "length evs' < length (filter tn_event tns)"
      "\<forall>ev \<in> set evs'. event_wf ev \<and> header_ok ev \<and> strings_ok ev"
      using Cons.prems(1-3) ev event by simp_all
    from Cons.IH [OF this bl fair, of t1] obtain t2 where
      "event_turns e h tns ab (concat (map encode_event evs')) ans' t1 = Some (t2, [])"
      "t_log t2 = log_pushes ([event_line (te_secs e) ev] @ map (event_line (te_secs e)) evs') (t_log t)"
      "t_stats t2 = stat_fold (stat_update ev @ concat (map stat_update evs')) (t_stats t)"
      unfolding log_pushes_append stat_fold_append t1 by blast
    with step fin ev t1 show ?thesis by (cases "ev_kind ev = kind_code PG_EV_DONE") simp_all
  qed
qed

text \<open>The lines after the stream.\<close>

definition exit_lines :: "wait_status \<Rightarrow> (style_t \<times> u8 list) list" where
  "exit_lines st =
     (case st of
        WSignaled sig \<Rightarrow> [((CP_FAULT, A_BOLD), bytes (''child killed by signal '' @ show_nat (signal_number sig)))]
      | WExited n \<Rightarrow> if n = 0 then [] else [((CP_FAULT, A_BOLD), bytes (''child exited '' @ show_int n))])"

definition start_line :: "'s pg_scenario_t \<Rightarrow> u64 \<Rightarrow> style_t \<times> u8 list" where
  "start_line s seed =
     ((CP_HEADER, A_BOLD), bytes (''starting '' @ sc_id s @ ''   seed='' @ show_nat (unat seed)))"

lemma exit_line_effect:
  "t_log (exit_line t) = log_pushes (exit_lines (g_last_exit t)) (t_log t)" "t_stats (exit_line t) = t_stats t"
  by (auto simp: exit_line_def exit_lines_def log_push_def log_pushes_def split: wait_status.splits)

lemma run_begin_effect:
  "t_log (run_begin e s seed t) = log_pushes [start_line s seed] (log_clear (t_log t))"
  "t_stats (run_begin e s seed t) = []" "g_last_seed (run_begin e s seed t) = seed"
  by (simp_all add: run_begin_def redraw_all_def Let_def log_push_def start_line_def log_pushes_def stats_clear_def)

text \<open>A run that starts, whose loop and whose wait end.\<close>

lemma run_scenario_started:
  assumes "rw_pipe w = Some (rd, wr)" and "0 < rw_fork w" and "0 \<le> rd" and "rw_waits w = Reaped st # ws"
    and "event_turns e \<lparr>child_pid = rw_fork w, event_fd = rd, ctrl_fd = -1, h_seed = seed\<rparr> (rw_turns w) False
        (rw_stream w) (rw_reads w) (run_begin e s seed t) = Some (t', acts)"
  shows "run_scenario e s seed w t =
    Some (0, [SysOpen rd, SysOpen wr, SysClose wr] @ acts @ [SysClose rd], exit_line (t'\<lparr>g_last_exit := st\<rparr>))"
  using assms by (simp add: run_scenario_def Let_def pg_run_start_def pg_run_reap_def)

lemma exit_lines_one: "length (exit_lines st) \<le> 1"
  by (simp add: exit_lines_def split: wait_status.splits)

lemma draw_log_titled:
  "1 \<le> rows - 2 \<Longrightarrow> draw_log rows cols l = Put 0 2 (bytes '' Event Log '') (CP_HEADER, A_BOLD) # tl (draw_log rows cols l)"
  by (simp add: draw_log_def Let_def)

text \<open>
  C17: the log shows the whole run. When the pipe and the fork succeed, the child's stream is a
  sequence of readable events of which only the last may be \<open>PG_EV_DONE\<close>, \<open>poll\<close> is not
  interrupted and nobody presses q, then the run ends, and a log pane of at most 512 lines drawn
  afterwards shows below its title the last lines, as many as it has rows, of this list: the
  opening line, one line per event, in order, and the line for a bad exit, each cut to 255 bytes
  and fitted into the pane, in the style of its kind. The statistics are the fold of all the
  events, and both ends of the pipe are closed. Fewer than \<open>2 ^ 32\<close> lines are assumed, since the
  counter of lines has 32 bits.
\<close>

theorem run_shows_every_event:
  fixes e :: "'s tui_env" and s :: "'s pg_scenario_t" and seed :: u64
  assumes "rw_pipe w = Some (rd, wr)" and "0 < rw_fork w" and "0 \<le> rd"
    and "rw_stream w = concat (map encode_event evs)"
    and "\<forall>ev \<in> set evs. event_wf ev \<and> header_ok ev \<and> strings_ok ev"
    and "\<forall>ev \<in> set (butlast evs). ev_kind ev \<noteq> kind_code PG_EV_DONE"
    and "fair_to (256 * length evs + 1) (rw_reads w)"
    and "\<forall>tn \<in> set (rw_turns w). calm tn" and "length evs < length (filter tn_event (rw_turns w))"
    and "rw_waits w = [Reaped st]"
    and "length (g_log (t_log t)) = 512" and "length evs + 2 < 2 ^ 32"
  defines "lines \<equiv> start_line s seed # map (event_line (te_secs e)) evs @ exit_lines st"
  shows "\<exists>acts t'. run_scenario e s seed w t = Some (0, acts, t')
    \<and> (\<forall>rows cols. 1 \<le> rows - 2 \<and> rows - 2 \<le> 512 \<longrightarrow>
         draw_log rows cols (t_log t') = Put 0 2 (bytes '' Event Log '') (CP_HEADER, A_BOLD) #
           map (\<lambda>(i, sty, str). Put (1 + int i) 1 (fit (cols - 2) (take 255 str)) sty)
             (enumerate 0 (drop (length lines - nat (rows - 2)) lines)))
    \<and> t_stats t' = stat_fold (concat (map stat_update evs)) []
    \<and> open_fds acts = {}"
proof -
  let ?h = "\<lparr>child_pid = rw_fork w, event_fd = rd, ctrl_fd = -1, h_seed = seed\<rparr>"
  have fd: "0 \<le> event_fd ?h" using assms(3) by simp
  from event_turns_all [OF assms(8,9) fd assms(5-7), of e False "run_begin e s seed t"] obtain t1 where
    t1: "event_turns e ?h (rw_turns w) False (concat (map encode_event evs)) (rw_reads w) (run_begin e s seed t) = Some (t1, [])"
    "t_log t1 = log_pushes (map (event_line (te_secs e)) evs) (t_log (run_begin e s seed t))"
    "t_stats t1 = stat_fold (concat (map stat_update evs)) []"
    by (auto simp: run_begin_effect)
  let ?t = "exit_line (t1\<lparr>g_last_exit := st\<rparr>)"
  from run_scenario_started [OF assms(1-3,10), of e seed s t t1 "[]"] t1(1) assms(4)
  have run: "run_scenario e s seed w t = Some (0, [SysOpen rd, SysOpen wr, SysClose wr, SysClose rd], ?t)"
    by simp
  have log: "t_log ?t = log_pushes lines (log_clear (t_log t))"
    using t1(2) by (simp add: exit_line_effect run_begin_effect lines_def log_pushes_append [symmetric])
  have small: "length lines < 2 ^ 32" using assms(12) exit_lines_one [of st] by (simp add: lines_def)
  have "draw_log rows cols (t_log ?t) = Put 0 2 (bytes '' Event Log '') (CP_HEADER, A_BOLD) #
      map (\<lambda>(i, sty, str). Put (1 + int i) 1 (fit (cols - 2) (take 255 str)) sty)
        (enumerate 0 (drop (length lines - nat (rows - 2)) lines))"
    if "1 \<le> rows - 2" "rows - 2 \<le> 512" for rows cols
    using log_pane_shows_tail [OF assms(11) small that, of cols] draw_log_titled [OF that(1), of cols "t_log ?t"]
    by (simp only: log)
  moreover have "t_stats ?t = stat_fold (concat (map stat_update evs)) []" using t1(3) by (simp add: exit_line_effect)
  moreover have "open_fds [SysOpen rd, SysOpen wr, SysClose wr, SysClose rd] = {}" by (simp add: open_fds_def)
  ultimately show ?thesis using run by blast
qed

definition demo_env :: "unit tui_env" where
  "demo_env = \<lparr>g_scens = [demo_crasher], te_secs = \<lambda>ns. bytes '' 0.000'', te_cells = \<lambda>n d w. w, te_cpu_limit = None\<rparr>"

definition demo_turn :: ui_turn where
  "demo_turn = \<lparr>tn_poll = 1, tn_key = None, tn_event = True, tn_probe = 1\<rparr>"

definition demo_run_world :: run_world where
  "demo_run_world = \<lparr>rw_pipe = Some (5, 6), rw_fork = 77, rw_stream = concat (map encode_event demo_records),
     rw_reads = replicate 513 (Moves 100), rw_turns = replicate 3 demo_turn, rw_waits = [Reaped (WSignaled SIGSEGV)]\<rparr>"

lemma crash_event_strings: "strings_ok (crash_event sig)"
  using crash_event_reads [of sig]
  by (auto simp: strings_ok_def cstr_def crash_event_def blank_event_def event_consts Let_def split: if_splits prod.splits)

theorem run_shows_every_event_witness:
  "\<exists>acts t'. run_scenario demo_env demo_crasher 42 demo_run_world (init_tui 24 80) = Some (0, acts, t')
    \<and> draw_log 5 34 (t_log t') =
       [Put 0 2 (bytes '' Event Log '') (CP_HEADER, A_BOLD),
        Put 1 1 (bytes '' 0.000 CRASH      child crashed:'') (3, A_BOLD),
        Put 2 1 (bytes '' 0.000 CRASH      child crashed:'') (3, A_BOLD),
        Put 3 1 (bytes ''child killed by signal 11       '') (3, A_BOLD)]"
proof -
  have line: "event_line (\<lambda>ns. bytes '' 0.000'') (crash_event sig) =
      ((3, A_BOLD), bytes ('' 0.000 CRASH      child crashed: '' @ signal_name sig))" for sig
    using crash_event_reads [of sig]
    by (simp add: event_line_def event_text_def crash_event_kind style_for_def CP_FAULT_def bytes_def del: kind_code.simps)
  let ?lines = "start_line demo_crasher 42 # map (event_line (te_secs demo_env)) demo_records @ exit_lines (WSignaled SIGSEGV)"
  have "\<exists>acts t'. run_scenario demo_env demo_crasher 42 demo_run_world (init_tui 24 80) = Some (0, acts, t')
    \<and> (\<forall>rows cols. 1 \<le> rows - 2 \<and> rows - 2 \<le> 512 \<longrightarrow>
         draw_log rows cols (t_log t') = Put 0 2 (bytes '' Event Log '') (CP_HEADER, A_BOLD) #
           map (\<lambda>(i, sty, str). Put (1 + int i) 1 (fit (cols - 2) (take 255 str)) sty)
             (enumerate 0 (drop (length ?lines - nat (rows - 2)) ?lines)))
    \<and> t_stats t' = stat_fold (concat (map stat_update demo_records)) [] \<and> open_fds acts = {}"
    by (rule run_shows_every_event)
      (auto simp: demo_run_world_def demo_records_def demo_turn_def calm_def fair_to_def crash_event_wf crash_event_header
        crash_event_strings crash_event_kind init_tui_def init_log_def LOG_LINES_def)
  then obtain acts t' where run: "run_scenario demo_env demo_crasher 42 demo_run_world (init_tui 24 80) = Some (0, acts, t')"
    and drawn: "draw_log 5 34 (t_log t') = Put 0 2 (bytes '' Event Log '') (CP_HEADER, A_BOLD) #
      map (\<lambda>(i, sty, str). Put (1 + int i) 1 (fit (34 - 2) (take 255 str)) sty)
        (enumerate 0 (drop (length ?lines - nat (5 - 2)) ?lines))"
    by fastforce
  have lines: "drop (length ?lines - nat (5 - 2)) ?lines =
      [((3, A_BOLD), bytes ('' 0.000 CRASH      child crashed: '' @ signal_name SIGBUS)),
       ((3, A_BOLD), bytes ('' 0.000 CRASH      child crashed: '' @ signal_name SIGSEGV)),
       ((CP_FAULT, A_BOLD), bytes (''child killed by signal '' @ show_nat 11))]"
    by (simp add: demo_env_def demo_records_def line exit_lines_def)
  have "map (\<lambda>(i, sty, str). Put (1 + int i) 1 (fit (34 - 2) (take 255 str)) sty)
        (enumerate 0 [((3, A_BOLD), bytes ('' 0.000 CRASH      child crashed: '' @ signal_name SIGBUS)),
           ((3, A_BOLD), bytes ('' 0.000 CRASH      child crashed: '' @ signal_name SIGSEGV)),
           ((CP_FAULT, A_BOLD), bytes (''child killed by signal '' @ show_nat 11))]) =
      [Put 1 1 (bytes '' 0.000 CRASH      child crashed:'') (3, A_BOLD),
        Put 2 1 (bytes '' 0.000 CRASH      child crashed:'') (3, A_BOLD),
        Put 3 1 (bytes ''child killed by signal 11       '') (3, A_BOLD)]"
    by code_simp
  from drawn [unfolded lines this] run show ?thesis by blast
qed

section \<open>Aborting\<close>

definition asks_abort :: "ui_turn \<Rightarrow> bool" where
  "asks_abort tn \<longleftrightarrow> tn_key tn = Some (Key CHR ''q'') \<or> tn_key tn = Some (Key CHR ''Q'')"

lemma event_turns_kills:
  assumes "event_turns e h tns ab inp ans t = Some (t', acts)" and "0 < child_pid h"
  shows "acts = [] \<or> \<not> ab \<and> acts = [SysKill (child_pid h) SIGTERM] \<and> (\<exists>tn \<in> set tns. asks_abort tn)"
  using assms(1)
proof (induction tns arbitrary: ab inp ans t acts)
  case Nil
  then show ?case by (simp add: event_turns.simps)
next
  case (Cons tn tns)
  obtain t1 now ab1 where k: "abort_key h (tn_key tn) ab t = (t1, now, ab1)" by (metis prod_cases3)
  have now: "now = [] \<and> ab1 = ab \<or> \<not> ab \<and> ab1 \<and> now = [SysKill (child_pid h) SIGTERM] \<and> asks_abort tn"
    using k assms(2) by (auto simp: abort_key_def pg_run_abort_def asks_abort_def split: if_splits)
  from Cons.prems k consider "acts = now" | "acts = []"
    | inp' ans' t2 later where "event_turns e h tns ab1 inp' ans' t2 = Some (t', later)" "acts = now @ later"
    by (auto simp: event_turns.simps(2) Let_def split: if_splits option.splits prod.splits)
  then show ?case
  proof cases
    case 1
    with now show ?thesis by auto
  next
    case 2
    then show ?thesis by simp
  next
    case 3
    from Cons.IH [OF 3(1)] now 3(2) show ?thesis by auto
  qed
qed

lemma reap_acts:
  assumes "pg_run_reap (Some h) ws = Some (rr, st, h', acts)"
  shows "acts = [] \<or> acts = [SysClose (event_fd h)]"
proof -
  obtain y where "(if child_pid h > 0 then wait_loop ws else Some (Inr (WExited 0))) = Some y"
    using assms by (auto simp: pg_run_reap_def bind_eq_Some_conv)
  with assms show ?thesis by (cases y) (auto simp: pg_run_reap_def Let_def split: if_splits)
qed

text \<open>
  C32: one SIGTERM, to the child, and only when asked. Whatever happens in the terminal, in the
  kernel and in the child, a run that returns has sent a signal at most once, it was SIGTERM to
  the process it forked, and q or Q had been pressed; a second q does nothing.
\<close>

theorem run_kills_at_most_once:
  assumes "run_scenario e s seed w t = Some (rc, acts, t')"
  shows "case filter (\<lambda>a. case a of SysKill p g \<Rightarrow> True | _ \<Rightarrow> False) acts of
      [] \<Rightarrow> True
    | [SysKill p g] \<Rightarrow> p = rw_fork w \<and> 0 < p \<and> g = SIGTERM \<and> list_ex asks_abort (rw_turns w)
    | _ \<Rightarrow> False"
proof -
  let ?t = "run_begin e s seed t"
  show ?thesis
  proof (cases "pg_run_start (Some s) seed True (te_cpu_limit e) (rw_pipe w) (rw_fork w)")
    case (InChild k)
    with assms show ?thesis by (simp add: run_scenario_def Let_def)
  next
    case (Parent r er ho acts1)
    show ?thesis
    proof (cases ho)
      case None
      with Parent assms show ?thesis
        by (auto simp: run_scenario_def Let_def pg_run_start_def split: option.splits prod.splits if_splits)
    next
      case (Some h)
      with Parent have h: "0 < child_pid h" "child_pid h = rw_fork w"
        and a1: "filter (\<lambda>a. case a of SysKill p g \<Rightarrow> True | _ \<Rightarrow> False) acts1 = []"
        by (auto simp: pg_run_start_def Let_def split: option.splits prod.splits if_splits)
      from assms Parent Some obtain t1 acts2 rr st h' acts3 where
        et: "event_turns e h (rw_turns w) False (rw_stream w) (rw_reads w) ?t = Some (t1, acts2)"
        and rp: "pg_run_reap (Some h) (rw_waits w) = Some (rr, st, h', acts3)"
        and acts: "acts = acts1 @ acts2 @ acts3"
        by (auto simp: run_scenario_def Let_def bind_eq_Some_conv)
      have "filter (\<lambda>a. case a of SysKill p g \<Rightarrow> True | _ \<Rightarrow> False) acts3 = []"
        using reap_acts [OF rp] by auto
      with event_turns_kills [OF et h(1)] a1 acts h show ?thesis by (auto simp: list_ex_iff)
    qed
  qed
qed

theorem run_kills_at_most_once_witness:
  "case filter (\<lambda>a. case a of SysKill p g \<Rightarrow> True | _ \<Rightarrow> False) [SysOpen 5, SysOpen 6, SysClose 6, SysKill 77 SIGTERM, SysClose 5] of
      [] \<Rightarrow> True
    | [SysKill p g] \<Rightarrow> p = 77 \<and> 0 < p \<and> g = SIGTERM \<and> list_ex asks_abort [demo_turn\<lparr>tn_key := Some (Key CHR ''q''), tn_event := False\<rparr>, demo_turn\<lparr>tn_poll := -1\<rparr>]
    | _ \<Rightarrow> False"
proof -
  let ?w = "demo_run_world\<lparr>rw_turns := [demo_turn\<lparr>tn_key := Some (Key CHR ''q''), tn_event := False\<rparr>, demo_turn\<lparr>tn_poll := -1\<rparr>]\<rparr>"
  obtain rc t' where "run_scenario demo_env demo_crasher 42 ?w (init_tui 24 80) =
      Some (rc, [SysOpen 5, SysOpen 6, SysClose 6, SysKill 77 SIGTERM, SysClose 5], t')"
    using run_scenario_started [of ?w 5 6 "WSignaled SIGSEGV" "[]" demo_env 42 demo_crasher "init_tui 24 80" _ "[SysKill 77 SIGTERM]"]
    by (simp add: demo_run_world_def event_turns.simps demo_turn_def abort_key_def pg_run_abort_def)
  from run_kills_at_most_once [OF this] show ?thesis by (simp add: demo_run_world_def)
qed

text \<open>
  An interrupted \<open>poll\<close> ends the display. A signal that is caught in the parent, as a change of
  the size of the terminal is, makes \<open>poll\<close> return \<open>-1\<close>; the loop then leaves as if the run
  had failed: nothing the child still sends is read, and the wait begins.
\<close>

theorem interrupted_poll_loses_events:
  assumes "rw_pipe w = Some (rd, wr)" and "0 < rw_fork w" and "0 \<le> rd" and "rw_waits w = [Reaped st]"
    and "rw_turns w = tn # tns" and "tn_poll tn < 0"
  shows "\<exists>acts t'. run_scenario e s seed w t = Some (0, acts, t')
    \<and> t_log t' = log_pushes (start_line s seed # exit_lines st) (log_clear (t_log t)) \<and> t_stats t' = []"
proof -
  have "event_turns e h (rw_turns w) False (rw_stream w) (rw_reads w) (run_begin e s seed t) =
      Some (run_begin e s seed t, [])" for h
    using assms(5,6) by (simp add: event_turns.simps)
  from run_scenario_started [OF assms(1-4) this] show ?thesis
    by (simp add: exit_line_effect run_begin_effect log_pushes_append [symmetric])
qed

section \<open>What every key keeps\<close>

lemma pg_run_poll_got:
  assumes "pg_run_poll (Some h) True t pr inp ans = Some (1, got, inp', ans')"
  shows "length got = EVENT_SIZE"
proof -
  obtain q g i a where pl: "poll_loop [] inp ans = Some (q, g, i, a)"
    using assms by (auto simp: pg_run_poll_def bind_eq_Some_conv split: option.splits if_splits)
  have "q = None \<and> g = got"
    using assms poll_loop_conserves [OF pl]
    by (cases q) (auto simp: pg_run_poll_def pl split: option.splits if_splits)
  with poll_loop_conserves [OF pl] show ?thesis by simp
qed

lemma event_turns_inv:
  assumes "event_turns e h tns ab inp ans t = Some (t', acts)" and "P t"
    and push: "\<And>t cp at s. P t \<Longrightarrow> P (log_push cp at s t)"
    and ev: "\<And>ev t t'. P t \<Longrightarrow> event_wf ev \<Longrightarrow> show_event e ev t = Some t' \<Longrightarrow> P t'"
  shows "P t'"
  using assms(1,2)
proof (induction tns arbitrary: ab inp ans t acts)
  case Nil
  then show ?case by (simp add: event_turns.simps)
next
  case (Cons tn tns)
  obtain t1 now ab1 where k: "abort_key h (tn_key tn) ab t = (t1, now, ab1)" by (metis prod_cases3)
  have t1: "P t1" using k push [OF Cons.prems(2)] Cons.prems(2) by (auto simp: abort_key_def split: if_splits)
  from Cons.prems(1) k consider "t' = t" | "t' = t1"
    | (idle) inp' ans' later where "event_turns e h tns ab1 inp' ans' t1 = Some (t', later)"
    | (shown) got inp' ans' t2 where
        "pg_run_poll (Some h) True 0 (tn_probe tn) inp ans = Some (1, got, inp', ans')"
        "show_event e (decode_event got) t1 = Some t2"
        "t' = t2 \<or> (\<exists>later. event_turns e h tns ab1 inp' ans' t2 = Some (t', later))"
    by (auto simp: event_turns.simps(2) Let_def split: if_splits option.splits prod.splits)
  then show ?case
  proof cases
    case shown
    have "P t2" using ev [OF t1 _ shown(2)] pg_run_poll_got [OF shown(1)] by (simp add: decode_event_wf)
    with shown(3) Cons.IH show ?thesis by blast
  next
    case idle
    with Cons.IH t1 show ?thesis by blast
  qed (use t1 Cons.prems(2) in simp_all)
qed

text \<open>Closed under a run: pushes, events, clearing, the exit status, redrawing.\<close>

lemma run_scenario_inv:
  assumes "run_scenario e s seed w t = Some (rc, acts, t')" and "P (run_begin e s seed t)"
    and push: "\<And>t cp at s. P t \<Longrightarrow> P (log_push cp at s t)"
    and ev: "\<And>ev t t'. P t \<Longrightarrow> event_wf ev \<Longrightarrow> show_event e ev t = Some t' \<Longrightarrow> P t'"
    and exit: "\<And>t st. P t \<Longrightarrow> P (t\<lparr>g_last_exit := st\<rparr>)"
    and draw: "\<And>t. P t \<Longrightarrow> P (redraw_all e running_status t)"
  shows "P t'"
proof -
  have line: "P t \<Longrightarrow> P (exit_line t)" for t by (auto simp: exit_line_def push split: wait_status.splits)
  show ?thesis
  proof (cases "pg_run_start (Some s) seed True (te_cpu_limit e) (rw_pipe w) (rw_fork w)")
    case (InChild k)
    with assms show ?thesis by (simp add: run_scenario_def Let_def)
  next
    case (Parent r er ho acts1)
    show ?thesis
    proof (cases ho)
      case None
      with Parent assms(1,2) show ?thesis by (auto simp: run_scenario_def Let_def push draw)
    next
      case (Some h)
      with Parent assms(1) obtain t1 acts2 st where et:
        "event_turns e h (rw_turns w) False (rw_stream w) (rw_reads w) (run_begin e s seed t) = Some (t1, acts2)"
        and t': "t' = exit_line (case st of None \<Rightarrow> t1 | Some st \<Rightarrow> t1\<lparr>g_last_exit := st\<rparr>)"
        by (auto simp: run_scenario_def Let_def bind_eq_Some_conv)
      have "P t1"
        by (rule event_turns_inv [where P = P, OF et assms(2)]) (blast intro: push, blast intro: ev)
      then show ?thesis unfolding t' by (auto intro: line exit split: option.splits)
    qed
  qed
qed

definition stats_ok :: "stats \<Rightarrow> bool" where
  "stats_ok g \<longleftrightarrow> length g \<le> STATS_MAX \<and> distinct (stat_keys g)
     \<and> list_all (\<lambda>s. length (st_key s) < PG_EVENT_KEY_LEN) g"

lemma stat_add_ok:
  assumes "stats_ok g" and "length (snd k) < PG_EVENT_KEY_LEN"
  shows "stats_ok (stat_add k v g)"
proof (cases "k \<in> set (stat_keys g)")
  case True
  then obtain pre b post where "g = pre @ b # post" "stat_add k v g = pre @ stat_step k v b # post"
    by (rule stat_split)
  with assms(1) show ?thesis by (simp add: stats_ok_def stat_keys_def)
next
  case False
  moreover have "st_key (stat_start k v) = snd k" using stat_start_key [OF assms(2), of v] by (metis snd_conv)
  ultimately show ?thesis
    using assms stat_start_key [OF assms(2), of v] by (auto simp: stat_add_new stats_ok_def stat_keys_def)
qed

lemma takeWhile_shorter: "x \<in> set xs \<Longrightarrow> \<not> P x \<Longrightarrow> length (takeWhile P xs) < length xs"
  by (induction xs) auto

lemma stat_event_ok:
  assumes "stats_ok g" and "event_wf ev" and "stat_event ev g = Some g'"
  shows "stats_ok g'"
proof -
  have key: "length k < PG_EVENT_KEY_LEN" if "cstr (ev_key ev) = Some k" for k
  proof -
    from that have "k = takeWhile (\<lambda>x. x \<noteq> 0) (ev_key ev)" "0 \<in> set (ev_key ev)"
      by (auto simp: cstr_def split: if_splits)
    then have "length k < length (ev_key ev)" using takeWhile_shorter [of 0 "ev_key ev"] by simp
    then show ?thesis using assms(2) by (simp add: event_wf_def)
  qed
  have up: "stats_ok (stat_upsert k (ev_num ev) kind d g)"
    if "cstr (ev_key ev) = Some k" "d = (kind = PG_EV_COUNTER)" for k kind d
    using stat_add_ok [OF assms(1), of "(kind, k)" "ev_num ev"] key [OF that(1)] that(2) by (simp add: stat_add_def)
  from assms(1,3) show ?thesis
    by (auto simp: stat_event_def split: option.splits pg_event_kind_t.splits intro!: up)
qed

text \<open>The parts of the state have the shape their declarations promise.\<close>

definition tui_ok :: "'s tui_env \<Rightarrow> tui \<Rightarrow> bool" where
  "tui_ok e t \<longleftrightarrow> length (g_log (t_log t)) = LOG_LINES \<and> stats_ok (t_stats t)
     \<and> (g_sel t < length (g_scens e) \<or> g_scens e = [] \<and> g_sel t = 0)"

definition main_ok :: "'s tui_env \<Rightarrow> 's main \<Rightarrow> bool" where
  "main_ok e m \<longleftrightarrow> tui_ok e (m_tui m)
     \<and> (m_state m = S_POST \<longrightarrow> (case m_last m of None \<Rightarrow> False | Some s \<Rightarrow> s \<in> set (g_scens e)))"

lemma tui_ok_simps [simp]:
  "tui_ok e (log_push cp at s t) = tui_ok e t" "tui_ok e (redraw_all e st t) = tui_ok e t"
  "tui_ok e (t\<lparr>g_last_exit := x\<rparr>) = tui_ok e t" "tui_ok e (t\<lparr>t_wins := l\<rparr>) = tui_ok e t"
  "tui_ok e (t\<lparr>t_screens := ss\<rparr>) = tui_ok e t"
  by (simp_all add: tui_ok_def log_push_def log_pushf_def redraw_all_def Let_def)

lemma tui_ok_run:
  assumes "tui_ok e t" and "run_scenario e s seed w t = Some (rc, acts, t')"
  shows "tui_ok e t'"
proof (rule run_scenario_inv [OF assms(2), where P = "tui_ok e"])
  show "tui_ok e (run_begin e s seed t)"
    using assms(1) by (simp add: run_begin_def) (simp add: tui_ok_def log_clear_def stats_clear_def stats_ok_def stat_keys_def)
next
  fix ev t1 t2
  assume "tui_ok e t1" "event_wf ev" "show_event e ev t1 = Some t2"
  then show "tui_ok e t2"
    by (auto simp: show_event_def push_event_def bind_eq_Some_conv) (auto simp: tui_ok_def log_pushf_def intro: stat_event_ok)
qed simp_all

lemma run_keeps_seed:
  assumes "run_scenario e s seed w t = Some (rc, acts, t')"
  shows "g_last_seed t' = seed"
  by (rule run_scenario_inv [OF assms, where P = "\<lambda>t. g_last_seed t = seed"])
    (auto simp: run_begin_effect log_push_def redraw_all_def show_event_def bind_eq_Some_conv Let_def)

lemma run_last_ok:
  assumes "tui_ok e (m_tui m)" and "run_last e s seed w m = Some (acts, m')"
  shows "tui_ok e (m_tui m') \<and> m_last m' = m_last m \<and> m_state m' = m_state m \<and> g_last_seed (m_tui m') = seed"
  using assms tui_ok_run run_keeps_seed by (auto simp: run_last_def)

lemma sel_ok:
  assumes "tui_ok e (m_tui m)"
  shows "tui_ok e (m_tui (sel_up m))" and "tui_ok e (m_tui (sel_down e m))"
    and "m_state (sel_up m) = m_state m" and "m_state (sel_down e m) = m_state m"
  using assms by (auto simp: tui_ok_def sel_up_def sel_down_def Let_def)

lemma menu_key_cases:
  assumes "menu_key e i m = Some (acts, m')"
  shows "(m' = m\<lparr>m_running := False\<rparr> \<or> m' = sel_up m \<or> m' = sel_down e m \<or> m' = resize i m \<or> m' = m)
      \<and> (enter_key (in_key i) \<longrightarrow> g_scens e = [])
    \<or> enter_key (in_key i) \<and> g_scens e \<noteq> [] \<and> (\<exists>m1. m' = m1\<lparr>m_state := S_POST\<rparr>
        \<and> run_last e (g_scens e ! g_sel (m_tui m)) (in_now i) (in_run i)
            (m\<lparr>m_last := Some (g_scens e ! g_sel (m_tui m))\<rparr>) = Some (acts, m1))"
proof -
  let ?k = "in_key i"
  have e: "enter_key ?k \<Longrightarrow> \<not> quit_key ?k" "\<not> enter_key KEY_UP" "\<not> enter_key KEY_DOWN" "\<not> enter_key KEY_RESIZE"
    by (auto simp: enter_key_def quit_key_def)
  show ?thesis
  proof (cases "enter_key ?k")
    case True
    with e have "?k \<noteq> KEY_UP" "?k \<noteq> KEY_DOWN" "?k \<noteq> KEY_RESIZE" "\<not> quit_key ?k" by metis+
    with True assms show ?thesis by (cases "g_scens e = []") (auto simp: menu_key_def Let_def)
  next
    case False
    with assms show ?thesis
      by (cases "quit_key ?k"; cases "?k = KEY_UP"; cases "?k = KEY_DOWN"; cases "?k = KEY_RESIZE")
        (simp_all add: menu_key_def Let_def)
  qed
qed

lemma post_key_cases:
  assumes "post_key e i m = Some (acts, m')"
  shows "(m' = m\<lparr>m_running := False\<rparr> \<or> m' = resize i m \<or> m' = m\<lparr>m_state := S_MENU\<rparr> \<or> m' = m
        \<or> (\<exists>scs. m' = m\<lparr>m_tui := (m_tui m)\<lparr>t_screens := scs\<rparr>\<rparr>))
      \<and> (in_key i = Key CHR ''R'' \<longrightarrow> m_last m = None)
    \<or> (\<exists>s. m_last m = Some s \<and> run_last e s
          (if in_key i = Key CHR ''R'' then in_now i XOR g_last_seed (m_tui m) XOR 0x5A5A5A5A else g_last_seed (m_tui m))
          (in_run i) m = Some (acts, m'))"
proof -
  let ?k = "in_key i"
  have q: "\<not> quit_key (Key CHR ''R'')" "\<not> quit_key (Key CHR ''r'')" by (simp_all add: quit_key_def)
  consider "quit_key ?k" | "?k = Key CHR ''r''" | "?k = Key CHR ''R''"
    | "\<not> quit_key ?k" "?k \<noteq> Key CHR ''r''" "?k \<noteq> Key CHR ''R''"
    by blast
  then show ?thesis
  proof cases
    case 1
    with q have "?k \<noteq> Key CHR ''R''" by metis
    with 1 assms show ?thesis by (simp add: post_key_def)
  next
    case 2
    with q assms show ?thesis by (cases "m_last m") (simp_all add: post_key_def)
  next
    case 3
    with q assms show ?thesis by (cases "m_last m") (simp_all add: post_key_def)
  next
    case 4
    show ?thesis
    proof (cases "(?k = Key CHR ''e'' \<or> ?k = Key CHR ''E'') \<and> m_last m \<noteq> None")
      case True
      with 4 assms have "\<exists>scs. m' = m\<lparr>m_tui := (m_tui m)\<lparr>t_screens := scs\<rparr>\<rparr>"
        by (auto simp: post_key_def Let_def simp del: ex_simps)
      with 4 show ?thesis by blast
    next
      case False
      with 4 assms have "Some (acts, m') = (if ?k = KEY_RESIZE then Some ([], resize i m)
          else if enter_key ?k \<or> ?k = Key CHR 0x1B then Some ([], m\<lparr>m_state := S_MENU\<rparr>) else Some ([], m))
        \<or> Some (acts, m') = Some ([], m)"
        by (cases "?k = Key CHR ''e'' \<or> ?k = Key CHR ''E''") (simp_all add: post_key_def Let_def)
      then have "m' = resize i m \<or> m' = m\<lparr>m_state := S_MENU\<rparr> \<or> m' = m" by (metis option.inject prod.inject)
      with 4 show ?thesis by blast
    qed
  qed
qed

lemma menu_key_ok:
  assumes "tui_ok e (m_tui m)" and "m_state m = S_MENU" and "menu_key e i m = Some (acts, m')"
  shows "main_ok e m'"
proof -
  define s where "s = g_scens e ! g_sel (m_tui m)"
  have s: "s \<in> set (g_scens e)" if "g_scens e \<noteq> []"
    using assms(1) that by (auto simp: tui_ok_def s_def)
  from menu_key_cases [OF assms(3)] show ?thesis
  proof (elim disjE conjE exE)
    fix m1
    assume "g_scens e \<noteq> []" "m' = m1\<lparr>m_state := S_POST\<rparr>"
      and "run_last e (g_scens e ! g_sel (m_tui m)) (in_now i) (in_run i)
        (m\<lparr>m_last := Some (g_scens e ! g_sel (m_tui m))\<rparr>) = Some (acts, m1)"
    with run_last_ok [OF _ this(3)] assms(1) s show ?thesis by (simp add: main_ok_def s_def)
  qed (use assms sel_ok [OF assms(1)] in \<open>simp_all add: main_ok_def resize_def\<close>)
qed

lemma post_key_ok:
  assumes "main_ok e m" and "m_state m = S_POST" and "post_key e i m = Some (acts, m')"
  shows "main_ok e m'"
proof -
  obtain s where s: "m_last m = Some s" "s \<in> set (g_scens e)"
    using assms(1,2) by (auto simp: main_ok_def split: option.splits)
  have ok: "tui_ok e (m_tui m)" using assms(1) by (simp add: main_ok_def)
  from post_key_cases [OF assms(3)] show ?thesis
  proof (elim disjE conjE exE)
    fix s'
    assume "run_last e s' (if in_key i = Key CHR ''R'' then in_now i XOR g_last_seed (m_tui m) XOR 0x5A5A5A5A
        else g_last_seed (m_tui m)) (in_run i) m = Some (acts, m')"
    from run_last_ok [OF ok this] s show ?thesis by (simp add: main_ok_def)
  qed (use assms(1,2) s ok in \<open>simp_all add: main_ok_def resize_def\<close>)
qed

text \<open>
  C16: every key keeps the state well formed. The log has its 512 slots, the statistics at most 64
  entries with different names that fit their field, the selection is a scenario of the menu
  when there is one, and after a run there is a scenario to rerun. Every key,
  with everything the run it starts may do, keeps it.
\<close>

theorem keys_keep_state_ok:
  assumes "main_ok e m" and "main_step e i m = Some (acts, m')"
  shows "main_ok e m'"
proof (cases "in_key i = ERR")
  case True
  with assms show ?thesis by (simp add: main_step_def)
next
  case False
  with assms(2) obtain m1 st where "(if m_state m = S_MENU then menu_key e i m else post_key e i m) = Some (acts, m1)"
    "m' = m1\<lparr>m_tui := redraw_all e st (m_tui m1)\<rparr>"
    by (auto simp: main_step_def)
  moreover from this(1) have "main_ok e m1"
    using menu_key_ok [of e m i acts m1] post_key_ok [of e m i acts m1] assms(1)
    by (cases "m_state m") (auto simp: main_ok_def)
  ultimately show ?thesis by (simp add: main_ok_def)
qed

lemma init_main_ok:
  "main_ok e \<lparr>m_state = S_MENU, m_running = True, m_last = None, m_tui = init_tui rows cols\<rparr>"
  by (auto simp: main_ok_def tui_ok_def init_tui_def init_log_def stats_ok_def stat_keys_def)

theorem keys_keep_state_ok_witness:
  "main_ok demo_env (sel_down demo_env \<lparr>m_state = S_MENU, m_running = True, m_last = None,
      m_tui = redraw_all demo_env menu_status (init_tui 24 80)\<rparr>)"
proof -
  let ?m = "\<lparr>m_state = S_MENU, m_running = True, m_last = None, m_tui = init_tui 24 80\<rparr>"
  let ?i = "\<lparr>in_key = KEY_DOWN, in_now = 0, in_rows = 24, in_cols = 80, in_run = demo_run_world\<rparr>"
  have "main_step demo_env ?i ?m = Some ([], (sel_down demo_env \<lparr>m_state = S_MENU, m_running = True, m_last = None,
      m_tui = redraw_all demo_env menu_status (init_tui 24 80)\<rparr>))"
    by (simp add: main_step_def menu_key_def quit_key_def sel_down_def demo_env_def init_tui_def Let_def redraw_all_def)
  from keys_keep_state_ok [OF init_main_ok this] show ?thesis .
qed

section \<open>Seeds\<close>

lemma run_last_seed:
  "run_last e s seed w m = Some (acts, m') \<Longrightarrow> g_last_seed (m_tui m') = seed"
  using run_keeps_seed by (auto simp: run_last_def)

text \<open>
  the seed changes only on request. After a step the last seed is the time when a run was
  started from the menu, the mix of the time and the old one when R asked for a new one, and in
  every other case, a rerun with r included, what it was.
\<close>

theorem seed_changes_on_request:
  assumes "main_step e i m = Some (acts, m')"
  shows "g_last_seed (m_tui m') =
    (if m_state m = S_MENU \<and> enter_key (in_key i) \<and> g_scens e \<noteq> [] then in_now i
     else if m_state m = S_POST \<and> in_key i = Key CHR ''R'' \<and> m_last m \<noteq> None
     then in_now i XOR g_last_seed (m_tui m) XOR 0x5A5A5A5A
     else g_last_seed (m_tui m))"
proof (cases "in_key i = ERR")
  case True
  with assms show ?thesis by (simp add: main_step_def enter_key_def)
next
  case False
  with assms obtain m1 st where k: "(if m_state m = S_MENU then menu_key e i m else post_key e i m) = Some (acts, m1)"
    and "m' = m1\<lparr>m_tui := redraw_all e st (m_tui m1)\<rparr>"
    by (auto simp: main_step_def)
  then have m': "g_last_seed (m_tui m') = g_last_seed (m_tui m1)" by (simp add: redraw_all_def Let_def)
  have kept: "g_last_seed (m_tui (sel_up m)) = g_last_seed (m_tui m)" "g_last_seed (m_tui (sel_down e m)) = g_last_seed (m_tui m)"
    "g_last_seed (m_tui (resize i m)) = g_last_seed (m_tui m)"
    by (simp_all add: sel_up_def sel_down_def resize_def Let_def)
  show ?thesis
  proof (cases "m_state m")
    case S_MENU
    with k have "menu_key e i m = Some (acts, m1)" by simp
    from menu_key_cases [OF this] S_MENU kept show ?thesis unfolding m'
      by (elim disjE conjE exE) (auto simp add: run_last_seed)
  next
    case S_POST
    with k have "post_key e i m = Some (acts, m1)" by simp
    from post_key_cases [OF this] S_POST kept show ?thesis unfolding m'
      by (elim disjE conjE exE) (auto simp add: run_last_seed)
  qed
qed

text \<open>
  R twice within a second is no new seed: the time and the constant cancel, and the second run
  repeats the one before the first. Right after a run from the menu, within the same second, the
  first R gives the constant itself.
\<close>

lemma new_seed_step:
  assumes "m_state m = S_POST" and "m_last m = Some s" and "in_key i = Key CHR ''R''"
    and "main_step e i m = Some (acts, m')"
  shows "g_last_seed (m_tui m') = in_now i XOR g_last_seed (m_tui m) XOR 0x5A5A5A5A
    \<and> m_state m' = S_POST \<and> m_last m' = Some s"
  using assms run_keeps_seed
  by (auto simp: main_step_def post_key_def redraw_all_def Let_def run_last_def quit_key_def)

text \<open>
  a new seed is not always new. When R is pressed twice while \<open>time(NULL)\<close> stands still, the
  second run has the seed of the run before the first.
\<close>

theorem new_seed_twice_is_the_old:
  assumes "m_state m = S_POST" and "m_last m = Some s"
    and "in_key i = Key CHR ''R''" and "in_key j = Key CHR ''R''" and "in_now j = in_now i"
    and "main_step e i m = Some (a, m1)" and "main_step e j m1 = Some (b, m2)"
  shows "g_last_seed (m_tui m2) = g_last_seed (m_tui m)"
proof -
  note 1 = new_seed_step [OF assms(1,2,3,6)]
  with new_seed_step [OF _ _ assms(4,7), of s] assms(5) show ?thesis
    by (simp add: xor.assoc xor.left_commute xor.commute)
qed

definition demo_post :: "unit main" where
  "demo_post = \<lparr>m_state = S_POST, m_running = True, m_last = Some demo_crasher, m_tui = init_tui 24 80\<rparr>"

text \<open>A world in which the pipe cannot be made: the run returns at once.\<close>

definition demo_input :: "key \<Rightarrow> u64 \<Rightarrow> input" where
  "demo_input k now = \<lparr>in_key = k, in_now = now, in_rows = 24, in_cols = 80, in_run = demo_run_world\<lparr>rw_pipe := None\<rparr>\<rparr>"

lemma demo_step:
  assumes "m_state m = S_POST" and "m_last m = Some demo_crasher"
  shows "\<exists>m1. main_step demo_env (demo_input (Key CHR ''R'') now) m = Some ([], m1)"
  using assms by (auto simp: main_step_def post_key_def quit_key_def run_last_def run_scenario_def pg_run_start_def demo_input_def
      demo_run_world_def Let_def)

theorem new_seed_twice_is_the_old_witness:
  "\<exists>m1 m2. main_step demo_env (demo_input (Key CHR ''R'') 9) demo_post = Some ([], m1)
    \<and> main_step demo_env (demo_input (Key CHR ''R'') 9) m1 = Some ([], m2) \<and> g_last_seed (m_tui m2) = 0"
proof -
  have 0: "m_state demo_post = S_POST" "m_last demo_post = Some demo_crasher" by (simp_all add: demo_post_def)
  then obtain m1 where 1: "main_step demo_env (demo_input (Key CHR ''R'') 9) demo_post = Some ([], m1)"
    using demo_step by blast
  then have "m_state m1 = S_POST" "m_last m1 = Some demo_crasher"
    using new_seed_step [OF 0 _ 1] by (simp_all add: demo_input_def)
  then obtain m2 where 2: "main_step demo_env (demo_input (Key CHR ''R'') 9) m1 = Some ([], m2)"
    using demo_step by blast
  have "g_last_seed (m_tui m2) = g_last_seed (m_tui demo_post)"
    by (rule new_seed_twice_is_the_old [OF 0 _ _ _ 1 2]) (simp_all add: demo_input_def)
  with 1 2 show ?thesis by (simp add: demo_post_def init_tui_def)
qed

theorem seed_changes_on_request_witness:
  "\<exists>m1. main_step demo_env (demo_input (Key CHR ''r'') 9) demo_post = Some ([], m1) \<and> g_last_seed (m_tui m1) = 0"
proof -
  obtain m1 where m1: "main_step demo_env (demo_input (Key CHR ''r'') 9) demo_post = Some ([], m1)"
    by (auto simp: main_step_def post_key_def quit_key_def run_last_def run_scenario_def pg_run_start_def demo_input_def demo_post_def
      demo_run_world_def Let_def)
  from seed_changes_on_request [OF this] m1 show ?thesis by (simp add: demo_input_def demo_post_def init_tui_def)
qed

end
