(* ===== verification/Script.thy ===== *)
theory Script
  imports Runner
begin

text \<open>
  How the scenario models are written. The emit helpers return nothing, so a \<open>run\<close> callback is
  modelled as the list of events it emits and the way it ends, and \<open>play\<close> turns that into a
  callback of the runner, through \<open>pg_emit\<close>. \<open>golden\<close> is what a line of the files under
  \<open>tests/golden\<close> shows of an event: kind, key, number and text.
\<close>

type_synonym 'a script = "pg_event_t list \<times> 'a outcome"

definition play :: "'a script \<Rightarrow> 'a call" where
  "play s c = (case emit_all TheCtx (fst s) c of None \<Rightarrow> None | Some c \<Rightarrow> Some (c, snd s))"

text \<open>
  What a model of \<open>run\<close> yields. \<open>None\<close> is a run that does not come back, or that leaves the
  memory the model gives it.
\<close>

type_synonym run_result = "int script option"

definition play_run :: "run_result \<Rightarrow> int call" where
  "play_run r c = (case r of None \<Rightarrow> None | Some s \<Rightarrow> play s c)"

text \<open>The adjacent string literals of a lesson, one per line of the text.\<close>

fun join_lines :: "string list \<Rightarrow> string" where
  "join_lines [] = []"
| "join_lines [l] = l"
| "join_lines (l # ls) = l @ CHR 0x0A # join_lines ls"

section \<open>The emit helpers as events\<close>

definition ev_phase :: "string \<Rightarrow> pg_event_t" where
  "ev_phase s = text_event PG_EV_PHASE (Some (bytes s))"

definition ev_fault :: "string \<Rightarrow> pg_event_t" where
  "ev_fault s = text_event PG_EV_SUT_FAULT (Some (bytes s))"

definition ev_log :: "string \<Rightarrow> pg_event_t" where
  "ev_log s = log_event (bytes s)"

definition ev_expect :: "string \<Rightarrow> i64 \<Rightarrow> pg_event_t" where
  "ev_expect k v = kv_event PG_EV_EXPECT (Some (bytes k)) v"

definition ev_actual :: "string \<Rightarrow> i64 \<Rightarrow> pg_event_t" where
  "ev_actual k v = kv_event PG_EV_ACTUAL (Some (bytes k)) v"

definition ev_count :: "string \<Rightarrow> i64 \<Rightarrow> pg_event_t" where
  "ev_count k v = kv_event PG_EV_COUNTER (Some (bytes k)) v"

definition ev_gauge :: "string \<Rightarrow> i64 \<Rightarrow> pg_event_t" where
  "ev_gauge k v = kv_event PG_EV_GAUGE (Some (bytes k)) v"

section \<open>Formats of \<open>printf\<close>\<close>

text \<open>\<open>%p\<close> of a pointer, as glibc prints it.\<close>

definition show_ptr :: "u64 \<Rightarrow> string" where
  "show_ptr p = (if p = 0 then ''(nil)'' else ''0x'' @ show_base 16 (unat p))"

text \<open>\<open>%04x\<close>.\<close>

definition show_04x :: "u32 \<Rightarrow> string" where
  "show_04x w = (let s = show_base 16 (unat w) in replicate (4 - length s) (CHR ''0'') @ s)"

section \<open>Reading events back\<close>

definition golden :: "pg_event_t \<Rightarrow> string \<times> u8 list option \<times> int \<times> u8 list option" where
  "golden ev = (pg_event_kind_name (ev_kind ev), cstr (ev_key ev), sint (ev_num ev), cstr (ev_text ev))"

definition line :: "string \<Rightarrow> string \<Rightarrow> int \<Rightarrow> string \<Rightarrow> string \<times> u8 list option \<times> int \<times> u8 list option" where
  "line kind key num s = (kind, Some (bytes key), num, Some (bytes s))"

text \<open>A text that fits into the field and holds no NUL.\<close>

definition plain :: "nat \<Rightarrow> string \<Rightarrow> bool" where
  "plain n s \<longleftrightarrow> length s < n \<and> CHR 0x00 \<notin> set s"

lemma cstr_plain: "plain n s \<Longrightarrow> cstr (cfield n (bytes s)) = Some (bytes s)"
  by (auto simp: plain_def cstr_cfield bytes_no_nul)

lemma show_ptr_plain: "length (show_ptr p) \<le> 18" "CHR 0x00 \<notin> set (show_ptr p)"
proof -
  have "length (show_base 16 (unat p)) \<le> Suc 15"
    by (rule show_base_length) (use unat_lt_64 [of p] in simp_all)
  with show_base_no_nul [of 16 "unat p"]
  show "length (show_ptr p) \<le> 18" "CHR 0x00 \<notin> set (show_ptr p)"
    by (auto simp: show_ptr_def)
qed

lemma cstr_zeros: "0 < n \<Longrightarrow> cstr (replicate n 0) = Some []"
  by (auto simp: cstr_def)

lemmas event_helper_defs = ev_phase_def ev_fault_def ev_log_def ev_expect_def ev_actual_def
  ev_count_def ev_gauge_def text_event_def log_event_def kv_event_def blank_event_def or_empty_def

lemma golden_events:
  "plain 192 s \<Longrightarrow> golden (ev_phase s) = line ''phase'' [] 0 s"
  "plain 192 s \<Longrightarrow> golden (ev_fault s) = line ''sut_fault'' [] 0 s"
  "plain 192 s \<Longrightarrow> golden (ev_log s) = line ''log'' [] 0 s"
  "plain 32 k \<Longrightarrow> golden (ev_expect k v) = line ''expect'' k (sint v) []"
  "plain 32 k \<Longrightarrow> golden (ev_actual k v) = line ''actual'' k (sint v) []"
  "plain 32 k \<Longrightarrow> golden (ev_count k v) = line ''counter'' k (sint v) []"
  "plain 32 k \<Longrightarrow> golden (ev_gauge k v) = line ''gauge'' k (sint v) []"
  by (simp_all add: golden_def line_def event_helper_defs event_consts cstr_plain cstr_zeros
      pg_event_kind_name_def kind_of_def)

lemma golden_log_event:
  "0 \<notin> set bs \<Longrightarrow> length bs < 192 \<Longrightarrow> golden (log_event bs) = (''log'', Some [], 0, Some bs)"
  by (simp add: golden_def event_helper_defs event_consts cstr_zeros cstr_cfield
      pg_event_kind_name_def kind_of_def)

lemma script_event_wf [simp]:
  "event_wf (ev_phase s)" "event_wf (ev_fault s)" "event_wf (ev_log s)" "event_wf (ev_expect k v)"
  "event_wf (ev_actual k v)" "event_wf (ev_count k v)" "event_wf (ev_gauge k v)"
  by (simp_all add: ev_phase_def ev_fault_def ev_log_def ev_expect_def ev_actual_def ev_count_def ev_gauge_def)

text \<open>Only kind, key, number and text matter to \<open>golden\<close>, and emitting keeps them.\<close>

lemma golden_payload: "same_payload ev copy \<Longrightarrow> golden copy = golden ev"
  by (simp add: same_payload_def golden_def)

lemma golden_payloads: "list_all2 same_payload evs copies \<Longrightarrow> map golden copies = map golden evs"
  by (induction rule: list_all2_induct) (simp_all add: golden_payload)

section \<open>From a script to the reader of the pipe\<close>

text \<open>
  Between a child \<open>c\<close> that has emitted nothing and a reader of the handle \<open>h\<close> there is room
  for \<open>n\<close> records: no transfer fails for good.
\<close>

definition connected :: "int \<Rightarrow> child \<Rightarrow> pg_run_handle_t \<Rightarrow> answer list \<Rightarrow> nat \<Rightarrow> bool" where
  "connected wr c h ans n \<longleftrightarrow> 0 \<le> wr \<and> pipe_bytes c = [] \<and> fair_to (256 * n) (answers c)
     \<and> 0 \<le> event_fd h \<and> fair_to (256 * n + 1) ans"

lemma child_setup_fields:
  "pipe_bytes (child_setup seed rd wr env c) = pipe_bytes c"
  "answers (child_setup seed rd wr env c) = answers c"
  "event_fd_w (ctx_obj (child_setup seed rd wr env c)) = wr"
  "ctx_seed (ctx_obj (child_setup seed rd wr env c)) = seed"
  "g_runctx (child_setup seed rd wr env c) = TheCtx"
  "g_child_event_fd (child_setup seed rd wr env c) = wr"
  "sig_handlers (child_setup seed rd wr env c) = handled_signals"
  by (simp_all add: child_setup_def install_child_handlers_def now_ns_def Let_def)

lemma script_emits:
  assumes "0 \<le> wr" and "pipe_bytes c = []" and "list_all event_wf evs"
    and "fair_to (256 * length evs + n) (answers c)"
  obtains c' copies where "emit_all TheCtx evs (child_setup seed rd wr env c) = Some c'"
    and "pipe_bytes c' = concat (map encode_event copies)" and "map golden copies = map golden evs"
    and "\<forall>ev \<in> set copies. event_wf ev \<and> header_ok ev"
    and "same_wiring (child_setup seed rd wr env c) c'" and "fair_to n (answers c')"
    and "length copies = length evs"
proof -
  let ?c = "child_setup seed rd wr env c"
  have "pipe_ready TheCtx ?c" using assms(1) by (simp add: pipe_ready_def child_setup_fields)
  moreover have "\<forall>ev \<in> set evs. event_wf ev" using assms(3) by (simp add: list_all_iff)
  moreover have "fair_to (256 * length evs + n) (answers ?c)" using assms(4) by (simp add: child_setup_fields)
  ultimately obtain c' copies where "emit_all TheCtx evs ?c = Some c'"
    "pipe_bytes c' = pipe_bytes ?c @ concat (map encode_event copies)"
    "list_all2 same_payload evs copies"
    "\<forall>ev \<in> set copies. event_wf ev \<and> header_ok ev" "same_wiring ?c c'" "fair_to n (answers c')"
    by (rule emit_all_fair)
  with assms(2) show thesis
    by (intro that [of c' copies])
      (auto simp: child_setup_fields golden_payloads dest: list_all2_lengthD)
qed

text \<open>A scenario that returns: the reader gets its events and one \<open>PG_EV_DONE\<close>.\<close>

lemma script_delivered:
  assumes "sc_init s = None" and "sc_teardown s = None"
    and "sc_run s None = play_run (Some (evs, Returns rc))" and "list_all event_wf evs"
    and "connected wr c h ans (length evs + 1)"
  shows "\<exists>c' got ans'. child_main s seed rd wr env c = Some (c', WExited (if rc = 0 then 0 else 1))
    \<and> drain h (pipe_bytes c') ans = Some (got, 0, [], ans')
    \<and> map golden (butlast got) = map golden evs \<and> length got = length evs + 1
    \<and> kind_of (ev_kind (last got)) = Some PG_EV_DONE"
proof -
  let ?c = "child_setup seed rd wr env c"
  have cn: "0 \<le> wr" "pipe_bytes c = []" "fair_to (256 * length evs + 256) (answers c)"
      "0 \<le> event_fd h" "fair_to (256 * (length evs + 1) + 1) ans"
    using assms(5) by (simp_all add: connected_def add.commute)
  from script_emits [OF cn(1,2) assms(4) cn(3), where seed = seed and rd = rd and env = env]
  obtain c2 copies where
    e: "emit_all TheCtx evs ?c = Some c2" "pipe_bytes c2 = concat (map encode_event copies)"
    "map golden copies = map golden evs" "\<forall>ev \<in> set copies. event_wf ev \<and> header_ok ev"
    "same_wiring ?c c2" "fair_to 256 (answers c2)" "length copies = length evs"
    by blast
  have "event_fd_w (ctx_obj c2) = wr" using e(5) by (simp add: same_wiring_def child_setup_fields)
  with run_delivered [of s seed rd wr env c ?c 0 None c2 rc c2 copies h ans] assms(1-3) cn e
  obtain c' fin ans' where
    "child_main s seed rd wr env c = Some (c', WExited (if rc = 0 then 0 else 1))"
    "drain h (pipe_bytes c') ans = Some (copies @ [fin], 0, [], ans')"
    "kind_of (ev_kind fin) = Some PG_EV_DONE"
    by (auto simp: call_init_def call_teardown_def play_run_def play_def)
  with e(3,7) show ?thesis by (intro exI [of _ c'] exI [of _ "copies @ [fin]"] exI [of _ ans']) simp
qed

text \<open>Emitting uses up answers from the front.\<close>

lemma pg_emit_answers: "pg_emit p (Some ev) c = Some c' \<Longrightarrow> \<exists>u. answers c = u @ answers c'"
proof (cases "pipe_ready p c")
  case False
  assume "pg_emit p (Some ev) c = Some c'"
  with False have "c' = c" by (simp add: pg_emit_unready)
  then show ?thesis by simp
next
  case True
  assume em: "pg_emit p (Some ev) c = Some c'"
  obtain copy c1 where st: "stamp ev c = (copy, c1)" by (cases "stamp ev c")
  obtain w e r where lp: "emit_loop (encode_event copy) 0 (answers c) = (w, e, r)"
    by (cases "emit_loop (encode_event copy) 0 (answers c)")
  from em pg_emit_ready [OF True st lp] have "answers c' = r" by (auto split: if_splits)
  with emit_loop_outcome [OF lp] show ?thesis by (auto simp: outcome_def)
qed

lemma emit_all_answers: "emit_all p evs c = Some c' \<Longrightarrow> \<exists>u. answers c = u @ answers c'"
proof (induction evs arbitrary: c)
  case Nil
  then show ?case by simp
next
  case (Cons ev evs)
  then obtain c1 where "pg_emit p (Some ev) c = Some c1" "emit_all p evs c1 = Some c'"
    by (auto split: option.splits)
  with Cons.IH [of c1] pg_emit_answers [of p ev c c1] show ?case by force
qed

text \<open>A scenario that dies of a caught signal, over a pipe that takes whole records.\<close>

lemma script_crash_delivered:
  assumes "sc_init s = None" and "sc_run s None = play_run (Some (evs, DiesOf sig))"
    and "sig \<in> set handled_signals" and "list_all event_wf evs"
    and "connected wr c h ans (length evs + 1)"
    and "list_all (\<lambda>a. 256 \<le> gives a) (answers c)"
  shows "\<exists>c' got ans'. child_main s seed rd wr env c = Some (c', WSignaled sig)
    \<and> drain h (pipe_bytes c') ans = Some (got, 0, [], ans')
    \<and> map golden (butlast got) = map golden evs \<and> length got = length evs + 1
    \<and> kind_of (ev_kind (last got)) = Some PG_EV_CHILD_CRASH
    \<and> cstr (ev_text (last got)) = Some (bytes (''child crashed: '' @ signal_name sig))"
proof -
  let ?c = "child_setup seed rd wr env c"
  have cn: "0 \<le> wr" "pipe_bytes c = []" "fair_to (256 * length evs + 256) (answers c)"
      "0 \<le> event_fd h" "fair_to (256 * (length evs + 1) + 1) ans"
    using assms(5) by (simp_all add: connected_def add.commute)
  from script_emits [OF cn(1,2) assms(4) cn(3), where seed = seed and rd = rd and env = env]
  obtain c2 copies where
    e: "emit_all TheCtx evs ?c = Some c2" "pipe_bytes c2 = concat (map encode_event copies)"
    "map golden copies = map golden evs" "\<forall>ev \<in> set copies. event_wf ev \<and> header_ok ev"
    "same_wiring ?c c2" "fair_to 256 (answers c2)" "length copies = length evs"
    by blast
  from e(6) obtain a later where a: "answers c2 = a # later" "\<not> hard a"
    by (cases "answers c2") (auto simp: fair_to_def)
  moreover have "256 \<le> gives a"
    using emit_all_answers [OF e(1)] a(1) assms(6) by (auto simp: child_setup_fields)
  ultimately have atomic: "pipe_buf_atomic 256 a" "\<not> (\<exists>e. a = Fails e)"
    by (cases a; simp add: pipe_buf_atomic_def)+
  from crash_delivered [of s seed rd wr env c ?c None c2 sig copies a later h ans] assms(1-3) cn e(1-5,7) a atomic
  obtain c' fin ans' where
    "child_main s seed rd wr env c = Some (c', WSignaled sig)"
    "drain h (pipe_bytes c') ans = Some (copies @ [fin], 0, [], ans')"
    "kind_of (ev_kind fin) = Some PG_EV_CHILD_CRASH"
    "cstr (ev_text fin) = Some (bytes (''child crashed: '' @ signal_name sig))"
    by (auto simp: call_init_def play_run_def play_def same_wiring_def)
  with e(3,7) show ?thesis by (intro exI [of _ c'] exI [of _ "copies @ [fin]"] exI [of _ ans']) simp
qed

end
