(* ===== verification/Arena.thy ===== *)
theory Arena
  imports Posix "HOL-Library.Monad_Syntax"
begin

text \<open>
  The bump allocator of \<open>src/chaos/chaos_mem.c\<close>: one mapping, blocks laid out one behind the
  other as header, front redzone, user bytes rounded up to eight, back redzone. Pointers are
  64-bit words; the mapping's bytes are a function of the offset from its base. An access outside
  the mapping is undefined behaviour in C and \<open>None\<close> here, so that a result \<open>Some\<close>
  also says that every access stayed inside. Arithmetic on sizes is on 64-bit words, so it wraps
  where \<open>size_t\<close> wraps.

  The second half relates the bytes to an abstract list of blocks (\<open>arena_rep\<close>) and proves
  the operations against it.
\<close>

unbundle bit_operations_syntax

section \<open>The mapping\<close>

definition ARENA_MAGIC_LIVE :: u32 where "ARENA_MAGIC_LIVE = 0xA11A11AA"
definition ARENA_MAGIC_FREE :: u32 where "ARENA_MAGIC_FREE = 0xFEEDFEED"
definition REDZONE_SIZE :: u64 where "REDZONE_SIZE = 16"
definition REDZONE_BYTE :: u8 where "REDZONE_BYTE = 0xCD"
definition POISON_BYTE :: u8 where "POISON_BYTE = 0xDE"
definition CHAOS_ARENA_REDZONES :: u32 where "CHAOS_ARENA_REDZONES = 1"

text \<open>The size of \<open>block_hdr_t\<close>: two 32-bit members.\<close>

definition HDR_SIZE :: u64 where "HDR_SIZE = 8"

record chaos_arena =
  base :: u64
  total :: u64
  used :: u64
  flags :: u32
  mem :: "nat \<Rightarrow> u8"

definition off_of :: "chaos_arena \<Rightarrow> u64 \<Rightarrow> nat" where
  "off_of a p = unat (p - base a)"

definition get8 :: "chaos_arena \<Rightarrow> u64 \<Rightarrow> u8 option" where
  "get8 a p = (if off_of a p < unat (total a) then Some (mem a (off_of a p)) else None)"

definition get32 :: "chaos_arena \<Rightarrow> u64 \<Rightarrow> u32 option" where
  "get32 a p =
     (let o' = off_of a p
      in if o' + 4 \<le> unat (total a)
         then Some (of_nat (of_le [mem a o', mem a (o' + 1), mem a (o' + 2), mem a (o' + 3)]))
         else None)"

definition overlay :: "(nat \<Rightarrow> u8) \<Rightarrow> nat \<Rightarrow> u8 list \<Rightarrow> nat \<Rightarrow> u8" where
  "overlay m o' bs i = (if o' \<le> i \<and> i < o' + length bs then bs ! (i - o') else m i)"

definition put_bytes :: "chaos_arena \<Rightarrow> u64 \<Rightarrow> u8 list \<Rightarrow> chaos_arena option" where
  "put_bytes a p bs =
     (if bs = [] then Some a
      else if off_of a p + length bs \<le> unat (total a)
      then Some (a\<lparr>mem := overlay (mem a) (off_of a p) bs\<rparr>) else None)"

definition put32 :: "chaos_arena \<Rightarrow> u64 \<Rightarrow> u32 \<Rightarrow> chaos_arena option" where
  "put32 a p v = put_bytes a p (le_bytes 4 (unat v))"

definition memset_at :: "chaos_arena \<Rightarrow> u64 \<Rightarrow> u8 \<Rightarrow> nat \<Rightarrow> chaos_arena option" where
  "memset_at a p c n = put_bytes a p (replicate n c)"

section \<open>Operations\<close>

definition round8 :: "u64 \<Rightarrow> u64" where
  "round8 n = (n + 7) AND NOT 7"

definition block_total :: "u64 \<Rightarrow> u64" where
  "block_total user_size = HDR_SIZE + REDZONE_SIZE + round8 user_size + REDZONE_SIZE"

text \<open>
  \<open>calloc_ok\<close> says whether \<open>calloc\<close> gives memory, \<open>mapping\<close> what \<open>mmap\<close> returns
  (\<open>None\<close> for \<open>MAP_FAILED\<close>).
\<close>

definition chaos_arena_create ::
    "u64 \<Rightarrow> u32 \<Rightarrow> bool \<Rightarrow> u64 option \<Rightarrow> chaos_arena option \<times> errno option \<times> sysact list" where
  "chaos_arena_create bs fl calloc_ok mapping =
     (if bs < 4096 then (None, Some EINVAL, [])
      else if \<not> calloc_ok then (None, None, [])
      else (case mapping of
              None \<Rightarrow> (None, None, [SysMalloc, SysFree])
            | Some m \<Rightarrow>
                (Some \<lparr>base = m, total = bs, used = 0, flags = fl, mem = (\<lambda>_. 0)\<rparr>, None, [SysMalloc, SysMmap bs])))"

definition arena_alloc :: "chaos_arena \<Rightarrow> u64 \<Rightarrow> (u64 \<times> chaos_arena) option" where
  "arena_alloc a n =
     (let need = block_total n
      in if used a + need > total a then Some (0, a)
         else
           (let p = base a + used a;
                pre = p + HDR_SIZE;
                user = pre + REDZONE_SIZE;
                post = user + round8 n
            in do {
                 a \<leftarrow> put32 a p ARENA_MAGIC_LIVE;
                 a \<leftarrow> put32 a (p + 4) (ucast n);
                 a \<leftarrow> (if flags a AND CHAOS_ARENA_REDZONES \<noteq> 0
                      then do {
                        a \<leftarrow> memset_at a pre REDZONE_BYTE (unat REDZONE_SIZE);
                        memset_at a post REDZONE_BYTE (unat REDZONE_SIZE)
                      } else Some a);
                 Some (user, a\<lparr>used := used a + need\<rparr>)
               }))"

definition arena_free :: "chaos_arena \<Rightarrow> u64 \<Rightarrow> (int \<times> chaos_arena) option" where
  "arena_free a p =
     (let u = p;
          h = u - REDZONE_SIZE - HDR_SIZE
      in if h < base a \<or> h \<ge> base a + total a then Some (-1, a)
         else do {
           magic \<leftarrow> get32 a h;
           (if magic = ARENA_MAGIC_FREE then Some (-1, a)
            else if magic \<noteq> ARENA_MAGIC_LIVE then Some (-1, a)
            else do {
              a \<leftarrow> put32 a h ARENA_MAGIC_FREE;
              sz \<leftarrow> get32 a (h + 4);
              a \<leftarrow> memset_at a u POISON_BYTE (unat sz);
              Some (0, a)
            })
         })"

text \<open>One redzone: \<open>Some True\<close> at the first byte that is not the redzone byte.\<close>

fun redzone_bad :: "chaos_arena \<Rightarrow> u64 \<Rightarrow> nat \<Rightarrow> bool option" where
  "redzone_bad a p 0 = Some False"
| "redzone_bad a p (Suc k) =
     do { b \<leftarrow> get8 a p; if b \<noteq> REDZONE_BYTE then Some True else redzone_bad a (p + 1) k }"

text \<open>
  The walk; \<open>None\<close> also covers a walk that never returns. The counter is an \<open>int\<close> of C, whose
  overflow is undefined; here it is unbounded, which differs only beyond \<open>2 ^ 31\<close> broken zones.
\<close>

partial_function (option) check_loop :: "chaos_arena \<Rightarrow> u64 \<Rightarrow> int \<Rightarrow> int option" where
  "check_loop a off corrupted =
     (if off < used a
      then do {
        magic \<leftarrow> get32 a (base a + off);
        (if magic \<noteq> ARENA_MAGIC_LIVE \<and> magic \<noteq> ARENA_MAGIC_FREE then Some (-1)
         else do {
           sz \<leftarrow> get32 a (base a + off + 4);
           let pad = round8 (ucast sz);
               blksz = HDR_SIZE + REDZONE_SIZE + pad + REDZONE_SIZE;
               pre = base a + off + HDR_SIZE;
               post = pre + REDZONE_SIZE + pad
           in do {
             bad1 \<leftarrow> redzone_bad a pre (unat REDZONE_SIZE);
             bad2 \<leftarrow> redzone_bad a post (unat REDZONE_SIZE);
             check_loop a (off + blksz)
               (corrupted + (if bad1 then 1 else 0) + (if bad2 then 1 else 0))
           }
         })
      }
      else Some corrupted)"

definition arena_check :: "chaos_arena \<Rightarrow> int option" where
  "arena_check a =
     (if flags a AND CHAOS_ARENA_REDZONES = 0 then Some 0 else check_loop a 0 0)"

text \<open>The public entry points: \<open>None\<close> as the arena argument is the NULL pointer.\<close>

definition chaos_arena_alloc ::
    "chaos_arena option \<Rightarrow> u64 \<Rightarrow> (u64 \<times> chaos_arena option) option" where
  "chaos_arena_alloc ao n =
     (case ao of
        None \<Rightarrow> Some (0, None)
      | Some a \<Rightarrow> map_option (\<lambda>(p, a'). (p, Some a')) (arena_alloc a n))"

definition chaos_arena_free ::
    "chaos_arena option \<Rightarrow> u64 \<Rightarrow> (int \<times> chaos_arena option) option" where
  "chaos_arena_free ao p =
     (case ao of
        None \<Rightarrow> Some (-1, None)
      | Some a \<Rightarrow> if p = 0 then Some (-1, Some a)
                  else map_option (\<lambda>(r, a'). (r, Some a')) (arena_free a p))"

definition chaos_arena_check :: "chaos_arena option \<Rightarrow> int option" where
  "chaos_arena_check ao = (case ao of None \<Rightarrow> Some (-1) | Some a \<Rightarrow> arena_check a)"

definition chaos_arena_destroy :: "chaos_arena option \<Rightarrow> sysact list" where
  "chaos_arena_destroy ao =
     (case ao of
        None \<Rightarrow> []
      | Some a \<Rightarrow> (if base a \<noteq> 0 then [SysMunmap (base a) (total a)] else []) @ [SysFree])"

section \<open>The abstract arena: a list of blocks\<close>

record blk =
  bsize :: nat
  blive :: bool

definition pad8 :: "nat \<Rightarrow> nat" where
  "pad8 n = (n + 7) div 8 * 8"

text \<open>Header, two redzones and the padded user bytes.\<close>

definition blk_len :: "nat \<Rightarrow> nat" where
  "blk_len n = 40 + pad8 n"

definition word_at :: "(nat \<Rightarrow> u8) \<Rightarrow> nat \<Rightarrow> u32" where
  "word_at m i = of_nat (of_le [m i, m (i + 1), m (i + 2), m (i + 3)])"

definition magic_of :: "blk \<Rightarrow> u32" where
  "magic_of b = (if blive b then ARENA_MAGIC_LIVE else ARENA_MAGIC_FREE)"

text \<open>The blocks \<open>bs\<close> lie one behind the other from \<open>i\<close> to \<open>e\<close>.\<close>

fun blocks_at :: "(nat \<Rightarrow> u8) \<Rightarrow> nat \<Rightarrow> blk list \<Rightarrow> nat \<Rightarrow> bool" where
  "blocks_at m i [] e \<longleftrightarrow> i = e"
| "blocks_at m i (b # bs) e \<longleftrightarrow>
     word_at m i = magic_of b \<and> word_at m (i + 4) = of_nat (bsize b) \<and> bsize b < 2 ^ 32
     \<and> blocks_at m (i + blk_len (bsize b)) bs e"

definition zone_bad :: "(nat \<Rightarrow> u8) \<Rightarrow> nat \<Rightarrow> bool" where
  "zone_bad m i \<longleftrightarrow> (\<exists>k < 16. m (i + k) \<noteq> REDZONE_BYTE)"

text \<open>What a scan ought to report: the number of redzones with a foreign byte.\<close>

fun bad_zones :: "(nat \<Rightarrow> u8) \<Rightarrow> nat \<Rightarrow> blk list \<Rightarrow> nat" where
  "bad_zones m i [] = 0"
| "bad_zones m i (b # bs) =
     (if zone_bad m (i + 8) then 1 else 0)
     + (if zone_bad m (i + 24 + pad8 (bsize b)) then 1 else 0)
     + bad_zones m (i + blk_len (bsize b)) bs"

text \<open>The bytes a list of blocks takes: the offset of the block behind them.\<close>

definition blks_len :: "blk list \<Rightarrow> nat" where
  "blks_len bs = (\<Sum>b \<leftarrow> bs. blk_len (bsize b))"

text \<open>The user pointer of the block behind \<open>xs\<close>.\<close>

definition user_ptr :: "chaos_arena \<Rightarrow> blk list \<Rightarrow> u64" where
  "user_ptr a xs = base a + of_nat (blks_len xs + 24)"

text \<open>User address spaces of the supported platforms end at \<open>2 ^ 48\<close>.\<close>

definition arena_rep :: "chaos_arena \<Rightarrow> blk list \<Rightarrow> bool" where
  "arena_rep a bs \<longleftrightarrow>
     unat (base a) + unat (total a) \<le> 2 ^ 48 \<and> used a \<le> total a
     \<and> blocks_at (mem a) 0 bs (unat (used a))"

definition redzoned :: "chaos_arena \<Rightarrow> bool" where
  "redzoned a \<longleftrightarrow> flags a AND CHAOS_ARENA_REDZONES \<noteq> 0"

text \<open>The pointer \<open>p\<close> is the user pointer of a live (freed) block of \<open>n\<close> bytes.\<close>

definition owns :: "bool \<Rightarrow> chaos_arena \<Rightarrow> u64 \<Rightarrow> nat \<Rightarrow> bool" where
  "owns lv a p n \<longleftrightarrow>
     (\<exists>xs b ys. arena_rep a (xs @ b # ys) \<and> blive b = lv \<and> bsize b = n \<and> p = user_ptr a xs)"

text \<open>
  A client of the arena, and what it knows: the pointers it was given, in the order it got them,
  with the sizes it asked for and whether it has released them. It requests less than 4 GiB at a
  time (beyond that the 32-bit size in the header is not the size requested, see
  \<open>arena_alloc_size_wraps\<close>), releases only pointers it was given, any number of times, and
  writes only inside the bytes it asked for, released or not.
\<close>

record grant =
  g_ptr :: u64
  g_size :: nat
  g_live :: bool

inductive arena_client :: "chaos_arena \<Rightarrow> grant list \<Rightarrow> bool" where
  client_opens: "fst (chaos_arena_create n fl True (Some m)) = Some a \<Longrightarrow>
    unat m + unat n \<le> 2 ^ 48 \<Longrightarrow> arena_client a []"
| client_allocs: "arena_client a gs \<Longrightarrow> unat n < 2 ^ 32 \<Longrightarrow>
    chaos_arena_alloc (Some a) n = Some (p, Some a') \<Longrightarrow>
    arena_client a' (if p = 0 then gs else gs @ [\<lparr>g_ptr = p, g_size = unat n, g_live = True\<rparr>])"
| client_frees: "arena_client a (gs @ g # hs) \<Longrightarrow>
    chaos_arena_free (Some a) (g_ptr g) = Some (r, Some a') \<Longrightarrow>
    arena_client a' (gs @ g\<lparr>g_live := False\<rparr> # hs)"
| client_writes: "arena_client a (gs @ g # hs) \<Longrightarrow> k + length data \<le> g_size g \<Longrightarrow>
    put_bytes a (g_ptr g + of_nat k) data = Some a' \<Longrightarrow> arena_client a' (gs @ g # hs)"

text \<open>What the client of an arena at address \<open>q\<close> with blocks \<open>bs\<close> holds.\<close>

fun granted :: "u64 \<Rightarrow> blk list \<Rightarrow> grant list" where
  "granted q [] = []"
| "granted q (b # bs) =
     \<lparr>g_ptr = q + 24, g_size = bsize b, g_live = blive b\<rparr> # granted (q + of_nat (blk_len (bsize b))) bs"

section \<open>Interface: a heap that detects misuse\<close>

locale checked_heap =
  fixes alloc :: "'s \<Rightarrow> u64 \<Rightarrow> (u64 \<times> 's) option"
    and release :: "'s \<Rightarrow> u64 \<Rightarrow> (int \<times> 's) option"
    and load :: "'s \<Rightarrow> u64 \<Rightarrow> u8 option"
    and block :: "bool \<Rightarrow> 's \<Rightarrow> u64 \<Rightarrow> nat \<Rightarrow> bool"
    and invar :: "'s \<Rightarrow> bool"
    and poison :: u8
  assumes alloc_total: "invar s \<Longrightarrow> unat n < 2 ^ 32 \<Longrightarrow> \<exists>p s'. alloc s n = Some (p, s')"
    and alloc_block: "invar s \<Longrightarrow> unat n < 2 ^ 32 \<Longrightarrow> alloc s n = Some (p, s') \<Longrightarrow> p \<noteq> 0 \<Longrightarrow>
      invar s' \<and> block True s' p (unat n)"
    and release_live: "invar s \<Longrightarrow> block True s p sz \<Longrightarrow>
      \<exists>s'. release s p = Some (0, s') \<and> invar s' \<and> block False s' p sz
        \<and> (\<forall>k < sz. load s' (p + of_nat k) = Some poison)"
    and release_freed: "invar s \<Longrightarrow> block False s p sz \<Longrightarrow> release s p = Some (-1, s)"
begin

text \<open>The life of one block: what a double release and a dangling read see.\<close>

lemma alloc_release_twice:
  assumes "invar s" and "unat n < 2 ^ 32" and "alloc s n = Some (p, s1)" and "p \<noteq> 0"
  shows "\<exists>s2. release s1 p = Some (0, s2) \<and> release s2 p = Some (-1, s2)
    \<and> (\<forall>k < unat n. load s2 (p + of_nat k) = Some poison)"
  using alloc_block [OF assms] release_live release_freed by blast

end

section \<open>Lemmas: words and offsets\<close>

lemmas arena_consts = HDR_SIZE_def REDZONE_SIZE_def

lemma round8_shift: "round8 n = push_bit 3 (drop_bit 3 (n + 7))"
proof -
  have "(7 :: u64) = mask 3" by (simp add: mask_eq_exp_minus_1)
  then have "(n + 7) AND NOT 7 = (n + 7) AND NOT (mask 3)" by simp
  also have "\<dots> = push_bit 3 (drop_bit 3 (n + 7))"
    by (intro bit_word_eqI) (auto simp: bit_simps)
  finally show ?thesis by (simp add: round8_def)
qed

lemma unat_round8:
  assumes "unat n + 7 < 2 ^ 64"
  shows "unat (round8 n) = pad8 (unat n)"
proof -
  have s: "unat (n + 7) = unat n + 7" using assms by (simp add: unat_word_ariths)
  have d: "unat ((n + 7) div 8) = (unat n + 7) div 8"
    by (simp add: unat_div s)
  have "(unat n + 7) div 8 * 8 < 2 ^ 64"
    using assms by (meson div_times_less_eq_dividend le_less_trans)
  then show ?thesis
    by (simp add: round8_shift push_bit_eq_mult drop_bit_eq_div unat_word_ariths(2) d pad8_def mult.commute)
qed

lemma pad8_bounds: "n \<le> pad8 n \<and> pad8 n < n + 8" "pad8 n mod 8 = 0"
  by (simp_all add: pad8_def) presburger+

lemma unat_plus_fits:
  fixes x y :: u64
  assumes "unat x + unat y < 2 ^ 64"
  shows "unat (x + y) = unat x + unat y"
  using assms by (simp add: unat_word_ariths)

lemma off_of_base [simp]: "off_of a (base a + w) = unat w"
  by (simp add: off_of_def)

lemma overlay_simps:
  "i < o' \<Longrightarrow> overlay m o' bs i = m i"
  "o' + length bs \<le> i \<Longrightarrow> overlay m o' bs i = m i"
  "k < length bs \<Longrightarrow> overlay m o' bs (o' + k) = bs ! k"
  by (simp_all add: overlay_def)

lemma overlay_nil [simp]: "overlay m i [] = m"
  by (rule ext) (auto simp: overlay_def)

lemma word_at_le_bytes:
  "word_at (overlay m i (le_bytes 4 (unat v))) i = v"
proof -
  have "[x ! 0, x ! 1, x ! 2, x ! 3] = x" if "length x = 4" for x :: "u8 list"
    using that by (auto simp: list_eq_iff_nth_eq less_Suc_eq numeral_eq_Suc)
  from this [of "le_bytes 4 (unat v)"]
  have "word_at (overlay m i (le_bytes 4 (unat v))) i = of_nat (of_le (le_bytes 4 (unat v)))"
    by (simp add: word_at_def overlay_def)
  then show ?thesis by (simp add: of_le_u32)
qed

lemma word_at_overlay_other:
  "i + 4 \<le> o' \<or> o' + length bs \<le> i \<Longrightarrow> word_at (overlay m o' bs) i = word_at m i"
  by (auto simp: word_at_def overlay_def)

lemma get32_off:
  "get32 a p = (if off_of a p + 4 \<le> unat (total a) then Some (word_at (mem a) (off_of a p)) else None)"
  by (simp add: get32_def word_at_def Let_def)

lemma get32_word_at:
  "get32 a (base a + w) = (if unat w + 4 \<le> unat (total a) then Some (word_at (mem a) (unat w)) else None)"
  by (simp add: get32_def word_at_def Let_def)

section \<open>Allocation\<close>

lemma put32_at:
  "off_of a p + 4 \<le> unat (total a) \<Longrightarrow>
   put32 a p v = Some (a\<lparr>mem := overlay (mem a) (off_of a p) (le_bytes 4 (unat v))\<rparr>)"
  by (auto simp: put32_def put_bytes_def dest: arg_cong [of _ "[]" length])

lemma memset_at_at:
  "0 < n \<Longrightarrow> off_of a p + n \<le> unat (total a) \<Longrightarrow>
   memset_at a p c n = Some (a\<lparr>mem := overlay (mem a) (off_of a p) (replicate n c)\<rparr>)"
  by (simp add: memset_at_def put_bytes_def)

lemma off_of_mem [simp]: "off_of (a\<lparr>mem := m\<rparr>) p = off_of a p"
  by (simp add: off_of_def)

text \<open>The bytes after a successful allocation at offset \<open>i\<close>.\<close>

definition alloc_mem :: "bool \<Rightarrow> (nat \<Rightarrow> u8) \<Rightarrow> nat \<Rightarrow> nat \<Rightarrow> nat \<Rightarrow> u8" where
  "alloc_mem rz m i n =
     (let m = overlay m i (le_bytes 4 (unat ARENA_MAGIC_LIVE));
          m = overlay m (i + 4) (le_bytes 4 (unat (of_nat n :: u32)))
      in if rz
         then overlay (overlay m (i + 8) (replicate 16 REDZONE_BYTE)) (i + 24 + pad8 n)
                (replicate 16 REDZONE_BYTE)
         else m)"

lemma arena_alloc_eq:
  assumes small: "unat n < 2 ^ 32" and space: "unat (total a) \<le> 2 ^ 48" and us: "used a \<le> total a"
  shows "arena_alloc a n =
    (if unat (used a) + blk_len (unat n) \<le> unat (total a)
     then Some (base a + (used a + 24),
       a\<lparr>used := used a + of_nat (blk_len (unat n)),
         mem := alloc_mem (redzoned a) (mem a) (unat (used a)) (unat n)\<rparr>)
     else Some (0, a))"
proof -
  define i where "i = unat (used a)"
  define pad where "pad = pad8 (unat n)"
  have i: "i \<le> 2 ^ 48" using us space by (simp add: i_def word_le_nat_alt)
  have pad: "pad < 2 ^ 32 + 8" using pad8_bounds(1) [of "unat n"] small by (simp add: pad_def)
  have r8: "unat (round8 n) = pad" using small by (simp add: unat_round8 pad_def)
  have need: "unat (block_total n) = blk_len (unat n)"
    using pad by (simp add: block_total_def arena_consts unat_word_ariths r8 blk_len_def pad_def [symmetric])
  have end_off: "unat (used a + block_total n) = i + blk_len (unat n)"
    using i pad by (subst unat_plus_fits) (simp_all add: need i_def blk_len_def pad_def [symmetric])
  have nd: "block_total n = of_nat (blk_len (unat n))" by (simp add: need [symmetric])
  have offs: "unat (used a + 4) = i + 4" "unat (used a + 8) = i + 8"
    "unat (used a + 24) = i + 24" "unat (used a + (24 + round8 n)) = i + 24 + pad"
    using i pad by (simp_all add: unat_word_ariths i_def [symmetric] r8)
  have fit: "used a + block_total n > total a \<longleftrightarrow> \<not> i + blk_len (unat n) \<le> unat (total a)"
    by (simp add: word_less_nat_alt end_off not_le)
  have sz: "ucast n = (of_nat (unat n) :: u32)" by simp
  show ?thesis
  proof (cases "i + blk_len (unat n) \<le> unat (total a)")
    case False
    then show ?thesis by (simp add: arena_alloc_def fit [unfolded] i_def)
  next
    case True
    then have room: "i + 40 + pad \<le> unat (total a)" by (simp add: blk_len_def pad_def)
    show ?thesis
      using True room offs fit
      by (simp add: arena_alloc_def Let_def arena_consts redzoned_def alloc_mem_def add.assoc
          put32_at memset_at_at i_def [symmetric] pad_def [symmetric] nd)
  qed
qed

section \<open>Blocks and bytes\<close>

lemma blks_len_simps [simp]:
  "blks_len [] = 0" "blks_len (b # bs) = blk_len (bsize b) + blks_len bs"
  "blks_len (xs @ ys) = blks_len xs + blks_len ys"
  by (simp_all add: blks_len_def)

lemma blocks_at_append:
  "blocks_at m i (xs @ ys) e \<longleftrightarrow>
     blocks_at m i xs (i + blks_len xs) \<and> blocks_at m (i + blks_len xs) ys e"
  by (induction xs arbitrary: i) (auto simp: add.assoc)

lemma blocks_at_end: "blocks_at m i bs e \<Longrightarrow> e = i + blks_len bs"
  by (induction bs arbitrary: i) (simp, metis add.assoc blks_len_simps(2) blocks_at.simps(2))

lemma blocks_at_cong:
  assumes "blocks_at m i bs e" and "\<And>k. i \<le> k \<Longrightarrow> k < i + blks_len bs \<Longrightarrow> m' k = m k"
  shows "blocks_at m' i bs e"
  using assms
proof (induction bs arbitrary: i)
  case Nil
  then show ?case by simp
next
  case (Cons b bs)
  have "word_at m' i = word_at m i" "word_at m' (i + 4) = word_at m (i + 4)"
    using Cons.prems(2) by (simp_all add: word_at_def blk_len_def)
  moreover have "blocks_at m' (i + blk_len (bsize b)) bs e"
    using Cons by auto
  ultimately show ?case using Cons.prems(1) by simp
qed

lemma zone_bad_cong: "(\<And>k. k < 16 \<Longrightarrow> m' (i + k) = m (i + k)) \<Longrightarrow> zone_bad m' i = zone_bad m i"
  by (auto simp: zone_bad_def)

lemma bad_zones_cong:
  assumes "\<And>k. i \<le> k \<Longrightarrow> k < i + blks_len bs \<Longrightarrow> m' k = m k"
  shows "bad_zones m' i bs = bad_zones m i bs"
  using assms
proof (induction bs arbitrary: i)
  case Nil
  then show ?case by simp
next
  case (Cons b bs)
  have "zone_bad m' (i + 8) = zone_bad m (i + 8)"
    "zone_bad m' (i + 24 + pad8 (bsize b)) = zone_bad m (i + 24 + pad8 (bsize b))"
    using Cons.prems by (auto intro!: zone_bad_cong simp: blk_len_def)
  moreover have "bad_zones m' (i + blk_len (bsize b)) bs = bad_zones m (i + blk_len (bsize b)) bs"
    using Cons by auto
  ultimately show ?case by simp
qed

lemma bad_zones_append:
  "bad_zones m i (xs @ ys) = bad_zones m i xs + bad_zones m (i + blks_len xs) ys"
  by (induction xs arbitrary: i) (auto simp: add.assoc)

lemma arena_rep_total: "arena_rep a bs \<Longrightarrow> unat (total a) \<le> 2 ^ 48"
  by (simp add: arena_rep_def)

lemma arena_rep_used: "arena_rep a bs \<Longrightarrow> unat (used a) = blks_len bs"
  by (auto simp: arena_rep_def dest: blocks_at_end)

lemma arena_rep_split:
  assumes "arena_rep a (xs @ b # ys)"
  shows "blks_len xs + blk_len (bsize b) \<le> unat (total a)"
    and "word_at (mem a) (blks_len xs) = magic_of b"
    and "word_at (mem a) (blks_len xs + 4) = of_nat (bsize b)"
    and "bsize b < 2 ^ 32"
  using assms arena_rep_used [OF assms]
  by (auto simp: arena_rep_def blocks_at_append word_le_nat_alt)

lemma alloc_mem_other:
  "k < i \<or> i + blk_len n \<le> k \<or> (i + 24 \<le> k \<and> k < i + 24 + pad8 n) \<Longrightarrow> alloc_mem rz m i n k = m k"
  by (auto simp: alloc_mem_def Let_def overlay_def blk_len_def)

lemma alloc_mem_header:
  "word_at (alloc_mem rz m i n) i = ARENA_MAGIC_LIVE"
  "word_at (alloc_mem rz m i n) (i + 4) = of_nat n"
proof -
  show "word_at (alloc_mem rz m i n) i = ARENA_MAGIC_LIVE"
    by (simp add: alloc_mem_def Let_def word_at_overlay_other word_at_le_bytes)
  show "word_at (alloc_mem rz m i n) (i + 4) = of_nat n"
    by (simp add: alloc_mem_def Let_def word_at_overlay_other word_at_le_bytes)
qed

lemma alloc_mem_zones:
  "\<not> zone_bad (alloc_mem True m i n) (i + 8)" "\<not> zone_bad (alloc_mem True m i n) (i + 24 + pad8 n)"
  by (auto simp: zone_bad_def alloc_mem_def Let_def overlay_def)

lemma arena_rep_alloc:
  fixes n :: u64
  assumes rep: "arena_rep a bs" and small: "unat n < 2 ^ 32"
    and fits: "unat (used a) + blk_len (unat n) \<le> unat (total a)"
  shows "arena_rep (a\<lparr>used := used a + of_nat (blk_len (unat n)),
    mem := alloc_mem rz (mem a) (unat (used a)) (unat n)\<rparr>) (bs @ [\<lparr>bsize = unat n, blive = True\<rparr>])"
proof -
  let ?i = "unat (used a)" and ?m = "alloc_mem rz (mem a) (unat (used a)) (unat n)"
  have i: "?i = blks_len bs" by (rule arena_rep_used [OF rep])
  have u: "unat (used a + of_nat (blk_len (unat n))) = ?i + blk_len (unat n)"
    using fits arena_rep_total [OF rep] by (simp add: unat_word_ariths unat_of_nat)
  have "blocks_at ?m 0 bs ?i"
    using rep by (auto simp: arena_rep_def i alloc_mem_other intro: blocks_at_cong)
  moreover have "blocks_at ?m ?i [\<lparr>bsize = unat n, blive = True\<rparr>] (?i + blk_len (unat n))"
    using small by (simp add: alloc_mem_header magic_of_def)
  ultimately show ?thesis
    using rep fits by (simp add: arena_rep_def u blocks_at_append i word_le_nat_alt)
qed

section \<open>Release\<close>

definition free_mem :: "(nat \<Rightarrow> u8) \<Rightarrow> nat \<Rightarrow> nat \<Rightarrow> nat \<Rightarrow> u8" where
  "free_mem m i n =
     overlay (overlay m i (le_bytes 4 (unat ARENA_MAGIC_FREE))) (i + 24) (replicate n POISON_BYTE)"

lemma free_mem_other:
  "k < i \<or> (i + 4 \<le> k \<and> k < i + 24) \<or> i + 24 + n \<le> k \<Longrightarrow> free_mem m i n k = m k"
  by (auto simp: free_mem_def overlay_def)

lemma free_mem_header:
  "word_at (free_mem m i n) i = ARENA_MAGIC_FREE" "word_at (free_mem m i n) (i + 4) = word_at m (i + 4)"
  by (simp_all add: free_mem_def word_at_overlay_other word_at_le_bytes)

lemma free_mem_poison: "i + 24 \<le> k \<Longrightarrow> k < i + 24 + n \<Longrightarrow> free_mem m i n k = POISON_BYTE"
  by (simp add: free_mem_def overlay_def)

lemma header_in_mapping:
  assumes "unat (base a) + unat (total a) \<le> 2 ^ 48" and "i < unat (total a)"
  shows "\<not> base a + of_nat i < base a" "\<not> base a + total a \<le> base a + of_nat i"
  using assms by (simp_all add: word_less_nat_alt word_le_nat_alt unat_word_ariths unat_of_nat)

lemma arena_free_at:
  assumes map: "unat (base a) + unat (total a) \<le> 2 ^ 48"
    and room: "i + 24 + n \<le> unat (total a)"
    and sz: "word_at (mem a) (i + 4) = of_nat n" "n < 2 ^ 32"
  shows "arena_free a (base a + of_nat (i + 24)) =
    (if word_at (mem a) i = ARENA_MAGIC_LIVE then Some (0, a\<lparr>mem := free_mem (mem a) i n\<rparr>)
     else Some (-1, a))"
proof -
  define u where "u = base a + of_nat (i + 24)"
  have h: "u - REDZONE_SIZE - HDR_SIZE = base a + of_nat i"
    by (simp add: u_def arena_consts)
  have ui: "unat (of_nat k :: u64) = k" if "k \<le> unat (total a)" for k
    using that map by (simp add: unat_of_nat)
  have offs: "off_of a (base a + of_nat i) = i" "off_of a (base a + of_nat i + 4) = i + 4"
    "off_of a u = i + 24"
    using room ui [of i] ui [of "i + 4"] ui [of "i + 24"]
    by (simp_all add: off_of_def u_def add.commute [of _ 4] add.commute [of _ 24])
  have sz': "unat (of_nat n :: u32) = n" using sz(2) by (simp add: unat_of_nat)
  have ms: "memset_at (a\<lparr>mem := m\<rparr>) u POISON_BYTE n
      = Some (a\<lparr>mem := overlay m (i + 24) (replicate n POISON_BYTE)\<rparr>)" for m
    using room offs(3) by (auto simp: memset_at_def put_bytes_def)
  have "ARENA_MAGIC_FREE \<noteq> ARENA_MAGIC_LIVE" by (simp add: ARENA_MAGIC_FREE_def ARENA_MAGIC_LIVE_def)
  then show ?thesis
    using room header_in_mapping [OF map, of i] offs(1,2)
    unfolding arena_free_def Let_def u_def [symmetric] h
    by (simp add: get32_off put32_at ms word_at_overlay_other sz(1) sz' free_mem_def)
qed

lemma arena_rep_free:
  assumes rep: "arena_rep a (xs @ b # ys)"
  shows "arena_rep (a\<lparr>mem := free_mem (mem a) (blks_len xs) (bsize b)\<rparr>) (xs @ b\<lparr>blive := False\<rparr> # ys)"
proof -
  let ?i = "blks_len xs" and ?m = "free_mem (mem a) (blks_len xs) (bsize b)"
  have r: "blocks_at (mem a) 0 xs ?i" "blocks_at (mem a) ?i (b # ys) (unat (used a))"
    using rep by (auto simp: arena_rep_def blocks_at_append)
  have same: "?m k = mem a k" if "k < ?i \<or> ?i + blk_len (bsize b) \<le> k" for k
    using that pad8_bounds(1) [of "bsize b"] by (auto simp: blk_len_def intro!: free_mem_other)
  have "blocks_at ?m 0 xs ?i"
    by (rule blocks_at_cong [OF r(1)]) (simp add: same)
  moreover have "blocks_at ?m (?i + blk_len (bsize b)) ys (unat (used a))"
    using r(2) by (auto simp: same intro: blocks_at_cong)
  ultimately show ?thesis
    using rep r(2) by (simp add: arena_rep_def blocks_at_append magic_of_def free_mem_header)
qed

section \<open>The scan\<close>

lemma redzone_bad_at:
  assumes "unat w + k \<le> unat (total a)" and "unat (total a) \<le> 2 ^ 48"
  shows "redzone_bad a (base a + w) k = Some (\<exists>j < k. mem a (unat w + j) \<noteq> REDZONE_BYTE)"
  using assms(1)
proof (induction k arbitrary: w)
  case 0
  then show ?case by simp
next
  case (Suc k)
  have w: "unat (w + 1) = unat w + 1"
    using Suc.prems assms(2) by (simp add: unat_word_ariths)
  have "redzone_bad a (base a + (w + 1)) k = Some (\<exists>j < k. mem a (unat w + Suc j) \<noteq> REDZONE_BYTE)"
    using Suc.IH [of "w + 1"] Suc.prems w by simp
  then show ?case
    using Suc.prems by (auto simp: get8_def add.assoc less_Suc_eq_0_disj)
qed

lemma check_loop_at:
  assumes "blocks_at (mem a) (unat off) bs (unat (used a))"
    and "unat (used a) \<le> unat (total a)" and "unat (total a) \<le> 2 ^ 48"
  shows "check_loop a off c = Some (c + int (bad_zones (mem a) (unat off) bs))"
  using assms(1)
proof (induction bs arbitrary: off c)
  case Nil
  then show ?case by (subst check_loop.simps) (simp add: word_less_nat_alt)
next
  case (Cons b bs)
  let ?i = "unat off"
  define pad where "pad = pad8 (bsize b)"
  have e: "unat (used a) = ?i + (40 + pad) + blks_len bs"
    using blocks_at_end [OF Cons.prems] by (simp add: blk_len_def pad_def)
  have r: "word_at (mem a) ?i = magic_of b" "word_at (mem a) (?i + 4) = of_nat (bsize b)"
    "bsize b < 2 ^ 32" and rest: "blocks_at (mem a) (?i + (40 + pad)) bs (unat (used a))"
    using Cons.prems by (simp_all add: blk_len_def pad_def)
  have bnd: "?i + 40 + pad \<le> unat (total a)" "?i + 40 + pad \<le> 2 ^ 48" using e assms(2,3) by simp_all
  have sz: "ucast (of_nat (bsize b) :: u32) = (of_nat (bsize b) :: u64)"
    using r(3) by (simp add: word_unat_eq_iff unsigned_ucast_eq unat_of_nat take_bit_nat_eq_self_iff)
  have r8: "unat (round8 (of_nat (bsize b))) = pad"
    using r(3) by (simp add: unat_round8 unat_of_nat pad_def)
  have offs: "unat (off + 4) = ?i + 4" "unat (off + 8) = ?i + 8"
    "unat (off + (24 + round8 (of_nat (bsize b)))) = ?i + 24 + pad"
    "unat (off + (40 + round8 (of_nat (bsize b)))) = ?i + 40 + pad"
    using bnd by (simp_all add: unat_word_ariths r8)
  have m: "magic_of b = ARENA_MAGIC_LIVE \<or> magic_of b = ARENA_MAGIC_FREE"
    by (simp add: magic_of_def)
  have z: "redzone_bad a (base a + w) 16 = Some (zone_bad (mem a) (unat w))"
    if "unat w + 16 \<le> unat (total a)" for w
    using redzone_bad_at [OF that assms(3)] by (simp add: zone_bad_def)
  have lt: "off < used a" using e by (simp add: word_less_nat_alt)
  have IH: "check_loop a (off + (40 + round8 (of_nat (bsize b)))) c'
      = Some (c' + int (bad_zones (mem a) (?i + 40 + pad) bs))" for c'
    using Cons.IH [of "off + (40 + round8 (of_nat (bsize b)))" c'] rest offs(4)
    by (simp add: add.assoc)
  have "check_loop a off c = check_loop a (off + (40 + round8 (of_nat (bsize b))))
      (c + (if zone_bad (mem a) (?i + 8) then 1 else 0)
         + (if zone_bad (mem a) (?i + 24 + pad) then 1 else 0))"
    using lt m bnd offs r(1,2)
    by (subst check_loop.simps)
      (auto simp: Let_def arena_consts get32_word_at z sz add.assoc)
  then show ?case
    by (simp add: IH blk_len_def pad_def [symmetric] add.assoc)
qed

lemma arena_check_counts:
  assumes "arena_rep a bs" and "redzoned a"
  shows "arena_check a = Some (int (bad_zones (mem a) 0 bs))"
  using check_loop_at [of a 0 bs 0] assms
  by (simp add: arena_rep_def arena_check_def redzoned_def word_le_nat_alt)

section \<open>The arena is such a heap\<close>

lemma arena_free_block:
  assumes rep: "arena_rep a (xs @ b # ys)"
  shows "arena_free a (user_ptr a xs) =
    (if blive b then Some (0, a\<lparr>mem := free_mem (mem a) (blks_len xs) (bsize b)\<rparr>) else Some (-1, a))"
proof -
  note r = arena_rep_split [OF rep]
  have "blks_len xs + 24 + bsize b \<le> unat (total a)"
    using r(1) pad8_bounds(1) [of "bsize b"] by (simp add: blk_len_def)
  moreover have "unat (base a) + unat (total a) \<le> 2 ^ 48"
    using rep by (simp add: arena_rep_def)
  moreover have "magic_of b = ARENA_MAGIC_LIVE \<longleftrightarrow> blive b"
    by (simp add: magic_of_def ARENA_MAGIC_FREE_def ARENA_MAGIC_LIVE_def)
  ultimately show ?thesis
    using arena_free_at [of a "blks_len xs" "bsize b"] r(2-4) by (simp add: user_ptr_def)
qed

lemma user_ptr_nonzero:
  assumes "arena_rep a bs"
  shows "base a + (used a + 24) \<noteq> 0"
proof -
  have "unat (base a) + unat (used a) \<le> 2 ^ 48"
    using assms by (simp add: arena_rep_def word_le_nat_alt)
  then have "unat (base a + (used a + 24)) = unat (base a) + unat (used a) + 24"
    by (simp add: unat_word_ariths)
  then show ?thesis by (metis add_eq_0_iff_both_eq_0 unat_0 zero_neq_numeral)
qed

lemma user_ptr_used: "arena_rep a bs \<Longrightarrow> base a + (used a + 24) = user_ptr a bs"
  by (simp add: user_ptr_def arena_rep_used [symmetric])

lemma arena_rep_alloc_eq:
  assumes "arena_rep a bs" and "unat n < 2 ^ 32"
  shows "arena_alloc a n =
    (if blks_len bs + blk_len (unat n) \<le> unat (total a)
     then Some (user_ptr a bs, a\<lparr>used := used a + of_nat (blk_len (unat n)),
        mem := alloc_mem (redzoned a) (mem a) (blks_len bs) (unat n)\<rparr>)
     else Some (0, a))"
  using arena_alloc_eq [OF assms(2), of a] assms(1) user_ptr_used [OF assms(1)]
  by (simp add: arena_rep_def arena_rep_used [OF assms(1)])

lemma load_poison:
  assumes "arena_rep a (xs @ b # ys)" and "k < bsize b"
  shows "get8 (a\<lparr>mem := free_mem (mem a) (blks_len xs) (bsize b)\<rparr>) (user_ptr a xs + of_nat k) = Some POISON_BYTE"
proof -
  note r = arena_rep_split [OF assms(1)]
  have "blks_len xs + 24 + bsize b \<le> unat (total a)" "unat (total a) \<le> 2 ^ 48"
    using r(1) pad8_bounds(1) [of "bsize b"] arena_rep_total [OF assms(1)] by (simp_all add: blk_len_def)
  moreover from this assms(2) have "unat (of_nat (blks_len xs + 24 + k) :: u64) = blks_len xs + 24 + k"
    by (simp add: unat_of_nat del: of_nat_add)
  moreover have "user_ptr a xs + of_nat k = base a + of_nat (blks_len xs + 24 + k)"
    by (simp add: user_ptr_def)
  ultimately show ?thesis
    using assms(2) by (simp add: get8_def free_mem_poison del: of_nat_add)
qed

lemma ownsI: "arena_rep a (xs @ b # ys) \<Longrightarrow> owns (blive b) a (user_ptr a xs) (bsize b)"
  by (auto simp: owns_def)

lemma user_ptr_cong [simp]:
  "user_ptr (a\<lparr>mem := m\<rparr>) xs = user_ptr a xs" "user_ptr (a\<lparr>used := u\<rparr>) xs = user_ptr a xs"
  by (simp_all add: user_ptr_def)

interpretation arena: checked_heap arena_alloc arena_free get8 owns "\<lambda>a. \<exists>bs. arena_rep a bs" POISON_BYTE
proof unfold_locales
  fix a :: chaos_arena and n :: u64
  assume "\<exists>bs. arena_rep a bs" and n: "unat n < 2 ^ 32"
  then obtain bs where bs: "arena_rep a bs" by blast
  show "\<exists>p a'. arena_alloc a n = Some (p, a')"
    using arena_rep_alloc_eq [OF bs n] by simp
  fix p a'
  assume al: "arena_alloc a n = Some (p, a')" and p: "p \<noteq> 0"
  let ?b = "\<lparr>bsize = unat n, blive = True\<rparr>"
  have fits: "blks_len bs + blk_len (unat n) \<le> unat (total a)" and p: "p = user_ptr a bs"
    and a': "a' = a\<lparr>used := used a + of_nat (blk_len (unat n)),
        mem := alloc_mem (redzoned a) (mem a) (blks_len bs) (unat n)\<rparr>"
    using al p arena_rep_alloc_eq [OF bs n] by (auto split: if_splits)
  have "arena_rep a' (bs @ [?b])"
    using arena_rep_alloc [OF bs n] fits arena_rep_used [OF bs] by (simp add: a')
  from this ownsI [OF this] show "(\<exists>bs. arena_rep a' bs) \<and> owns True a' p (unat n)"
    by (auto simp: p a')
next
  fix a p n
  assume "owns True a p n"
  then obtain xs b ys where o: "arena_rep a (xs @ b # ys)" "blive b" "bsize b = n" "p = user_ptr a xs"
    by (auto simp: owns_def)
  let ?a = "a\<lparr>mem := free_mem (mem a) (blks_len xs) (bsize b)\<rparr>"
  have "owns False ?a p n"
    unfolding owns_def using arena_rep_free [OF o(1)] o(3,4)
    by (intro exI [of _ xs] exI [of _ "b\<lparr>blive := False\<rparr>"] exI [of _ ys]) (simp add: user_ptr_def)
  then show "\<exists>a'. arena_free a p = Some (0, a') \<and> (\<exists>bs. arena_rep a' bs) \<and> owns False a' p n
      \<and> (\<forall>k < n. get8 a' (p + of_nat k) = Some POISON_BYTE)"
    using arena_free_block [OF o(1)] arena_rep_free [OF o(1)] load_poison [OF o(1)] o(2-4)
    by auto
next
  fix a p n
  assume "owns False a p n"
  then show "arena_free a p = Some (-1, a)"
    using arena_free_block by (auto simp: owns_def)
qed

section \<open>Writes by the owner and beyond\<close>

lemma overlay_append_span: "overlay m i bs k = (if i \<le> k \<and> k < i + length bs then bs ! (k - i) else m k)"
  by (simp add: overlay_def)

lemma put_user:
  assumes rep: "arena_rep a (xs @ b # ys)"
    and room: "blks_len xs + 24 + k + length data \<le> unat (total a)"
  shows "put_bytes a (user_ptr a xs + of_nat k) data
    = Some (a\<lparr>mem := overlay (mem a) (blks_len xs + 24 + k) data\<rparr>)"
proof -
  have "blks_len xs + 24 + k \<le> 2 ^ 48" using room arena_rep_total [OF rep] by simp
  then have "unat (of_nat (blks_len xs + 24 + k) :: u64) = blks_len xs + 24 + k"
    by (simp add: unat_of_nat del: of_nat_add)
  moreover have "user_ptr a xs + of_nat k = base a + of_nat (blks_len xs + 24 + k)"
    by (simp add: user_ptr_def)
  ultimately show ?thesis using room by (simp add: put_bytes_def del: of_nat_add)
qed

text \<open>A write that starts in a block's user bytes and stays off the next header keeps the layout.\<close>

lemma arena_rep_put:
  assumes rep: "arena_rep a (xs @ b # ys)"
    and stay: "k + length data \<le> pad8 (bsize b) + 16 \<or> ys = []"
  shows "arena_rep (a\<lparr>mem := overlay (mem a) (blks_len xs + 24 + k) data\<rparr>) (xs @ b # ys)"
proof -
  let ?i = "blks_len xs" and ?m = "overlay (mem a) (blks_len xs + 24 + k) data"
  have r: "blocks_at (mem a) 0 xs ?i" "blocks_at (mem a) ?i (b # ys) (unat (used a))"
    using rep by (auto simp: arena_rep_def blocks_at_append)
  have hdr: "word_at ?m ?i = word_at (mem a) ?i" "word_at ?m (?i + 4) = word_at (mem a) (?i + 4)"
    by (simp_all add: word_at_overlay_other)
  have "blocks_at ?m 0 xs ?i"
    by (rule blocks_at_cong [OF r(1)]) (simp add: overlay_def)
  moreover have "blocks_at ?m (?i + blk_len (bsize b)) ys (unat (used a))"
    using r(2) stay by (auto simp: overlay_def blk_len_def intro: blocks_at_cong)
  ultimately show ?thesis
    using rep r(2) hdr by (simp add: arena_rep_def blocks_at_append)
qed

lemma bad_zones_put_inside:
  assumes "k + length data \<le> pad8 (bsize b)"
  shows "bad_zones (overlay m (i + blks_len xs + 24 + k) data) i (xs @ b # ys) = bad_zones m i (xs @ b # ys)"
proof -
  let ?i = "i + blks_len xs"
  let ?m = "overlay m (?i + 24 + k) data"
  have "bad_zones ?m i xs = bad_zones m i xs"
    by (rule bad_zones_cong) (simp add: overlay_def)
  moreover have "bad_zones ?m (?i + blk_len (bsize b)) ys = bad_zones m (?i + blk_len (bsize b)) ys"
    using assms by (intro bad_zones_cong) (simp add: overlay_def blk_len_def)
  moreover have "zone_bad ?m (?i + 8) = zone_bad m (?i + 8)"
    "zone_bad ?m (?i + 24 + pad8 (bsize b)) = zone_bad m (?i + 24 + pad8 (bsize b))"
    using assms by (auto intro!: zone_bad_cong simp: overlay_def)
  ultimately show ?thesis by (simp add: bad_zones_append)
qed

lemma bad_zones_free:
  "bad_zones (free_mem m (i + blks_len xs) (bsize b)) i (xs @ b\<lparr>blive := lv\<rparr> # ys) = bad_zones m i (xs @ b # ys)"
proof -
  let ?i = "i + blks_len xs" and ?m = "free_mem m (i + blks_len xs) (bsize b)"
  note pad = pad8_bounds(1) [of "bsize b"]
  have "bad_zones ?m i xs = bad_zones m i xs"
    by (rule bad_zones_cong) (simp add: free_mem_other)
  moreover have "bad_zones ?m (?i + blk_len (bsize b)) ys = bad_zones m (?i + blk_len (bsize b)) ys"
    using pad by (intro bad_zones_cong) (simp add: free_mem_other blk_len_def)
  moreover have "zone_bad ?m (?i + 8) = zone_bad m (?i + 8)"
    "zone_bad ?m (?i + 24 + pad8 (bsize b)) = zone_bad m (?i + 24 + pad8 (bsize b))"
    using pad by (auto intro!: zone_bad_cong free_mem_other)
  ultimately show ?thesis by (simp add: bad_zones_append)
qed

lemma bad_zones_alloc:
  "bad_zones (alloc_mem True m (i + blks_len bs) n) i (bs @ [\<lparr>bsize = n, blive = lv\<rparr>]) = bad_zones m i bs"
proof -
  have "bad_zones (alloc_mem True m (i + blks_len bs) n) i bs = bad_zones m i bs"
    by (rule bad_zones_cong) (simp add: alloc_mem_other)
  then show ?thesis by (simp add: bad_zones_append alloc_mem_zones)
qed

lemma put_bytes_fields:
  "put_bytes a p data = Some a' \<Longrightarrow> total a' = total a \<and> redzoned a' = redzoned a"
  by (auto simp: put_bytes_def redzoned_def split: if_splits)

text \<open>Nothing a well-behaved client does breaks a redzone.\<close>

definition arena_intact :: "chaos_arena \<Rightarrow> blk list \<Rightarrow> bool" where
  "arena_intact a bs \<longleftrightarrow> arena_rep a bs \<and> (redzoned a \<longrightarrow> bad_zones (mem a) 0 bs = 0)"

lemma intact_alloc:
  assumes "arena_intact a bs" and "unat n < 2 ^ 32" and "arena_alloc a n = Some (p, a')"
  shows "arena_intact a' (if p = 0 then bs else bs @ [\<lparr>bsize = unat n, blive = True\<rparr>])"
proof -
  have rep: "arena_rep a bs" using assms(1) by (simp add: arena_intact_def)
  show ?thesis
  proof (cases "blks_len bs + blk_len (unat n) \<le> unat (total a)")
    case True
    with assms(2,3) arena_rep_alloc_eq [OF rep] user_ptr_nonzero [OF rep]
    have "p \<noteq> 0" and a': "a' = a\<lparr>used := used a + of_nat (blk_len (unat n)),
        mem := alloc_mem (redzoned a) (mem a) (blks_len bs) (unat n)\<rparr>"
      by (auto simp: user_ptr_used [OF rep])
    moreover have "arena_rep a' (bs @ [\<lparr>bsize = unat n, blive = True\<rparr>])"
      using arena_rep_alloc [OF rep] True assms(2) arena_rep_used [OF rep] by (simp add: a')
    moreover have "redzoned a' = redzoned a" by (simp add: a' redzoned_def)
    ultimately show ?thesis
      using assms(1) bad_zones_alloc [of "mem a" 0 bs "unat n"] by (auto simp: arena_intact_def)
  next
    case False
    with assms arena_rep_alloc_eq [OF rep] show ?thesis by auto
  qed
qed

lemma intact_free:
  assumes "arena_intact a (xs @ b # ys)" and "arena_free a (user_ptr a xs) = Some (r, a')"
  shows "arena_intact a' (xs @ b\<lparr>blive := False\<rparr> # ys)"
proof -
  have rep: "arena_rep a (xs @ b # ys)" using assms(1) by (simp add: arena_intact_def)
  show ?thesis
  proof (cases "blive b")
    case True
    then have a': "a' = a\<lparr>mem := free_mem (mem a) (blks_len xs) (bsize b)\<rparr>"
      using assms(2) arena_free_block [OF rep] by simp
    then have "redzoned a' = redzoned a" by (simp add: redzoned_def)
    then show ?thesis
      using arena_rep_free [OF rep] assms(1) bad_zones_free [of "mem a" 0 xs b False ys]
      by (simp add: a' arena_intact_def)
  next
    case False
    then have "a' = a" and "b\<lparr>blive := False\<rparr> = b"
      using assms(2) arena_free_block [OF rep] by auto
    with assms(1) show ?thesis by simp
  qed
qed

lemma intact_write:
  assumes "arena_intact a (xs @ b # ys)" and "k + length data \<le> pad8 (bsize b)"
    and "put_bytes a (user_ptr a xs + of_nat k) data = Some a'"
  shows "arena_intact a' (xs @ b # ys)"
proof -
  have rep: "arena_rep a (xs @ b # ys)" using assms(1) by (simp add: arena_intact_def)
  have "blks_len xs + 24 + k + length data \<le> unat (total a)"
    using arena_rep_split(1) [OF rep] assms(2) by (simp add: blk_len_def)
  from put_user [OF rep this] assms(3)
  have a': "a' = a\<lparr>mem := overlay (mem a) (blks_len xs + 24 + k) data\<rparr>" by simp
  have "k + length data \<le> pad8 (bsize b) + 16 \<or> ys = []" using assms(2) by simp
  from arena_rep_put [OF rep this] show ?thesis
    using assms(1) bad_zones_put_inside [OF assms(2), of "mem a" 0 xs ys]
    by (simp add: a' redzoned_def arena_intact_def)
qed

lemma put_bytes_base: "put_bytes a q data = Some a' \<Longrightarrow> base a' = base a"
  by (auto simp: put_bytes_def split: if_splits)

lemma arena_alloc_base:
  assumes "arena_rep a bs" and "unat n < 2 ^ 32" and "arena_alloc a n = Some (p, a')"
  shows "base a' = base a"
  using assms(3) arena_rep_alloc_eq [OF assms(1,2)] by (auto split: if_splits)

lemma arena_free_base:
  assumes "arena_rep a (xs @ b # ys)" and "arena_free a (user_ptr a xs) = Some (r, a')"
  shows "base a' = base a"
  using assms(2) arena_free_block [OF assms(1)] by (auto split: if_splits)

lemma granted_append:
  "granted q (xs @ ys) = granted q xs @ granted (q + of_nat (blks_len xs)) ys"
  by (induction xs arbitrary: q) (simp_all add: add.assoc)

lemma granted_split:
  "granted q bs = gs @ g # hs \<Longrightarrow> \<exists>xs b ys. bs = xs @ b # ys \<and> gs = granted q xs
    \<and> g = \<lparr>g_ptr = q + of_nat (blks_len xs + 24), g_size = bsize b, g_live = blive b\<rparr>
    \<and> hs = granted (q + of_nat (blks_len (xs @ [b]))) ys"
proof (induction gs arbitrary: q bs)
  case Nil
  then obtain b ys where "bs = b # ys" by (cases bs) auto
  with Nil show ?case by (intro exI [of _ "[]"] exI [of _ b] exI [of _ ys]) auto
next
  case (Cons f gs)
  then obtain c cs where bs: "bs = c # cs" by (cases bs) auto
  with Cons.prems have "granted (q + of_nat (blk_len (bsize c))) cs = gs @ g # hs" by simp
  from Cons.IH [OF this] obtain xs b ys where "cs = xs @ b # ys"
    "gs = granted (q + of_nat (blk_len (bsize c))) xs"
    "g = \<lparr>g_ptr = q + of_nat (blk_len (bsize c)) + of_nat (blks_len xs + 24), g_size = bsize b, g_live = blive b\<rparr>"
    "hs = granted (q + of_nat (blk_len (bsize c)) + of_nat (blks_len (xs @ [b]))) ys" by blast
  with bs Cons.prems show ?case
    by (intro exI [of _ "c # xs"] exI [of _ b] exI [of _ ys]) (simp add: add.assoc add.left_commute)
qed

lemma unat_user_ptr:
  assumes "arena_rep a (xs @ b # ys)"
  shows "unat (user_ptr a xs) = unat (base a) + blks_len xs + 24"
proof -
  have "blks_len xs + blk_len (bsize b) \<le> unat (total a)" by (rule arena_rep_split(1) [OF assms])
  then have r: "blks_len xs + 24 \<le> unat (total a)" by (simp add: blk_len_def)
  have m: "unat (base a) + unat (total a) \<le> 2 ^ 48" using assms by (simp add: arena_rep_def)
  have "unat (of_nat (blks_len xs + 24) :: u64) = blks_len xs + 24"
    using r m by (simp add: unat_of_nat del: of_nat_add)
  then show ?thesis using r m by (simp add: user_ptr_def unat_plus_fits del: of_nat_add)
qed

lemma user_ptr_not_null: "arena_rep a (xs @ b # ys) \<Longrightarrow> user_ptr a xs \<noteq> 0"
  using unat_user_ptr by fastforce

text \<open>The client holds exactly the blocks of an intact arena.\<close>

lemma arena_client_inv:
  "arena_client a gs \<Longrightarrow> \<exists>bs. arena_intact a bs \<and> gs = granted (base a) bs"
proof (induction rule: arena_client.induct)
  case (client_opens n fl m a)
  then show ?case
    by (auto simp: chaos_arena_create_def arena_rep_def arena_intact_def split: if_splits intro!: exI [of _ "[]"])
next
  case (client_allocs a gs n p a')
  then obtain bs where bs: "arena_intact a bs" "gs = granted (base a) bs" by blast
  have al: "arena_alloc a n = Some (p, a')"
    using client_allocs.hyps(3) by (auto simp: chaos_arena_alloc_def)
  have rep: "arena_rep a bs" using bs(1) by (simp add: arena_intact_def)
  have "p \<noteq> 0 \<Longrightarrow> p = user_ptr a bs"
    using al arena_rep_alloc_eq [OF rep client_allocs.hyps(2)] by (auto split: if_splits)
  then show ?case
    using intact_alloc [OF bs(1) client_allocs.hyps(2) al] bs(2) arena_alloc_base [OF rep client_allocs.hyps(2) al]
    by (intro exI [of _ "if p = 0 then bs else bs @ [\<lparr>bsize = unat n, blive = True\<rparr>]"])
      (simp add: granted_append user_ptr_def add.assoc)
next
  case (client_frees a gs g hs r a')
  then obtain bs where bs: "arena_intact a bs" "granted (base a) bs = gs @ g # hs" by metis
  from granted_split [OF bs(2)] obtain xs b ys where x: "bs = xs @ b # ys" "gs = granted (base a) xs"
    "g = \<lparr>g_ptr = user_ptr a xs, g_size = bsize b, g_live = blive b\<rparr>"
    "hs = granted (base a + of_nat (blks_len (xs @ [b]))) ys" by (auto simp: user_ptr_def)
  have rep: "arena_rep a (xs @ b # ys)" using bs(1) x(1) by (simp add: arena_intact_def)
  from user_ptr_not_null [OF rep] have fr: "arena_free a (user_ptr a xs) = Some (r, a')"
    using client_frees.hyps(2) x(3) by (auto simp: chaos_arena_free_def)
  with intact_free [OF _ fr] bs(1) x arena_free_base [OF rep fr] show ?case
    by (intro exI [of _ "xs @ b\<lparr>blive := False\<rparr> # ys"]) (simp add: granted_append user_ptr_def add.assoc)
next
  case (client_writes a gs g hs k data a')
  then obtain bs where bs: "arena_intact a bs" "granted (base a) bs = gs @ g # hs" by metis
  from granted_split [OF bs(2)] obtain xs b ys where x: "bs = xs @ b # ys"
    "g = \<lparr>g_ptr = user_ptr a xs, g_size = bsize b, g_live = blive b\<rparr>" by (auto simp: user_ptr_def)
  have "k + length data \<le> pad8 (bsize b)"
    using client_writes.hyps(2) x(2) pad8_bounds(1) [of "bsize b"] by simp
  from intact_write [OF _ this] have "arena_intact a' bs"
    using client_writes.hyps(3) bs(1) x by simp
  then show ?case using bs(2) put_bytes_base [OF client_writes.hyps(3)] by auto
qed

lemma arena_client_block:
  assumes "arena_client a (gs @ g # hs)"
  obtains xs b ys where "arena_intact a (xs @ b # ys)" and "arena_rep a (xs @ b # ys)"
    and "gs = granted (base a) xs"
    and "g = \<lparr>g_ptr = user_ptr a xs, g_size = bsize b, g_live = blive b\<rparr>"
    and "hs = granted (base a + of_nat (blks_len (xs @ [b]))) ys"
  using arena_client_inv [OF assms] granted_split [of "base a" _ gs g hs]
  by (metis arena_intact_def user_ptr_def)

section \<open>Properties\<close>

text \<open>
  C4: for a request below 4 GiB, allocation refines appending a block to the abstract list: it
  succeeds exactly when the block fits behind the others, returns the pointer behind header and
  front redzone, changes no byte of an earlier block and leaves both new redzones intact; otherwise
  it returns NULL and changes nothing. Above 4 GiB it does not: see \<open>arena_alloc_size_wraps\<close>.
\<close>

theorem arena_alloc_refines:
  assumes rep: "arena_rep a bs" and n: "unat n < 2 ^ 32"
  shows "if blks_len bs + blk_len (unat n) \<le> unat (total a)
    then \<exists>a'. arena_alloc a n = Some (user_ptr a bs, a')
      \<and> arena_rep a' (bs @ [\<lparr>bsize = unat n, blive = True\<rparr>])
      \<and> (\<forall>k < blks_len bs. mem a' k = mem a k)
      \<and> (redzoned a \<longrightarrow>
          bad_zones (mem a') 0 (bs @ [\<lparr>bsize = unat n, blive = True\<rparr>]) = bad_zones (mem a) 0 bs)
    else arena_alloc a n = Some (0, a)"
  using arena_rep_alloc_eq [OF rep n] arena_rep_alloc [OF rep n] arena_rep_used [OF rep]
    bad_zones_alloc [of "mem a" 0 bs "unat n" True]
  by (auto simp: alloc_mem_other)

text \<open>An arena of 64 KiB at a fixed address, as the scenarios create it.\<close>

definition demo_arena :: chaos_arena where
  "demo_arena = \<lparr>base = 0x10000, total = 65536, used = 0, flags = CHAOS_ARENA_REDZONES, mem = (\<lambda>_. 0)\<rparr>"

lemma demo_arena_rep: "arena_rep demo_arena []"
  by (simp add: arena_rep_def demo_arena_def)

lemma demo_arena_redzoned: "redzoned demo_arena"
  by (simp add: redzoned_def demo_arena_def CHAOS_ARENA_REDZONES_def)

theorem arena_alloc_refines_witness:
  "\<exists>a'. arena_alloc demo_arena 32 = Some (0x10018, a')
    \<and> arena_rep a' [\<lparr>bsize = 32, blive = True\<rparr>]"
  using arena_alloc_refines [OF demo_arena_rep, of 32]
  by (auto simp: demo_arena_def blk_len_def pad8_def user_ptr_def)

lemma blk_len_mod8: "blk_len n mod 8 = 0"
  using pad8_bounds(2) [of n] by (simp add: blk_len_def) presburger

lemma blks_len_mod8: "blks_len bs mod 8 = 0"
  using blk_len_mod8 by (induction bs) (auto simp: mod_eq_0_iff_dvd)

text \<open>
  C18: whatever a client does (requests below 4 GiB, releases, writes inside its blocks), the
  regions it holds stay apart: behind the user bytes of an earlier block, rounded up to eight,
  come its back redzone, the next header and the next front redzone before the pointer of any
  later block; the last redzone ends within the mapping; pointers are 8-byte aligned when the
  mapping is.
\<close>

theorem arena_blocks_apart:
  assumes run: "arena_client a gs" and i: "i < j" and j: "j < length gs"
  shows "unat (base a) + 24 \<le> unat (g_ptr (gs ! i))
    \<and> unat (g_ptr (gs ! i)) + (g_size (gs ! i) + 7) div 8 * 8 + 40 \<le> unat (g_ptr (gs ! j))
    \<and> unat (g_ptr (gs ! j)) + (g_size (gs ! j) + 7) div 8 * 8 + 16 \<le> unat (base a) + unat (total a)
    \<and> (unat (base a) mod 8 = 0 \<longrightarrow> unat (g_ptr (gs ! i)) mod 8 = 0 \<and> unat (g_ptr (gs ! j)) mod 8 = 0)"
proof -
  have "gs = take j gs @ gs ! j # drop (Suc j) gs" using j by (simp add: id_take_nth_drop)
  with run have "arena_client a (take j gs @ gs ! j # drop (Suc j) gs)" by metis
  then obtain ws c zs where c: "arena_rep a (ws @ c # zs)" "take j gs = granted (base a) ws"
    "gs ! j = \<lparr>g_ptr = user_ptr a ws, g_size = bsize c, g_live = blive c\<rparr>"
    by (rule arena_client_block)
  have "take j gs = take i gs @ gs ! i # drop (Suc i) (take j gs)"
    using i j id_take_nth_drop [of i "take j gs"] by (simp add: min_absorb1)
  with c(2) have "granted (base a) ws = take i gs @ gs ! i # drop (Suc i) (take j gs)" by metis
  from granted_split [OF this] obtain xs b ys where b: "ws = xs @ b # ys"
    "gs ! i = \<lparr>g_ptr = user_ptr a xs, g_size = bsize b, g_live = blive b\<rparr>"
    by (auto simp: user_ptr_def)
  have "blks_len ws + blk_len (bsize c) \<le> unat (total a)" by (rule arena_rep_split(1) [OF c(1)])
  moreover have "unat (user_ptr a ws) = unat (base a) + blks_len ws + 24"
    by (rule unat_user_ptr [OF c(1)])
  moreover have "unat (user_ptr a xs) = unat (base a) + blks_len xs + 24"
    using unat_user_ptr [of a xs b "ys @ c # zs"] c(1) b(1) by simp
  moreover have "unat (base a) mod 8 = 0 \<Longrightarrow> (unat (base a) + blks_len us + 24) mod 8 = 0" for us
    using blks_len_mod8 [of us] by presburger
  then have "unat (base a) mod 8 = 0 \<longrightarrow> unat (user_ptr a xs) mod 8 = 0 \<and> unat (user_ptr a ws) mod 8 = 0"
    using calculation by presburger
  ultimately show ?thesis using b c(3) by (auto simp: blk_len_def pad8_def)
qed

definition demo_blocks :: "blk list" where
  "demo_blocks = [\<lparr>bsize = 32, blive = True\<rparr>, \<lparr>bsize = 13, blive = True\<rparr>]"

lemma demo_two_blocks: "\<exists>a. arena_rep a demo_blocks \<and> redzoned a \<and> base a = 0x10000
    \<and> total a = 65536 \<and> bad_zones (mem a) 0 demo_blocks = 0"
proof -
  let ?b = "\<lparr>bsize = 32, blive = True\<rparr>"
  define a1 where "a1 = demo_arena\<lparr>used := of_nat (blk_len 32),
    mem := alloc_mem True (mem demo_arena) 0 32\<rparr>"
  have r1: "arena_rep a1 [?b]"
    using arena_rep_alloc [OF demo_arena_rep, of 32 True]
    by (simp add: a1_def demo_arena_def blk_len_def pad8_def)
  define a2 where "a2 = a1\<lparr>used := used a1 + of_nat (blk_len 13),
    mem := alloc_mem True (mem a1) 72 13\<rparr>"
  have u1: "unat (used a1) = 72" by (simp add: a1_def blk_len_def pad8_def)
  have "arena_rep a2 demo_blocks"
    using arena_rep_alloc [OF r1, of 13 True] u1
    by (simp add: a2_def a1_def demo_blocks_def demo_arena_def blk_len_def pad8_def)
  moreover have "bad_zones (mem a1) 0 [?b] = 0"
    using bad_zones_alloc [of "mem demo_arena" 0 "[]" 32 True] by (simp add: a1_def)
  then have "bad_zones (mem a2) 0 demo_blocks = 0"
    using bad_zones_alloc [of "mem a1" 0 "[?b]" 13 True]
    by (simp add: a2_def demo_blocks_def blk_len_def pad8_def)
  moreover have "redzoned a2" "base a2 = 0x10000" "total a2 = 65536"
    by (simp_all add: a2_def a1_def demo_arena_def redzoned_def CHAOS_ARENA_REDZONES_def)
  ultimately show ?thesis by blast
qed

text \<open>The client that creates the arena and takes 32 and 13 bytes.\<close>

lemma demo_client: "\<exists>a. arena_client a [\<lparr>g_ptr = 0x10018, g_size = 32, g_live = True\<rparr>,
    \<lparr>g_ptr = 0x10060, g_size = 13, g_live = True\<rparr>] \<and> base a = 0x10000"
proof -
  have 0: "arena_client demo_arena []"
    by (rule client_opens [where n = 65536 and m = "0x10000" and fl = CHAOS_ARENA_REDZONES])
      (simp_all add: chaos_arena_create_def demo_arena_def)
  obtain a where a: "arena_alloc demo_arena 32 = Some (0x10018, a)" "arena_rep a [\<lparr>bsize = 32, blive = True\<rparr>]"
    "base a = 0x10000" "total a = 65536"
    using arena_rep_alloc_eq [OF demo_arena_rep, of 32] arena_rep_alloc [OF demo_arena_rep, of 32]
    by (auto simp: demo_arena_def blk_len_def pad8_def user_ptr_def)
  have 1: "arena_client a [\<lparr>g_ptr = 0x10018, g_size = 32, g_live = True\<rparr>]"
    using client_allocs [OF 0, of 32 "0x10018" a] a(1) by (simp add: chaos_arena_alloc_def)
  obtain b where b: "arena_alloc a 13 = Some (0x10060, b)" "base b = 0x10000"
    using arena_rep_alloc_eq [OF a(2), of 13] a(3,4) by (auto simp: blk_len_def pad8_def user_ptr_def)
  have "arena_client b [\<lparr>g_ptr = 0x10018, g_size = 32, g_live = True\<rparr>,
      \<lparr>g_ptr = 0x10060, g_size = 13, g_live = True\<rparr>]"
    using client_allocs [OF 1, of 13 "0x10060" b] b(1) by (simp add: chaos_arena_alloc_def)
  with b(2) show ?thesis by blast
qed

theorem arena_blocks_apart_witness:
  "\<exists>a. arena_client a [\<lparr>g_ptr = 0x10018, g_size = 32, g_live = True\<rparr>,
      \<lparr>g_ptr = 0x10060, g_size = 13, g_live = True\<rparr>]
    \<and> 0x10060 + 13 + 16 \<le> unat (base a) + unat (total a)"
proof -
  obtain a where a: "arena_client a [\<lparr>g_ptr = 0x10018, g_size = 32, g_live = True\<rparr>,
      \<lparr>g_ptr = 0x10060, g_size = 13, g_live = True\<rparr>]" using demo_client by blast
  from arena_blocks_apart [OF this, of 0 1] a show ?thesis by (intro exI [of _ a]) auto
qed

text \<open>
  C19: whatever a client did before (requests below 4 GiB, releases, writes inside its blocks),
  releasing a block it still holds returns 0 and fills the block's bytes with poison, and
  releasing it once more returns -1 and changes nothing; a block it released earlier, whatever
  happened since, is refused the same way.
\<close>

theorem arena_double_free:
  assumes run: "arena_client a gs" and g: "g \<in> set gs"
  shows "if g_live g
    then \<exists>a'. chaos_arena_free (Some a) (g_ptr g) = Some (0, Some a')
      \<and> (\<forall>k < g_size g. get8 a' (g_ptr g + of_nat k) = Some 0xDE)
      \<and> chaos_arena_free (Some a') (g_ptr g) = Some (-1, Some a')
    else chaos_arena_free (Some a) (g_ptr g) = Some (-1, Some a)"
proof -
  obtain hs is' where "gs = hs @ g # is'" using g by (meson split_list)
  with run have "arena_client a (hs @ g # is')" by simp
  then obtain xs b ys where b: "arena_rep a (xs @ b # ys)"
    "g = \<lparr>g_ptr = user_ptr a xs, g_size = bsize b, g_live = blive b\<rparr>"
    by (rule arena_client_block)
  have p: "user_ptr a xs \<noteq> 0" by (rule user_ptr_not_null [OF b(1)])
  show ?thesis
  proof (cases "blive b")
    case True
    then have "owns True a (user_ptr a xs) (bsize b)" using ownsI [OF b(1)] by simp
    from arena.release_live [OF _ this] b(1) obtain a' where a':
      "arena_free a (user_ptr a xs) = Some (0, a')" "\<exists>bs. arena_rep a' bs"
      "owns False a' (user_ptr a xs) (bsize b)"
      "\<forall>k < bsize b. get8 a' (user_ptr a xs + of_nat k) = Some POISON_BYTE" by blast
    with arena.release_freed [OF a'(2,3)] b(2) True p show ?thesis
      by (simp add: chaos_arena_free_def POISON_BYTE_def)
  next
    case False
    with arena_free_block [OF b(1)] b(2) p show ?thesis by (simp add: chaos_arena_free_def)
  qed
qed

theorem arena_double_free_witness:
  "\<exists>a a'. chaos_arena_free (Some a) 0x10018 = Some (0, Some a')
    \<and> chaos_arena_free (Some a') 0x10018 = Some (-1, Some a')"
proof -
  obtain a where "arena_client a [\<lparr>g_ptr = 0x10018, g_size = 32, g_live = True\<rparr>,
      \<lparr>g_ptr = 0x10060, g_size = 13, g_live = True\<rparr>]" using demo_client by blast
  from arena_double_free [OF this, of "\<lparr>g_ptr = 0x10018, g_size = 32, g_live = True\<rparr>"]
  show ?thesis by auto
qed

text \<open>
  releasing a live block succeeds, marks exactly that block free, fills exactly its user
  bytes with the poison byte, so that every dangling read returns poison, and changes no byte
  outside that block.
\<close>

theorem arena_free_poisons:
  assumes rep: "arena_rep a (xs @ b # ys)" and live: "blive b"
  shows "\<exists>a'. arena_free a (user_ptr a xs) = Some (0, a')
    \<and> arena_rep a' (xs @ b\<lparr>blive := False\<rparr> # ys)
    \<and> (\<forall>k < bsize b. get8 a' (user_ptr a xs + of_nat k) = Some POISON_BYTE)
    \<and> (\<forall>k. k < blks_len xs \<or> blks_len (xs @ [b]) \<le> k \<longrightarrow> mem a' k = mem a k)"
  using arena_free_block [OF rep] arena_rep_free [OF rep] load_poison [OF rep] live
    pad8_bounds(1) [of "bsize b"]
  by (simp add: free_mem_other blk_len_def)

theorem arena_free_poisons_witness:
  "\<exists>a a'. arena_free a (user_ptr a []) = Some (0, a') \<and> get8 a' (user_ptr a [] + 31) = Some 0xDE"
proof -
  obtain a where "arena_rep a ([] @ \<lparr>bsize = 32, blive = True\<rparr> # [\<lparr>bsize = 13, blive = True\<rparr>])"
    using demo_two_blocks by (auto simp: demo_blocks_def)
  from arena_free_poisons [OF this] obtain a' where
    "arena_free a (user_ptr a []) = Some (0, a')"
    "\<forall>k < 32. get8 a' (user_ptr a [] + of_nat k) = Some POISON_BYTE" by auto
  moreover from this(2) have "get8 a' (user_ptr a [] + of_nat 31) = Some POISON_BYTE"
    by (drule_tac spec [of _ 31]) simp
  ultimately show ?thesis by (auto simp: POISON_BYTE_def)
qed

text \<open>
  C3: on any arena whose headers are intact, the scan returns and reports exactly the number of
  redzones that hold a foreign byte: it misses none and invents none.
\<close>

theorem arena_check_exact:
  assumes "arena_rep a bs" and "redzoned a"
  shows "chaos_arena_check (Some a) = Some (int (bad_zones (mem a) 0 bs))"
  using arena_check_counts [OF assms] by (simp add: chaos_arena_check_def)

theorem arena_check_exact_witness:
  "chaos_arena_check (Some demo_arena) = Some 0"
  using arena_check_exact [OF demo_arena_rep demo_arena_redzoned] by simp

text \<open>
  no false alarm: whatever a client did that stays inside its blocks, the scan returns zero.
\<close>

theorem arena_check_no_false_alarm:
  assumes "arena_client a gs" and "redzoned a"
  shows "chaos_arena_check (Some a) = Some 0"
  using arena_client_inv [OF assms(1), unfolded arena_intact_def] arena_check_counts [of a] assms(2)
  by (auto simp: chaos_arena_check_def)

theorem arena_check_no_false_alarm_witness:
  "chaos_arena_check (Some demo_arena) = Some 0"
proof -
  have "arena_client demo_arena []"
    by (rule client_opens [where n = 65536 and m = "0x10000" and fl = CHAOS_ARENA_REDZONES])
      (simp_all add: chaos_arena_create_def demo_arena_def)
  from arena_check_no_false_alarm [OF this demo_arena_redzoned] show ?thesis .
qed

text \<open>
  an overrun that reaches the back redzone is reported: writing from the user pointer of a
  block, with some byte of the redzone getting a foreign value and the next header not reached
  (or no block behind), makes the scan return a positive count.
\<close>

theorem arena_overrun_detected:
  assumes rep: "arena_rep a (xs @ b # ys)" and rz: "redzoned a"
    and put: "put_bytes a (user_ptr a xs) data = Some a'"
    and stay: "length data \<le> pad8 (bsize b) + 16 \<or> ys = []"
    and hit: "pad8 (bsize b) \<le> j" "j < pad8 (bsize b) + 16" "j < length data" "data ! j \<noteq> REDZONE_BYTE"
  shows "\<exists>r. chaos_arena_check (Some a') = Some r \<and> 1 \<le> r"
proof -
  let ?i = "blks_len xs" and ?m = "overlay (mem a) (blks_len xs + 24) data"
  have "unat (of_nat (?i + 24) :: u64) = ?i + 24"
    using arena_rep_split(1) [OF rep] arena_rep_total [OF rep]
    by (simp add: unat_of_nat blk_len_def del: of_nat_add)
  then have a': "a' = a\<lparr>mem := ?m\<rparr>"
    using put hit(3) by (auto simp: put_bytes_def user_ptr_def simp del: of_nat_add split: if_splits)
  have "?m (?i + 24 + pad8 (bsize b) + (j - pad8 (bsize b))) = data ! j"
    using hit by (simp add: overlay_def)
  then have "zone_bad ?m (?i + 24 + pad8 (bsize b))"
    unfolding zone_bad_def using hit by (intro exI [of _ "j - pad8 (bsize b)"]) auto
  then have "1 \<le> bad_zones ?m 0 (xs @ b # ys)"
    by (simp add: bad_zones_append)
  moreover have "arena_rep a' (xs @ b # ys)"
    using arena_rep_put [OF rep, of 0 data] stay by (simp add: a')
  ultimately show ?thesis
    using arena_check_counts [of a' "xs @ b # ys"] rz
    by (simp add: chaos_arena_check_def a' redzoned_def)
qed

theorem arena_overrun_detected_witness:
  "\<exists>a a' r. put_bytes a (user_ptr a []) (replicate 40 0x58) = Some a'
    \<and> chaos_arena_check (Some a') = Some r \<and> 1 \<le> r"
proof -
  obtain a where a: "arena_rep a ([] @ \<lparr>bsize = 32, blive = True\<rparr> # [\<lparr>bsize = 13, blive = True\<rparr>])"
    "redzoned a" "total a = 65536"
    using demo_two_blocks by (auto simp: demo_blocks_def)
  have "put_bytes a (user_ptr a [] + of_nat 0) (replicate 40 0x58)
      = Some (a\<lparr>mem := overlay (mem a) (blks_len [] + 24 + 0) (replicate 40 0x58)\<rparr>)"
    by (rule put_user [OF a(1)]) (simp add: a(3))
  then have "put_bytes a (user_ptr a []) (replicate 40 0x58)
      = Some (a\<lparr>mem := overlay (mem a) 24 (replicate 40 0x58)\<rparr>)" by simp
  from this arena_overrun_detected [OF a(1,2) this, of 32] show ?thesis
    by (auto simp: pad8_def REDZONE_BYTE_def)
qed

text \<open>
  an overrun of up to seven bytes is not reported: the scan's answer is the same before and
  after any write that runs past the requested size but stays within the rounding to eight.
\<close>

theorem arena_overrun_into_padding_missed:
  assumes rep: "arena_rep a (xs @ b # ys)" and rz: "redzoned a"
    and over: "bsize b < length data" "length data \<le> pad8 (bsize b)"
  shows "\<exists>a'. put_bytes a (user_ptr a xs) data = Some a'
    \<and> chaos_arena_check (Some a') = chaos_arena_check (Some a)"
proof -
  have room: "blks_len xs + 24 + 0 + length data \<le> unat (total a)"
    using arena_rep_split(1) [OF rep] over(2) by (simp add: blk_len_def)
  define a' where "a' = a\<lparr>mem := overlay (mem a) (blks_len xs + 24 + 0) data\<rparr>"
  have "put_bytes a (user_ptr a xs) data = Some a'"
    using put_user [OF rep room] by (simp add: a'_def)
  moreover have "arena_rep a' (xs @ b # ys)"
    unfolding a'_def by (rule arena_rep_put [OF rep]) (use over in simp)
  moreover have "bad_zones (mem a') 0 (xs @ b # ys) = bad_zones (mem a) 0 (xs @ b # ys)"
    using bad_zones_put_inside [of 0 data b "mem a" 0 xs ys] over by (simp add: a'_def)
  moreover have "redzoned a'" using rz by (simp add: a'_def redzoned_def)
  ultimately show ?thesis
    using arena_check_counts [OF rep rz] arena_check_counts [of a' "xs @ b # ys"]
    by (simp add: chaos_arena_check_def)
qed

theorem arena_overrun_into_padding_missed_witness:
  "\<exists>a a'. arena_rep a demo_blocks \<and> put_bytes a (user_ptr a [\<lparr>bsize = 32, blive = True\<rparr>]) (replicate 16 0x58) = Some a'
    \<and> chaos_arena_check (Some a') = chaos_arena_check (Some a)"
proof -
  obtain a where a: "arena_rep a ([\<lparr>bsize = 32, blive = True\<rparr>] @ \<lparr>bsize = 13, blive = True\<rparr> # [])" "redzoned a"
    using demo_two_blocks by (auto simp: demo_blocks_def)
  from arena_overrun_into_padding_missed [OF this, of "replicate 16 0x58"] a(1) show ?thesis
    by (auto simp: pad8_def demo_blocks_def)
qed

text \<open>
  the size computation wraps around. A request for \<open>SIZE_MAX\<close> bytes succeeds with a
  block of no user bytes, and a request for \<open>SIZE_MAX - 99\<close> bytes moves the end of the arena
  backwards, so that the next block overlaps the earlier ones.
\<close>

theorem arena_alloc_size_wraps:
  assumes "unat (total a) \<le> 2 ^ 48" and "72 \<le> unat (used a)"
    and "unat (used a) + 40 \<le> unat (total a)" and "redzoned a"
  shows "(\<exists>a'. arena_alloc a 0xFFFFFFFFFFFFFFFF = Some (base a + (used a + 24), a')
        \<and> unat (used a') = unat (used a) + 40)
    \<and> (\<exists>a'. arena_alloc a 0xFFFFFFFFFFFFFF9C = Some (base a + (used a + 24), a')
        \<and> unat (used a') = unat (used a) - 56)"
proof
  let ?u = "unat (used a)"
  have u: "?u \<le> 2 ^ 48" using assms by simp
  have offs: "unat (used a + 4) = ?u + 4" "unat (used a + 8) = ?u + 8" "unat (used a + 24) = ?u + 24"
    "unat (used a + 40) = ?u + 40"
    using u by (simp_all add: unat_word_ariths)
  have lower: "unat (used a - 72) = ?u - 72" "unat (used a - 56) = ?u - 56"
    using assms(2) by (simp_all add: unat_sub word_le_nat_alt)
  have "block_total 0xFFFFFFFFFFFFFFFF = 40" "round8 0xFFFFFFFFFFFFFFFF = 0"
    by (simp_all add: block_total_def round8_def arena_consts)
  then show "\<exists>a'. arena_alloc a 0xFFFFFFFFFFFFFFFF = Some (base a + (used a + 24), a')
      \<and> unat (used a') = ?u + 40"
    using assms offs
    by (simp add: arena_alloc_def Let_def arena_consts redzoned_def add.assoc put32_at memset_at_at
        word_less_nat_alt not_less)
  have "base a + used a - 72 - base a = used a - 72" by simp
  then have post: "off_of a (base a + used a - 72) = ?u - 72"
    using lower(1) by (simp only: off_of_def)
  have "?u - 56 \<le> unat (total a)" "?u - 72 + 16 \<le> unat (total a)"
    using assms(2,3) by simp_all
  moreover have "block_total 0xFFFFFFFFFFFFFF9C = -56" "round8 0xFFFFFFFFFFFFFF9C = -96"
    by (simp_all add: block_total_def round8_def arena_consts)
  ultimately show "\<exists>a'. arena_alloc a 0xFFFFFFFFFFFFFF9C = Some (base a + (used a + 24), a')
      \<and> unat (used a') = ?u - 56"
    using assms offs lower post
    by (simp add: arena_alloc_def Let_def arena_consts redzoned_def add.assoc put32_at memset_at_at
        word_less_nat_alt not_less)
qed

theorem arena_alloc_size_wraps_witness:
  "\<exists>a a'. arena_rep a demo_blocks \<and> arena_alloc a 0xFFFFFFFFFFFFFF9C = Some (base a + (used a + 24), a')
    \<and> unat (used a') < unat (used a)"
proof -
  obtain a where a: "arena_rep a demo_blocks" "redzoned a" "total a = 65536"
    using demo_two_blocks by blast
  then have u: "unat (used a) = 128"
    by (simp add: arena_rep_used demo_blocks_def blk_len_def pad8_def)
  from arena_alloc_size_wraps [of a] a u show ?thesis by force
qed

text \<open>
  creation checks its size argument before it takes any memory, and on every failure
  releases what it took; on success the arena is empty, represents no block, and is as large as
  requested.
\<close>

theorem chaos_arena_create_outcome:
  assumes "chaos_arena_create n fl ok mapping = (ao, e, acts)"
  shows "(ao = None \<longrightarrow> held acts = 0 \<and> (\<forall>k. SysMmap k \<notin> set acts))
    \<and> (n < 4096 \<longrightarrow> ao = None \<and> e = Some EINVAL \<and> acts = [])
    \<and> (\<forall>a. ao = Some a \<longrightarrow> 4096 \<le> n \<and> mapping = Some (base a) \<and> total a = n \<and> flags a = fl
         \<and> held (acts @ chaos_arena_destroy ao) = 0
         \<and> (unat (base a) + unat n \<le> 2 ^ 48 \<longrightarrow> arena_rep a []))"
  using assms
  by (auto simp: chaos_arena_create_def chaos_arena_destroy_def held_def arena_rep_def not_less
      split: if_splits option.splits)

theorem chaos_arena_create_outcome_witness:
  "\<exists>a. fst (chaos_arena_create 65536 1 True (Some 0x10000)) = Some a \<and> arena_rep a []"
proof -
  let ?c = "chaos_arena_create 65536 1 True (Some 0x10000)"
  obtain ao e acts where c: "?c = (ao, e, acts)" by (cases ?c)
  then obtain a where a: "ao = Some a" "base a = 0x10000"
    by (auto simp: chaos_arena_create_def)
  from chaos_arena_create_outcome [OF c] a c show ?thesis by auto
qed

end
