(* ===== verification/Scen_Memory.thy ===== *)
theory Scen_Memory
  imports Script Arena
begin

text \<open>
  The memory scenarios of \<open>src/scenarios/memory\<close>, over the arena of \<open>Arena\<close>. A run is a
  script, or \<open>None\<close> where the code would touch memory outside the arena. \<open>calloc_ok\<close> and
  \<open>mapping\<close> are the answers of the kernel to \<open>chaos_arena_create\<close>. The properties show that
  the runs produce the lines of the golden files wherever the arena is mapped. The call of
  \<open>chaos_arena_destroy\<close> that ends each run gives the mapping back and emits nothing; it is not
  part of a script.
\<close>

definition ARENA_64K :: u64 where "ARENA_64K = 64 * 1024"

section \<open>double_free.c\<close>

definition df_run :: "bool \<Rightarrow> u64 option \<Rightarrow> run_result" where
  "df_run calloc_ok mapping =
     (let (a, e, acts) = chaos_arena_create ARENA_64K CHAOS_ARENA_REDZONES calloc_ok mapping
      in if a = None then Some ([ev_fault ''arena create failed''], Returns 1)
         else do {
           (p, a) \<leftarrow> chaos_arena_alloc a 128;
           (r1, a) \<leftarrow> chaos_arena_free a p;
           (r2, a) \<leftarrow> chaos_arena_free a p;
           Some
             ([ev_phase ''alloc 128 bytes'',
               ev_log (''alloc returned '' @ show_ptr p),
               ev_phase ''first free (legitimate)'',
               ev_log (''first free: rc='' @ show_int r1 @ ''  (0 = ok)''),
               ev_phase ''second free of the SAME pointer'',
               ev_log (''second free: rc='' @ show_int r2 @ ''  (-1 = arena detected double-free)''),
               ev_expect ''double_free_caught'' 1,
               ev_actual ''double_free_caught'' (if r2 = -1 then 1 else 0)]
              @ (if r2 = -1
                 then [ev_fault ''double-free detected'',
                       ev_log ''with libc malloc this would corrupt the freelist; the next'',
                       ev_log ''alloc could return a pointer someone else still uses.'']
                 else []),
              Returns 0)
         })"

section \<open>arena_corrupt.c\<close>

text \<open>The dash in the second phase is the UTF-8 encoding of an em dash.\<close>

definition ac_run :: "bool \<Rightarrow> u64 option \<Rightarrow> run_result" where
  "ac_run calloc_ok mapping =
     (let (a, e, acts) = chaos_arena_create ARENA_64K CHAOS_ARENA_REDZONES calloc_ok mapping
      in if a = None then Some ([ev_fault ''arena create failed''], Returns 1)
         else do {
           (p, a) \<leftarrow> chaos_arena_alloc a 32;
           a \<leftarrow> memset_at (the a) p (of_char CHR ''X'') 64;
           corrupted \<leftarrow> chaos_arena_check (Some a);
           Some
             ([ev_phase ''alloc 32 bytes (with 16B redzones front & back)'',
               ev_phase (''write 64 bytes '' @ [CHR 0xE2, CHR 0x80, CHR 0x94]
                  @ '' that'' @ [CHR 0x27] @ ''s 32 bytes off the end''),
               ev_phase ''scan arena for redzone corruption'',
               ev_expect ''redzones_corrupt'' 1,
               ev_actual ''redzones_corrupt'' (of_int corrupted)]
              @ (if corrupted > 0
                 then [ev_fault ''out-of-bounds write detected by redzone scan'',
                       ev_log ''without redzones, this write would silently corrupt the next allocation.'',
                       ev_log ''the bug would manifest as a crash or wrong value far from the cause.'']
                 else [ev_log ''(unexpected) redzones still intact'']),
              Returns 0)
         })"

section \<open>uaf_callback.c\<close>

text \<open>
  \<open>closure_t\<close> is 40 bytes: \<open>secret\<close> at 0, \<open>refcount\<close> at 4, \<open>name\<close> at 8. \<open>load_str\<close>
  reads a string of at most \<open>n\<close> bytes.
\<close>

fun load_str :: "chaos_arena \<Rightarrow> u64 \<Rightarrow> nat \<Rightarrow> u8 list option" where
  "load_str a p 0 = Some []"
| "load_str a p (Suc n) =
     (case get8 a p of
        None \<Rightarrow> None
      | Some b \<Rightarrow> if b = 0 then Some [] else map_option (Cons b) (load_str a (p + 1) n))"

text \<open>A log line with raw bytes of memory in its middle.\<close>

definition closure_line :: "string \<Rightarrow> u32 \<Rightarrow> u32 \<Rightarrow> u8 list \<Rightarrow> pg_event_t" where
  "closure_line prefix secret refcount name =
     log_event (bytes (prefix @ ''secret=0x'' @ show_04x secret @ '' refcount='' @ show_int (sint refcount)
       @ '' name='' @ [CHR 0x22]) @ name @ [0x22])"

definition uc_run :: "bool \<Rightarrow> u64 option \<Rightarrow> run_result" where
  "uc_run calloc_ok mapping =
     (let (a, e, acts) = chaos_arena_create ARENA_64K CHAOS_ARENA_REDZONES calloc_ok mapping
      in if a = None then Some ([ev_fault ''arena create failed''], Returns 1)
         else do {
           (c, a) \<leftarrow> chaos_arena_alloc a 40;
           a \<leftarrow> put32 (the a) c 0xCAFE;
           a \<leftarrow> put32 a (c + 4) 1;
           a \<leftarrow> put_bytes a (c + 8) (bytes ''callback-state'' @ [0]);
           s1 \<leftarrow> get32 a c;
           r1 \<leftarrow> get32 a (c + 4);
           n1 \<leftarrow> load_str a (c + 8) 32;
           (rc, a) \<leftarrow> chaos_arena_free (Some a) c;
           s2 \<leftarrow> get32 (the a) c;
           r2 \<leftarrow> get32 (the a) (c + 4);
           n2 \<leftarrow> load_str (the a) (c + 8) 16;
           Some
             ([ev_phase ''alloc closure'',
               closure_line ''before free: '' s1 r1 n1,
               ev_expect ''secret'' 0xCAFE,
               ev_phase ''free closure (other code still holds the pointer)'',
               ev_phase ''use after free -- read the dangling pointer'',
               closure_line ''after free:  '' (s2 AND 0xFFFF) r2 n2,
               ev_actual ''secret'' (ucast (s2 AND 0xFFFF)),
               ev_log ''the value silently changed; if `name` were the only valid string in a logger,'',
               ev_log (''you'' @ [CHR 0x27] @ ''d be writing 0xDE garbage to disk and never know.'')],
              Returns 0)
         })"

section \<open>crash_null_deref.c\<close>

definition cn_run :: run_result where
  "cn_run =
     Some
       ([ev_phase ''about to dereference NULL'',
         ev_log (''the runner'' @ [CHR 0x27] @ ''s signal handler should catch SIGSEGV,''),
         ev_log (''emit PG_EV_FAULT('' @ [CHR 0x22] @ ''child crashed: SIGSEGV'' @ [CHR 0x22] @ ''), and re-raise.''),
         ev_log ''the parent TUI must survive.''],
        DiesOf SIGSEGV)"

section \<open>The descriptors\<close>

text \<open>
  The four \<open>scen\<close> records. \<open>run\<close> takes the answers of the kernel as arguments.
\<close>

definition double_free_scen :: "bool \<Rightarrow> u64 option \<Rightarrow> unit pg_scenario_t" where
  "double_free_scen calloc_ok mapping =
    \<lparr>sc_id = ''double_free'',
      sc_title = ''Double-free detected'',
      sc_one_liner = (''free(p); free(p) '' @ [CHR 0xE2, CHR 0x80, CHR 0x94] @ '' arena catches it''),
      sc_description = ''Frees the same pointer twice; the arena's per-block magic catches the second free.'',
      sc_expected = ''second free returns -1; PG_EV_FAULT emitted'',
      sc_lesson = Some (join_lines
       [''Why this corrupts: most production allocators don't check magic on'',
        ''free. The second free corrupts the freelist; the next alloc may'',
        ''return a pointer that someone else still uses. Crashes happen'',
        ''later, far from the cause -- the worst kind of bug to debug.'',
        [],
        ''Fixes:'',
        ''  - Set the pointer to NULL after free. free(NULL) is a no-op, so'',
        ''    a second 'free' is harmless.'',
        ''  - Use a smart-pointer / unique-ownership pattern (each object has'',
        ''    one owner who frees it).'',
        ''  - AddressSanitizer catches double-free in dev/CI.'']),
      sc_category = PG_CAT_MEMORY,
      sc_init = None,
      sc_run = (\<lambda>st. play_run (df_run calloc_ok mapping)),
      sc_teardown = None,
      sc_explain = None\<rparr>"

definition arena_corrupt_scen :: "bool \<Rightarrow> u64 option \<Rightarrow> unit pg_scenario_t" where
  "arena_corrupt_scen calloc_ok mapping =
    \<lparr>sc_id = ''arena_corrupt'',
      sc_title = ''OOB write: redzone caught'',
      sc_one_liner = ''write 64B into a 32B alloc; redzone catches it'',
      sc_description = ''A classic buffer overflow inside the chaos arena. Redzones detect it; in production this would silently trash adjacent memory.'',
      sc_expected = ''redzones_corrupt = 1; PG_EV_FAULT emitted'',
      sc_lesson = Some (join_lines
       [''Why this is silent without instrumentation: the OOB bytes land in'',
        (''whatever's allocated next '' @ [CHR 0xE2, CHR 0x80, CHR 0x94] @ '' another struct, another buffer. That''),
        ''code reads corrupted data later. Crashes happen far from the bug.'',
        [],
        ''Fixes:'',
        ''  - Use AddressSanitizer (-fsanitize=address) in dev/CI; it adds'',
        ''    real-time redzones around every malloc.'',
        ''  - Use bounded APIs (snprintf, strlcpy, memcpy_s) instead of'',
        ''    strcpy/sprintf.'',
        ''  - Validate size BEFORE writing.'']),
      sc_category = PG_CAT_MEMORY,
      sc_init = None,
      sc_run = (\<lambda>st. play_run (ac_run calloc_ok mapping)),
      sc_teardown = None,
      sc_explain = None\<rparr>"

definition uaf_callback_scen :: "bool \<Rightarrow> u64 option \<Rightarrow> unit pg_scenario_t" where
  "uaf_callback_scen calloc_ok mapping =
    \<lparr>sc_id = ''uaf_callback'',
      sc_title = ''UAF: dangling closure'',
      sc_one_liner = (''alloc, free, then read '' @ [CHR 0xE2, CHR 0x80, CHR 0x94] @ '' see poison bytes''),
      sc_description = ''Allocates a struct, frees it, then reads the dangling pointer. Arena poisons freed memory to make UAF visible.'',
      sc_expected = ''post-free read returns 0xDEDE garbage instead of 0xCAFE'',
      sc_lesson = Some (join_lines
       [''Why this is dangerous: a freed pointer still holds an address that'',
        ''looks valid. Reads return whatever bytes happen to be there now --'',
        ''often poison (here 0xDE) or, in production, data from a later'',
        ''allocation that got the same memory. The bug is invisible until'',
        ''something downstream uses the corrupted value.'',
        [],
        ''Fixes:'',
        ''  - Set the pointer to NULL right after free. Subsequent uses crash'',
        ''    loudly instead of returning garbage.'',
        ''  - Use refcounting / shared ownership for objects with multiple'',
        ''    holders.'',
        ''  - AddressSanitizer (ASan) catches UAF reliably in dev/CI:'',
        ''      cmake -B build-asan -DCMAKE_BUILD_TYPE=Asan'']),
      sc_category = PG_CAT_MEMORY,
      sc_init = None,
      sc_run = (\<lambda>st. play_run (uc_run calloc_ok mapping)),
      sc_teardown = None,
      sc_explain = None\<rparr>"

definition crash_null_deref_scen :: " unit pg_scenario_t" where
  "crash_null_deref_scen =
    \<lparr>sc_id = ''crash_null_deref'',
      sc_title = ''Crash: NULL deref (containment proof)'',
      sc_one_liner = (''writes to *NULL '' @ [CHR 0xE2, CHR 0x80, CHR 0x94] @ '' should not take down the TUI''),
      sc_description = ''Deliberately segfaults to prove the fork-per-scenario isolation works.'',
      sc_expected = ''PG_EV_FAULT(SIGSEGV); child exits via signal; parent unaffected'',
      sc_lesson = Some (join_lines
       [''This scenario exists to PROVE the runner contains crashes. The'',
        ''child segfaults; the runner's signal handler emits a fault event'',
        ''then re-raises. The default handler kills the child. The parent'',
        ''TUI keeps running and reaps the abnormal exit.'',
        [],
        ''Real NULL derefs in C come from:'',
        ''  - forgetting to check return values (malloc, fopen, getenv)'',
        ''  - stale pointers after a struct was reallocated (realloc moves)'',
        ''  - off-by-one in an array of pointers'',
        ''  - aliased pointers where one path frees and another reads'']),
      sc_category = PG_CAT_MEMORY,
      sc_init = None,
      sc_run = (\<lambda>st. play_run (cn_run)),
      sc_teardown = None,
      sc_explain = None\<rparr>"

section \<open>The fresh arena\<close>

text \<open>Where the kernel may map the arena: not at 0, and inside the address space.\<close>

definition mappable :: "u64 \<Rightarrow> bool" where
  "mappable m \<longleftrightarrow> m \<noteq> 0 \<and> unat m + 65536 \<le> 2 ^ 48"

definition arena_64k :: "u64 \<Rightarrow> chaos_arena" where
  "arena_64k m = \<lparr>base = m, total = 65536, used = 0, flags = 1, mem = (\<lambda>_. 0)\<rparr>"

lemma create_64k: "chaos_arena_create ARENA_64K CHAOS_ARENA_REDZONES True (Some m) =
    (Some (arena_64k m), None, [SysMalloc, SysMmap 65536])"
  by (simp add: chaos_arena_create_def ARENA_64K_def CHAOS_ARENA_REDZONES_def arena_64k_def)

lemma arena_64k_rep: "mappable m \<Longrightarrow> arena_rep (arena_64k m) []"
  by (simp add: arena_rep_def arena_64k_def mappable_def)

lemma arena_64k_redzoned: "redzoned (arena_64k m)"
  by (simp add: redzoned_def arena_64k_def CHAOS_ARENA_REDZONES_def)

text \<open>The first block of the fresh arena.\<close>

definition first_block :: "u64 \<Rightarrow> nat \<Rightarrow> chaos_arena" where
  "first_block m n = (arena_64k m)\<lparr>used := of_nat (blk_len n), mem := alloc_mem True (\<lambda>_. 0) 0 n\<rparr>"

lemma alloc_first:
  fixes n :: u64
  assumes "mappable m" and "unat n + 64 \<le> 65536"
  shows "arena_alloc (arena_64k m) n = Some (m + 24, first_block m (unat n))"
    and "arena_rep (first_block m (unat n)) [\<lparr>bsize = unat n, blive = True\<rparr>]"
    and "bad_zones (mem (first_block m (unat n))) 0 [\<lparr>bsize = unat n, blive = True\<rparr>] = 0"
proof -
  have small: "unat n < 2 ^ 32" using assms(2) by simp
  have room: "blk_len (unat n) \<le> unat (total (arena_64k m))"
    using assms(2) pad8_bounds(1) [of "unat n"] by (simp add: blk_len_def arena_64k_def pad8_def)
  show "arena_alloc (arena_64k m) n = Some (m + 24, first_block m (unat n))"
    using arena_rep_alloc_eq [OF arena_64k_rep [OF assms(1)] small] room arena_64k_redzoned [of m]
    by (simp add: user_ptr_def first_block_def blks_len_def) (simp add: arena_64k_def)
  show "arena_rep (first_block m (unat n)) [\<lparr>bsize = unat n, blive = True\<rparr>]"
    using arena_rep_alloc [OF arena_64k_rep [OF assms(1)] small] room arena_64k_redzoned [of m]
    by (simp add: first_block_def blks_len_def) (simp add: arena_64k_def)
  show "bad_zones (mem (first_block m (unat n))) 0 [\<lparr>bsize = unat n, blive = True\<rparr>] = 0"
    using bad_zones_alloc [of "\<lambda>_. 0" 0 "[]" "unat n" True] by (simp add: first_block_def blks_len_def)
qed

lemma user_ptr_first: "m + 24 = user_ptr (first_block m n) []"
  by (simp add: user_ptr_def blks_len_def first_block_def arena_64k_def)

lemma mappable_user: "mappable m \<Longrightarrow> m + 24 \<noteq> 0"
proof
  assume "mappable m" "m + 24 = 0"
  have "unat (m + 24) = unat m + 24"
    using \<open>mappable m\<close> by (simp add: mappable_def unat_word_ariths)
  with \<open>m + 24 = 0\<close> show False by simp
qed

lemma free_first:
  fixes n :: u64
  assumes "mappable m" and "unat n + 64 \<le> 65536"
  shows "chaos_arena_free (Some (first_block m (unat n))) (m + 24) =
    Some (0, Some ((first_block m (unat n))\<lparr>mem := free_mem (mem (first_block m (unat n))) 0 (unat n)\<rparr>))"
    (is ?first)
    and "chaos_arena_free (Some ((first_block m (unat n))\<lparr>mem := free_mem (mem (first_block m (unat n))) 0 (unat n)\<rparr>))
        (m + 24) =
      Some (-1, Some ((first_block m (unat n))\<lparr>mem := free_mem (mem (first_block m (unat n))) 0 (unat n)\<rparr>))"
    (is ?second)
proof -
  let ?b = "\<lparr>bsize = unat n, blive = True\<rparr>" and ?a = "first_block m (unat n)"
  have rep: "arena_rep ?a ([] @ ?b # [])" using alloc_first(2) [OF assms] by simp
  from arena_free_block [OF rep] mappable_user [OF assms(1)] show ?first
    by (simp add: chaos_arena_free_def blks_len_def flip: user_ptr_first)
  have rep': "arena_rep (?a\<lparr>mem := free_mem (mem ?a) 0 (unat n)\<rparr>) ([] @ ?b\<lparr>blive := False\<rparr> # [])"
    using arena_rep_free [OF rep] by (simp add: blks_len_def)
  from arena_free_block [OF rep'] mappable_user [OF assms(1)] show ?second
    by (simp add: chaos_arena_free_def flip: user_ptr_first)
qed

text \<open>Access through pointers into the first block.\<close>

abbreviation with_mem :: "u64 \<Rightarrow> nat \<Rightarrow> (nat \<Rightarrow> u8) \<Rightarrow> chaos_arena" where
  "with_mem m n f \<equiv> (first_block m n)\<lparr>mem := f\<rparr>"

lemma first_block_mem: "first_block m n = with_mem m n (mem (first_block m n))"
  by simp

lemma off_first: "off_of (with_mem m n f) (m + w) = unat w"
  by (simp add: off_of_def first_block_def arena_64k_def)

lemma total_first: "total (with_mem m n f) = 65536"
  by (simp add: first_block_def arena_64k_def)

lemma put_first:
  "bs \<noteq> [] \<Longrightarrow> unat w + length bs \<le> 65536 \<Longrightarrow>
    put_bytes (with_mem m n f) (m + w) bs = Some (with_mem m n (overlay f (unat w) bs))"
  unfolding put_bytes_def off_first total_first by simp

lemma get32_first: "unat w + 4 \<le> 65536 \<Longrightarrow> get32 (with_mem m n f) (m + w) = Some (word_at f (unat w))"
  by (simp only: get32_off off_first total_first) simp

lemma get8_first: "unat w < 65536 \<Longrightarrow> get8 (with_mem m n f) (m + w) = Some (f (unat w))"
  unfolding get8_def off_first total_first by simp

lemma load_str_first:
  "unat w + n \<le> 65536 \<Longrightarrow> load_str (with_mem m k f) (m + w) n =
    Some (takeWhile (\<lambda>b. b \<noteq> 0) (map (\<lambda>i. f (unat w + i)) [0..<n]))"
proof (induction n arbitrary: w)
  case 0
  then show ?case by simp
next
  case (Suc n)
  have "unat (w + 1) = Suc (unat w)" using Suc.prems by (simp add: unat_word_ariths)
  with Suc.IH [of "w + 1"] Suc.prems
  have "load_str (with_mem m k f) (m + w + 1) n =
      Some (takeWhile (\<lambda>b. b \<noteq> 0) (map (\<lambda>i. f (Suc (unat w + i))) [0..<n]))"
    by (simp add: add.assoc)
  moreover have "[0..<Suc n] = 0 # map Suc [0..<n]" by (simp only: map_Suc_upt upt_conv_Cons zero_less_Suc)
  ultimately show ?case using Suc.prems by (simp add: get8_first comp_def del: upt_Suc)
qed

lemma sole_block_put:
  assumes "arena_rep (with_mem m n f) [b]"
  shows "arena_rep (with_mem m n (overlay f (24 + k) data)) [b]"
proof -
  have "arena_rep (with_mem m n f) ([] @ b # [])" using assms by simp
  from arena_rep_put [OF this, of k data] show ?thesis by (simp add: blks_len_def)
qed

section \<open>Properties\<close>

definition double_free_golden :: "u64 \<Rightarrow> (string \<times> u8 list option \<times> int \<times> u8 list option) list" where
  "double_free_golden m =
      [line ''phase'' [] 0 ''alloc 128 bytes'',
       line ''log'' [] 0 (''alloc returned '' @ show_ptr (m + 24)),
       line ''phase'' [] 0 ''first free (legitimate)'',
       line ''log'' [] 0 ''first free: rc=0  (0 = ok)'',
       line ''phase'' [] 0 ''second free of the SAME pointer'',
       line ''log'' [] 0 ''second free: rc=-1  (-1 = arena detected double-free)'',
       line ''expect'' ''double_free_caught'' 1 [],
       line ''actual'' ''double_free_caught'' 1 [],
       line ''sut_fault'' [] 0 ''double-free detected'',
       line ''log'' [] 0 ''with libc malloc this would corrupt the freelist; the next'',
       line ''log'' [] 0 ''alloc could return a pointer someone else still uses.'']"

lemma length_double_free_golden: "length (double_free_golden m) = 11"
  by (simp add: double_free_golden_def)

lemma df_run_golden:
  assumes "mappable m"
  shows "\<exists>evs. df_run True (Some m) = Some (evs, Returns 0)
    \<and> map golden evs = double_free_golden m \<and> list_all event_wf evs"
proof -
  have al: "chaos_arena_alloc (Some (arena_64k m)) 128 = Some (m + 24, Some (first_block m 128))"
    using alloc_first(1) [OF assms, of 128] by (simp add: chaos_arena_alloc_def)
  note fr = free_first [OF assms, of 128, simplified]
  have nums: "show_int 0 = ''0''" "show_int (-1) = ''-1''"
    by (simp_all add: show_int_def show_nat_def show_base.simps digit_char_def char_of_def bit_Suc_0_iff)
  show ?thesis
    using show_ptr_plain [of "m + 24"]
    by (simp add: df_run_def create_64k al fr nums golden_events plain_def double_free_golden_def)
qed

lemma ac_overrun:
  assumes "mappable m"
  defines "f \<equiv> overlay (mem (first_block m 32)) 24 (replicate 64 88)"
  shows "memset_at (first_block m 32) (m + 24) 88 64 = Some (with_mem m 32 f)"
    and "chaos_arena_check (Some (with_mem m 32 f)) = Some 1"
proof -
  have bl: "arena_rep (first_block m 32) [\<lparr>bsize = 32, blive = True\<rparr>]"
    using alloc_first(2) [OF assms(1), of 32] by simp
  show "memset_at (first_block m 32) (m + 24) 88 64 = Some (with_mem m 32 f)"
    using put_first [where bs = "replicate 64 88" and w = 24 and m = m and n = 32
        and f = "mem (first_block m 32)"]
    by (simp add: memset_at_def f_def)
  have "arena_rep (with_mem m 32 f) [\<lparr>bsize = 32, blive = True\<rparr>]"
    using sole_block_put [where m = m and n = 32 and f = "mem (first_block m 32)" and k = 0] bl by (simp add: f_def)
  moreover have "redzoned (with_mem m 32 f)"
    using arena_64k_redzoned [of m] by (simp add: redzoned_def first_block_def)
  moreover have "bad_zones f 0 [\<lparr>bsize = 32, blive = True\<rparr>] = 1"
  proof -
    have "\<not> zone_bad f 8"
      using alloc_mem_zones(1) [of "\<lambda>_. 0" 0 32]
      by (simp add: zone_bad_def f_def overlay_def first_block_def)
    moreover have "zone_bad f 56"
      unfolding zone_bad_def f_def overlay_def by (rule exI [of _ 0]) (simp add: REDZONE_BYTE_def)
    ultimately show ?thesis by (simp add: pad8_def)
  qed
  ultimately show "chaos_arena_check (Some (with_mem m 32 f)) = Some 1"
    using arena_check_counts [of "with_mem m 32 f"] by (simp add: chaos_arena_check_def)
qed

text \<open>
  the overrun is found. Wherever the arena is mapped, writing 64 bytes into a block of 32
  breaks exactly one redzone, the scan reports it, and the scenario emits the lines of its
  golden file.
\<close>

theorem arena_corrupt_matches_golden:
  assumes "mappable m"
  shows "\<exists>evs. ac_run True (Some m) = Some (evs, Returns 0)
    \<and> map golden evs =
      [line ''phase'' [] 0 ''alloc 32 bytes (with 16B redzones front & back)'',
       line ''phase'' [] 0 (''write 64 bytes '' @ [CHR 0xE2, CHR 0x80, CHR 0x94] @ '' that'' @ [CHR 0x27] @ ''s 32 bytes off the end''),
       line ''phase'' [] 0 ''scan arena for redzone corruption'',
       line ''expect'' ''redzones_corrupt'' 1 [],
       line ''actual'' ''redzones_corrupt'' 1 [],
       line ''sut_fault'' [] 0 ''out-of-bounds write detected by redzone scan'',
       line ''log'' [] 0 ''without redzones, this write would silently corrupt the next allocation.'',
       line ''log'' [] 0 ''the bug would manifest as a crash or wrong value far from the cause.'']"
proof -
  have al: "chaos_arena_alloc (Some (arena_64k m)) 32 = Some (m + 24, Some (first_block m 32))"
    using alloc_first(1) [OF assms, of 32] by (simp add: chaos_arena_alloc_def)
  show ?thesis
    by (simp add: ac_run_def create_64k al ac_overrun [OF assms] golden_events plain_def)
qed

theorem arena_corrupt_matches_golden_witness:
  "\<exists>evs. ac_run True (Some 0x10000) = Some (evs, Returns 0) \<and> length evs = 8"
proof -
  have "mappable 0x10000" by (simp add: mappable_def)
  from arena_corrupt_matches_golden [OF this] obtain evs where
    "ac_run True (Some 0x10000) = Some (evs, Returns 0)" "length (map golden evs) = 8"
    by fastforce
  then show ?thesis by auto
qed

text \<open>The closure in memory, and the memory after its release.\<close>

definition closure_mem :: "u64 \<Rightarrow> nat \<Rightarrow> u8" where
  "closure_mem m =
     overlay (overlay (overlay (mem (first_block m 40)) 24 (le_bytes 4 (unat (0xCAFE :: u32))))
       28 (le_bytes 4 (unat (1 :: u32)))) 32 (bytes ''callback-state'' @ [0])"

lemma closure_rep:
  assumes "mappable m"
  shows "arena_rep (with_mem m 40 (closure_mem m)) [\<lparr>bsize = 40, blive = True\<rparr>]"
proof -
  have "arena_rep (with_mem m 40 (mem (first_block m 40))) [\<lparr>bsize = 40, blive = True\<rparr>]"
    using alloc_first(2) [OF assms, of 40] by simp
  from sole_block_put [OF this, of 0] have
    "arena_rep (with_mem m 40 (overlay (mem (first_block m 40)) 24 (le_bytes 4 (unat (0xCAFE :: u32)))))
      [\<lparr>bsize = 40, blive = True\<rparr>]" by simp
  from sole_block_put [OF this, of 4] have
    "arena_rep (with_mem m 40 (overlay (overlay (mem (first_block m 40)) 24 (le_bytes 4 (unat (0xCAFE :: u32))))
       28 (le_bytes 4 (unat (1 :: u32))))) [\<lparr>bsize = 40, blive = True\<rparr>]" by simp
  from sole_block_put [OF this, of 8] show ?thesis by (simp add: closure_mem_def)
qed

lemma closure_writes:
  "put32 (first_block m 40) (m + 24) 0xCAFE \<bind> (\<lambda>a. put32 a (m + 28) 1
      \<bind> (\<lambda>a. put_bytes a (m + 32) (bytes ''callback-state'' @ [0])))
    = Some (with_mem m 40 (closure_mem m))"
proof -
  have nonempty: "le_bytes 4 k \<noteq> []" for k by (metis length_le_bytes list.size(3) zero_neq_numeral)
  show ?thesis
    unfolding put32_def
    by (subst first_block_mem, subst put_first)
      (simp_all add: nonempty put_first closure_mem_def bytes_def)
qed

lemma closure_reads:
  "get32 (with_mem m 40 (closure_mem m)) (m + 24) = Some 0xCAFE"
  "get32 (with_mem m 40 (closure_mem m)) (m + 28) = Some 1"
  "load_str (with_mem m 40 (closure_mem m)) (m + 32) 32 = Some (bytes ''callback-state'')"
proof -
  have words: "word_at (overlay (overlay (overlay g 24 (le_bytes 4 (unat v))) 28 (le_bytes 4 (unat w))) 32 x) 24 = v"
    "word_at (overlay (overlay (overlay g 24 (le_bytes 4 (unat v))) 28 (le_bytes 4 (unat w))) 32 x) 28 = w"
    for g v w x
    by (simp_all add: word_at_overlay_other word_at_le_bytes)
  have "word_at (closure_mem m) 24 = 0xCAFE" "word_at (closure_mem m) 28 = 1"
    unfolding closure_mem_def by (rule words)+
  then show "get32 (with_mem m 40 (closure_mem m)) (m + 24) = Some 0xCAFE"
    "get32 (with_mem m 40 (closure_mem m)) (m + 28) = Some 1"
    by (simp_all add: get32_first)
  show "load_str (with_mem m 40 (closure_mem m)) (m + 32) 32 = Some (bytes ''callback-state'')"
    by (simp add: load_str_first closure_mem_def overlay_def bytes_def upt_rec)
qed

lemma closure_dangling:
  defines "f \<equiv> \<lambda>m. free_mem (closure_mem m) 0 40"
  shows "mappable m \<Longrightarrow>
      chaos_arena_free (Some (with_mem m 40 (closure_mem m))) (m + 24) = Some (0, Some (with_mem m 40 (f m)))"
    and "get32 (with_mem m 40 (f m)) (m + 24) = Some 0xDEDEDEDE"
    and "get32 (with_mem m 40 (f m)) (m + 28) = Some 0xDEDEDEDE"
    and "load_str (with_mem m 40 (f m)) (m + 32) 16 = Some (replicate 16 0xDE)"
proof -
  assume m: "mappable m"
  have rep: "arena_rep (with_mem m 40 (closure_mem m)) ([] @ \<lparr>bsize = 40, blive = True\<rparr> # [])"
    using closure_rep [OF m] by simp
  from arena_free_block [OF rep] mappable_user [OF m]
  show "chaos_arena_free (Some (with_mem m 40 (closure_mem m))) (m + 24) = Some (0, Some (with_mem m 40 (f m)))"
    by (simp add: chaos_arena_free_def blks_len_def f_def flip: user_ptr_first)
next
  have p: "f m (24 + k) = 0xDE" if "k < 40" for k
    using that free_mem_poison [of 0 "24 + k" 40 "closure_mem m"] by (simp add: f_def POISON_BYTE_def)
  have w: "word_at (f m) 24 = 0xDEDEDEDE" "word_at (f m) 28 = 0xDEDEDEDE"
    using p [of 0] p [of 1] p [of 2] p [of 3] p [of 4] p [of 5] p [of 6] p [of 7]
    by (simp_all add: word_at_def)
  then show "get32 (with_mem m 40 (f m)) (m + 24) = Some 0xDEDEDEDE"
    "get32 (with_mem m 40 (f m)) (m + 28) = Some 0xDEDEDEDE"
    by (simp_all add: get32_first)
  have "map (\<lambda>i. f m (32 + i)) [0..<16] = replicate 16 0xDE"
    using p [of "8 + i" for i] by (auto simp: list_eq_iff_nth_eq)
  then show "load_str (with_mem m 40 (f m)) (m + 32) 16 = Some (replicate 16 0xDE)"
    by (simp add: load_str_first)
qed

text \<open>
  the dangling read is made visible. Wherever the arena is mapped, the closure holds its
  values before the release; after it the secret, the counter and the name read as poison, the
  secret reported differs from the expected one, and the lines are those of the golden file.
\<close>

theorem uaf_callback_matches_golden:
  assumes "mappable m"
  shows "\<exists>evs. uc_run True (Some m) = Some (evs, Returns 0)
    \<and> map golden evs =
      [line ''phase'' [] 0 ''alloc closure'',
       line ''log'' [] 0 (''before free: secret=0xcafe refcount=1 name='' @ [CHR 0x22] @ ''callback-state'' @ [CHR 0x22]),
       line ''expect'' ''secret'' 51966 [],
       line ''phase'' [] 0 ''free closure (other code still holds the pointer)'',
       line ''phase'' [] 0 ''use after free -- read the dangling pointer'',
       line ''log'' [] 0 (''after free:  secret=0xdede refcount=-555819298 name='' @ [CHR 0x22]
         @ replicate 16 (CHR 0xDE) @ [CHR 0x22]),
       line ''actual'' ''secret'' 57054 [],
       line ''log'' [] 0 ''the value silently changed; if `name` were the only valid string in a logger,'',
       line ''log'' [] 0 (''you'' @ [CHR 0x27] @ ''d be writing 0xDE garbage to disk and never know.'')]"
proof -
  have al: "chaos_arena_alloc (Some (arena_64k m)) 40 = Some (m + 24, Some (first_block m 40))"
    using alloc_first(1) [OF assms, of 40] by (simp add: chaos_arena_alloc_def)
  obtain a1 a2 where wr: "put32 (first_block m 40) (m + 24) 0xCAFE = Some a1"
      "put32 a1 (m + 28) 1 = Some a2"
      "put_bytes a2 (m + 32) (bytes ''callback-state'' @ [0]) = Some (with_mem m 40 (closure_mem m))"
    using closure_writes [of m] by (auto simp: bind_eq_Some_conv)
  have nums: "show_04x 0xCAFE = ''cafe''" "show_04x 0xDEDE = ''dede''" "show_int 1 = ''1''"
    "show_int (- 555819298) = ''-555819298''"
    by (simp_all add: show_04x_def show_int_def show_nat_def show_base.simps digit_char_def char_of_def
        bit_Suc_0_iff)
  have first: "golden (closure_line ''before free: '' 0xCAFE 1 (bytes ''callback-state'')) =
      line ''log'' [] 0 (''before free: secret=0xcafe refcount=1 name='' @ [CHR 0x22] @ ''callback-state'' @ [CHR 0x22])"
    by (simp add: closure_line_def golden_log_event line_def bytes_def nums)
  have second: "golden (closure_line ''after free:  '' 0xDEDE 0xDEDEDEDE (replicate 16 0xDE)) =
      line ''log'' [] 0 (''after free:  secret=0xdede refcount=-555819298 name='' @ [CHR 0x22]
         @ replicate 16 (CHR 0xDE) @ [CHR 0x22])"
    by (simp add: closure_line_def golden_log_event line_def bytes_def nums)
  have run: "uc_run True (Some m) =
    Some ([ev_phase ''alloc closure'',
           closure_line ''before free: '' 0xCAFE 1 (bytes ''callback-state''),
           ev_expect ''secret'' 0xCAFE,
           ev_phase ''free closure (other code still holds the pointer)'',
           ev_phase ''use after free -- read the dangling pointer'',
           closure_line ''after free:  '' 0xDEDE 0xDEDEDEDE (replicate 16 0xDE),
           ev_actual ''secret'' 0xDEDE,
           ev_log ''the value silently changed; if `name` were the only valid string in a logger,'',
           ev_log (''you'' @ [CHR 0x27] @ ''d be writing 0xDE garbage to disk and never know.'')], Returns 0)"
    by (simp add: uc_run_def create_64k al wr add.assoc closure_reads closure_dangling(1) [OF assms]
        closure_dangling(2-4))
  show ?thesis
    unfolding run by (rule exI, rule conjI, rule refl) (simp add: first second golden_events plain_def)
qed

theorem uaf_callback_matches_golden_witness:
  "\<exists>evs. uc_run True (Some 0x10000) = Some (evs, Returns 0) \<and> length evs = 9"
proof -
  have "mappable 0x10000" by (simp add: mappable_def)
  from uaf_callback_matches_golden [OF this] obtain evs where
    "uc_run True (Some 0x10000) = Some (evs, Returns 0)" "length (map golden evs) = 9"
    by fastforce
  then show ?thesis by auto
qed

text \<open>
  C27: the crash stays in the child. Over a pipe that takes whole records, running
  \<open>crash_null_deref\<close> ends the child with \<open>SIGSEGV\<close>, and the reader in the parent gets the
  four lines of the scenario, then one record of kind \<open>PG_EV_CHILD_CRASH\<close> that names the signal,
  then a clean end of the stream.
\<close>

theorem crash_null_deref_contained:
  assumes "connected wr c h ans 5" and "list_all (\<lambda>a. 256 \<le> gives a) (answers c)"
  shows "\<exists>c' got ans'. child_main crash_null_deref_scen seed rd wr env c = Some (c', WSignaled SIGSEGV)
    \<and> drain h (pipe_bytes c') ans = Some (got, 0, [], ans')
    \<and> map golden (butlast got) =
        [line ''phase'' [] 0 ''about to dereference NULL'',
         line ''log'' [] 0 (''the runner'' @ [CHR 0x27] @ ''s signal handler should catch SIGSEGV,''),
         line ''log'' [] 0 (''emit PG_EV_FAULT('' @ [CHR 0x22] @ ''child crashed: SIGSEGV'' @ [CHR 0x22] @ ''), and re-raise.''),
         line ''log'' [] 0 ''the parent TUI must survive.'']
    \<and> length got = 5 \<and> kind_of (ev_kind (last got)) = Some PG_EV_CHILD_CRASH
    \<and> cstr (ev_text (last got)) = Some (bytes ''child crashed: SIGSEGV'')"
proof -
  obtain evs where evs: "cn_run = Some (evs, DiesOf SIGSEGV)" "length evs = 4" "list_all event_wf evs"
      "map golden evs =
        [line ''phase'' [] 0 ''about to dereference NULL'',
         line ''log'' [] 0 (''the runner'' @ [CHR 0x27] @ ''s signal handler should catch SIGSEGV,''),
         line ''log'' [] 0 (''emit PG_EV_FAULT('' @ [CHR 0x22] @ ''child crashed: SIGSEGV'' @ [CHR 0x22] @ ''), and re-raise.''),
         line ''log'' [] 0 ''the parent TUI must survive.'']"
    by (simp add: cn_run_def golden_events plain_def)
  have d: "sc_init crash_null_deref_scen = None" "sc_run crash_null_deref_scen None = play_run cn_run"
    by (simp_all only: crash_null_deref_scen_def pg_scenario_t.select_convs)
  have "connected wr c h ans (length evs + 1)" using assms(1) evs(2) by simp
  moreover have "SIGSEGV \<in> set handled_signals" by (simp add: handled_signals_def)
  ultimately show ?thesis
    using script_crash_delivered [of crash_null_deref_scen evs SIGSEGV wr c h ans seed rd env] d evs assms(2)
    by (simp add: signal_name_def)
qed

theorem crash_null_deref_contained_witness:
  "\<exists>c' got ans'. child_main crash_null_deref_scen 42 3 4 None (demo_child (replicate 1280 (Moves 256)))
      = Some (c', WSignaled SIGSEGV)
    \<and> drain demo_handle (pipe_bytes c') (replicate 1281 (Moves 7)) = Some (got, 0, [], ans') \<and> length got = 5"
proof -
  have "connected 4 (demo_child (replicate 1280 (Moves 256))) demo_handle (replicate 1281 (Moves 7)) 5"
    by (simp add: connected_def demo_child_def demo_handle_def fair_to_def)
  moreover have "list_all (\<lambda>a. 256 \<le> gives a) (answers (demo_child (replicate 1280 (Moves 256))))"
    by (simp add: demo_child_def list_all_iff)
  ultimately show ?thesis
    using crash_null_deref_contained [of 4 "demo_child (replicate 1280 (Moves 256))" demo_handle
        "replicate 1281 (Moves 7)" 42 3 None] by blast
qed

text \<open>
  from the scenario to the parent. Wherever the arena is mapped, and whatever the kernel does
  to the transfers as long as none fails for good, running \<open>double_free\<close> exits with 0 and
  the reader gets the twelve records of the golden file, \<open>PG_EV_DONE\<close> last, and a clean end.
\<close>

theorem double_free_reaches_parent:
  assumes "mappable m" and "connected wr c h ans 12"
  shows "\<exists>c' got ans'. child_main (double_free_scen True (Some m)) seed rd wr env c = Some (c', WExited 0)
    \<and> drain h (pipe_bytes c') ans = Some (got, 0, [], ans')
    \<and> map golden (butlast got) = double_free_golden m
    \<and> length got = 12 \<and> kind_of (ev_kind (last got)) = Some PG_EV_DONE"
proof -
  obtain evs where evs: "df_run True (Some m) = Some (evs, Returns 0)"
      "map golden evs = double_free_golden m" "list_all event_wf evs"
    using df_run_golden [OF assms(1)] by blast
  from evs(2) have n: "length evs = 11" by (metis length_map length_double_free_golden)
  have d: "sc_init (double_free_scen True (Some m)) = None" "sc_teardown (double_free_scen True (Some m)) = None"
      "sc_run (double_free_scen True (Some m)) None = play_run (df_run True (Some m))"
    by (simp_all only: double_free_scen_def pg_scenario_t.select_convs)
  show ?thesis
    using script_delivered [of "double_free_scen True (Some m)" evs 0 wr c h ans seed rd env] d evs n assms(2)
    by simp
qed

theorem double_free_reaches_parent_witness:
  "\<exists>c' got ans'. child_main (double_free_scen True (Some 0x10000)) 42 3 4 None
        (demo_child (replicate 3072 (Moves 100))) = Some (c', WExited 0)
    \<and> drain demo_handle (pipe_bytes c') (replicate 3073 (Moves 7)) = Some (got, 0, [], ans') \<and> length got = 12"
proof -
  have conn: "connected 4 (demo_child (replicate 3072 (Moves 100))) demo_handle (replicate 3073 (Moves 7)) 12"
    by (simp add: connected_def demo_child_def demo_handle_def fair_to_def)
  have "mappable 0x10000" by (simp add: mappable_def)
  from double_free_reaches_parent [OF this conn] show ?thesis by blast
qed

end
