(* ===== verification/Chaos_Net.thy ===== *)
theory Chaos_Net
  imports Complex_Main "HOL-Library.Sublist" Posix Xoshiro
begin

text \<open>
  The lossy connection of \<open>src/chaos/chaos_net.c\<close>: two forwarding threads between four
  sockets. A forwarder is a function of what it reads (each chunk with the knobs in force when it
  came), of its generator, and of the answers of the kernel to its writes. A probability is an
  exact rational: \<open>rand_unit\<close> divides a 53-bit integer by \<open>2 ^ 53\<close>, which a double
  represents exactly. \<open>chaos_net_pair\<close> and \<open>chaos_net_close\<close> record the calls that take
  and release descriptors, memory and threads.
\<close>

section \<open>State\<close>

record chaos_net_knobs_t =
  loss_prob :: rat
  delay_min_ns :: u64
  delay_max_ns :: u64
  max_chunk_bytes :: int

definition no_knobs :: chaos_net_knobs_t where
  "no_knobs = \<lparr>loss_prob = 0, delay_min_ns = 0, delay_max_ns = 0, max_chunk_bytes = 0\<rparr>"

section \<open>The forwarder\<close>

definition rand_unit :: "pg_xosh_t \<Rightarrow> rat \<times> pg_xosh_t" where
  "rand_unit r =
     (let (x, r) = pg_xosh_next r;
          v = drop_bit 11 x
      in (of_nat (unat v) / 2 ^ 53, r))"

definition apply_delay :: "pg_xosh_t \<Rightarrow> u64 \<Rightarrow> u64 \<Rightarrow> sysact list \<times> pg_xosh_t" where
  "apply_delay rng min_ns max_ns =
     (let sp = (if max_ns > min_ns then max_ns - min_ns else 0);
          (x, rng) = (if sp \<noteq> 0 then (let (v, g) = pg_xosh_next rng in (v mod sp, g)) else (0, rng));
          d = min_ns + x
      in (if d = 0 then [] else [SysSleep (timespec_of_ns d)], rng))"

definition chunk_max :: "chaos_net_knobs_t \<Rightarrow> nat \<Rightarrow> nat" where
  "chunk_max k n = (if max_chunk_bytes k > 0 then nat (max_chunk_bytes k) else n)"

text \<open>How the inner loop ends: at the end of the buffer, at \<open>out\<close>, or waiting in a write.\<close>

datatype fwd_end = NextRead | GoOut | Stuck

record fwd =
  delivered :: "u8 list list"
  fwd_acts :: "sysact list"
  fwd_rng :: pg_xosh_t
  fwd_answers :: "answer list"

text \<open>The draw that decides about a chunk.\<close>

definition draw_loss :: "chaos_net_knobs_t \<Rightarrow> pg_xosh_t \<Rightarrow> bool \<times> pg_xosh_t" where
  "draw_loss k rng =
     (if loss_prob k > 0 then (let (u, rng) = rand_unit rng in (u < loss_prob k, rng)) else (False, rng))"

definition draw_delay :: "chaos_net_knobs_t \<Rightarrow> pg_xosh_t \<Rightarrow> sysact list \<times> pg_xosh_t" where
  "draw_delay k rng =
     (if delay_max_ns k > 0 then apply_delay rng (delay_min_ns k) (delay_max_ns k) else ([], rng))"

text \<open>
  The loop over one buffer, from offset \<open>off\<close>. The record collects the chunks written and the
  delays slept, in order.
\<close>

function chunk_loop :: "chaos_net_knobs_t \<Rightarrow> u8 list \<Rightarrow> nat \<Rightarrow> fwd \<Rightarrow> fwd \<times> fwd_end" where
  "chunk_loop k buf off s =
     (if off < length buf
      then
        (let this = min (length buf - off) (chunk_max k (length buf));
             (lost, rng) = draw_loss k (fwd_rng s);
             s = s\<lparr>fwd_rng := rng\<rparr>
         in if lost then chunk_loop k buf (off + this) s
            else
              (let (acts, rng) = draw_delay k (fwd_rng s);
                   s = s\<lparr>fwd_rng := rng, fwd_acts := fwd_acts s @ acts\<rparr>
               in case fwd_answers s of
                    [] \<Rightarrow> (s, Stuck)
                  | Fails e # ans \<Rightarrow> (s\<lparr>fwd_answers := ans\<rparr>, GoOut)
                  | Moves m # ans \<Rightarrow>
                      (let w = min m this;
                           s = s\<lparr>fwd_answers := ans\<rparr>
                       in if w = 0 then (s, GoOut)
                          else chunk_loop k buf (off + w)
                                 (s\<lparr>delivered := delivered s @ [take w (drop off buf)]\<rparr>))))
      else (s, NextRead))"
  by pat_completeness auto
termination
  by (relation "measure (\<lambda>(k, buf, off, s). length buf - off)") (auto simp: chunk_max_def)

declare chunk_loop.simps [simp del]

text \<open>
  The thread: every item is one successful \<open>read\<close> and the snapshot of the knobs taken after
  it; an empty item or the end of the list is \<open>n <= 0\<close>. \<open>None\<close> is a thread still waiting.
\<close>

fun read_loop :: "(chaos_net_knobs_t \<times> u8 list) list \<Rightarrow> fwd \<Rightarrow> fwd option" where
  "read_loop [] s = Some s"
| "read_loop ((k, buf) # later) s =
     (if buf = [] then Some s
      else (case chunk_loop k buf 0 s of
              (s, NextRead) \<Rightarrow> read_loop later s
            | (s, GoOut) \<Rightarrow> Some s
            | (s, Stuck) \<Rightarrow> None))"

definition forward_fn ::
    "int \<Rightarrow> (chaos_net_knobs_t \<times> u8 list) list \<Rightarrow> pg_xosh_t \<Rightarrow> answer list \<Rightarrow> fwd option"
where
  "forward_fn dst_fd reads rng ans =
     map_option (\<lambda>s. s\<lparr>fwd_acts := fwd_acts s @ [SysShutdown dst_fd]\<rparr>)
       (read_loop reads \<lparr>delivered = [], fwd_acts = [], fwd_rng = rng, fwd_answers = ans\<rparr>)"

section \<open>Making and closing a pair\<close>

record pair_internal =
  proxy_a :: int
  proxy_b :: int
  knobs :: chaos_net_knobs_t
  rng_a :: pg_xosh_t
  rng_b :: pg_xosh_t

record chaos_pair_t =
  fd_a :: int
  fd_b :: int
  internal :: "pair_internal option"

text \<open>
  \<open>sp1\<close> and \<open>sp2\<close> are the answers of \<open>socketpair\<close>, \<open>mem\<close> that of \<open>calloc\<close>, \<open>t1\<close> and
  \<open>t2\<close> those of \<open>pthread_create\<close>.
\<close>

definition close_all :: "int list \<Rightarrow> sysact list" where
  "close_all fds = map SysClose fds"

definition chaos_net_pair ::
    "bool \<Rightarrow> chaos_net_knobs_t option \<Rightarrow> u64 \<Rightarrow> (int \<times> int) option \<Rightarrow> (int \<times> int) option
      \<Rightarrow> bool \<Rightarrow> bool \<Rightarrow> bool \<Rightarrow> int \<times> errno option \<times> chaos_pair_t option \<times> sysact list"
where
  "chaos_net_pair has_out k seed sp1 sp2 mem t1 t2 =
     (if \<not> has_out then (-1, Some EINVAL, None, [])
      else case sp1 of
        None \<Rightarrow> (-1, None, None, [])
      | Some (u1, p1) \<Rightarrow>
        (case sp2 of
           None \<Rightarrow> (-1, None, None, [SysOpen u1, SysOpen p1] @ close_all [u1, p1])
         | Some (p2, u2) \<Rightarrow>
           (let opened = [SysOpen u1, SysOpen p1, SysOpen p2, SysOpen u2];
                all = close_all [u1, p1, p2, u2]
            in if \<not> mem then (-1, Some ENOMEM, None, opened @ all)
               else
                 (let I = \<lparr>proxy_a = p1, proxy_b = p2,
                           knobs = (case k of Some k \<Rightarrow> k | None \<Rightarrow> no_knobs),
                           rng_a = pg_xosh_seed (seed XOR 0xA1A1A1A1A1A1A1A1),
                           rng_b = pg_xosh_seed (seed XOR 0xB2B2B2B2B2B2B2B2)\<rparr>;
                      acts = opened @ [SysMalloc, SysMutexInit]
                  in if \<not> t1 then (-1, None, None, acts @ [SysFree] @ all)
                     else if \<not> t2 then
                       (-1, None, None,
                        acts @ [SysThreadCreate, SysShutdown p1, SysThreadJoin, SysFree] @ all)
                     else
                       (0, None, Some \<lparr>fd_a = u1, fd_b = u2, internal = Some I\<rparr>,
                        acts @ [SysThreadCreate, SysThreadCreate])))))"

definition chaos_net_set_knobs ::
    "chaos_pair_t option \<Rightarrow> chaos_net_knobs_t option \<Rightarrow> chaos_pair_t option" where
  "chaos_net_set_knobs p k =
     (case (p, k) of
        (Some pr, Some kn) \<Rightarrow>
          Some (pr\<lparr>internal := map_option (\<lambda>I. I\<lparr>knobs := kn\<rparr>) (internal pr)\<rparr>)
      | _ \<Rightarrow> p)"

definition chaos_net_close :: "chaos_pair_t option \<Rightarrow> chaos_pair_t option \<times> sysact list" where
  "chaos_net_close p =
     (case p of
        None \<Rightarrow> (None, [])
      | Some pr \<Rightarrow>
        (case internal pr of
           None \<Rightarrow> (Some pr, [])
         | Some I \<Rightarrow>
           (let (a, ca) = (if fd_a pr \<ge> 0 then (-1, [SysClose (fd_a pr)]) else (fd_a pr, []));
                (b, cb) = (if fd_b pr \<ge> 0 then (-1, [SysClose (fd_b pr)]) else (fd_b pr, []))
            in (Some \<lparr>fd_a = a, fd_b = b, internal = None\<rparr>,
                ca @ cb @ [SysThreadJoin, SysThreadJoin]
                @ (if proxy_a I \<ge> 0 then [SysClose (proxy_a I)] else [])
                @ (if proxy_b I \<ge> 0 then [SysClose (proxy_b I)] else [])
                @ [SysMutexDestroy, SysFree]))))"

section \<open>Lemmas on the inner loop\<close>

lemma chunk_loop_done: "\<not> off < length buf \<Longrightarrow> chunk_loop k buf off s = (s, NextRead)"
  by (simp add: chunk_loop.simps)

lemma chunk_loop_lost:
  assumes "off < length buf" and "draw_loss k (fwd_rng s) = (True, g)"
  shows "chunk_loop k buf off s =
    chunk_loop k buf (off + min (length buf - off) (chunk_max k (length buf))) (s\<lparr>fwd_rng := g\<rparr>)"
  using assms by (subst chunk_loop.simps) (simp add: Let_def)

lemma chunk_loop_sent:
  assumes "off < length buf" and "draw_loss k (fwd_rng s) = (False, g)" and "draw_delay k g = (acts, g')"
  shows "chunk_loop k buf off s =
    (let s = s\<lparr>fwd_rng := g', fwd_acts := fwd_acts s @ acts\<rparr>
     in case fwd_answers s of
          [] \<Rightarrow> (s, Stuck)
        | Fails e # ans \<Rightarrow> (s\<lparr>fwd_answers := ans\<rparr>, GoOut)
        | Moves m # ans \<Rightarrow>
            (let w = min m (min (length buf - off) (chunk_max k (length buf)));
                 s = s\<lparr>fwd_answers := ans\<rparr>
             in if w = 0 then (s, GoOut)
                else chunk_loop k buf (off + w) (s\<lparr>delivered := delivered s @ [take w (drop off buf)]\<rparr>)))"
  using assms by (subst chunk_loop.simps) (simp add: Let_def)

text \<open>A delay between the configured bounds, as a sleep.\<close>

definition allowed_sleep :: "chaos_net_knobs_t \<Rightarrow> sysact \<Rightarrow> bool" where
  "allowed_sleep k a \<longleftrightarrow> (\<exists>d. a = SysSleep (timespec_of_ns d) \<and> d \<noteq> 0 \<and> delay_max_ns k \<noteq> 0
     \<and> (if delay_min_ns k < delay_max_ns k then delay_min_ns k \<le> d \<and> d < delay_max_ns k
        else d = delay_min_ns k))"

lemma draw_delay_allowed: "draw_delay k g = (acts, g') \<Longrightarrow> a \<in> set acts \<Longrightarrow> allowed_sleep k a"
proof -
  assume d: "draw_delay k g = (acts, g')" and a: "a \<in> set acts"
  then obtain r where "a = SysSleep (timespec_of_ns (pick_delay (delay_min_ns k) (delay_max_ns k) r))"
    "0 < delay_max_ns k" "pick_delay (delay_min_ns k) (delay_max_ns k) r \<noteq> 0"
    by (fastforce simp: draw_delay_def apply_delay_def pick_delay_def Let_def split: if_splits prod.splits)
  then show ?thesis
    using pick_delay_in_range [of "delay_min_ns k" "delay_max_ns k" r]
      pick_delay_degenerate [of "delay_max_ns k" "delay_min_ns k" r]
    by (auto simp: allowed_sleep_def not_less)
qed

text \<open>
  What one read may lead to: fragments \<open>fst w\<close> that are a subsequence of the bytes read, none
  empty, none above the fragment limit when one is set, and sleeps \<open>snd w\<close> within the delay bounds.
\<close>

definition keeps_knobs :: "chaos_net_knobs_t \<times> u8 list \<Rightarrow> u8 list list \<times> sysact list \<Rightarrow> bool" where
  "keeps_knobs rd w \<longleftrightarrow> subseq (concat (fst w)) (snd rd)
     \<and> (\<forall>c \<in> set (fst w). c \<noteq> [] \<and> (0 < max_chunk_bytes (fst rd) \<longrightarrow> int (length c) \<le> max_chunk_bytes (fst rd)))
     \<and> (\<forall>a \<in> set (snd w). allowed_sleep (fst rd) a)"

lemma keeps_knobs_nothing: "keeps_knobs rd ([], [])"
  by (simp add: keeps_knobs_def)

text \<open>What one buffer contributes, however the loop ends.\<close>

definition contributes :: "chaos_net_knobs_t \<Rightarrow> u8 list \<Rightarrow> fwd \<Rightarrow> fwd \<Rightarrow> bool" where
  "contributes k rest s s' \<longleftrightarrow>
     (\<exists>new acts. keeps_knobs (k, rest) (new, acts)
        \<and> delivered s' = delivered s @ new \<and> fwd_acts s' = fwd_acts s @ acts)"

lemma contributes_nothing:
  "delivered s' = delivered s \<Longrightarrow> fwd_acts s' = fwd_acts s @ acts
    \<Longrightarrow> \<forall>a \<in> set acts. allowed_sleep k a \<Longrightarrow> contributes k rest s s'"
  by (auto simp: contributes_def keeps_knobs_def)

text \<open>A lost piece contributes nothing, a piece written comes before what the rest contributes.\<close>

lemma contributes_lost:
  assumes "contributes k (drop (off + n) buf) (s\<lparr>fwd_rng := g\<rparr>) s'"
  shows "contributes k (drop off buf) s s'"
proof -
  have "subseq (drop (off + n) buf) (drop off buf)"
    by (metis add.commute drop_drop suffix_drop suffix_imp_subseq)
  with assms show ?thesis by (auto simp: contributes_def keeps_knobs_def intro: subseq_order.order_trans)
qed

lemma contributes_sent:
  assumes "contributes k (drop (off + w) buf)
      (s\<lparr>fwd_rng := g, fwd_acts := fwd_acts s @ acts, fwd_answers := ans,
         delivered := delivered s @ [take w (drop off buf)]\<rparr>) s'"
    and "off < length buf" and "0 < w" and "0 < max_chunk_bytes k \<longrightarrow> int w \<le> max_chunk_bytes k"
    and "\<forall>a \<in> set acts. allowed_sleep k a"
  shows "contributes k (drop off buf) s s'"
proof -
  let ?c = "take w (drop off buf)"
  from assms(1) obtain new acts' where n: "delivered s' = delivered s @ ?c # new"
      "keeps_knobs (k, drop (off + w) buf) (new, acts')" "fwd_acts s' = fwd_acts s @ acts @ acts'"
    by (auto simp: contributes_def)
  have "subseq (?c @ concat new) (?c @ drop (off + w) buf)"
    using n(2) by (simp only: subseq_append' keeps_knobs_def fst_conv snd_conv)
  moreover have "?c @ drop (off + w) buf = drop off buf"
    by (metis append_take_drop_id drop_drop add.commute)
  ultimately have "subseq (concat (?c # new)) (drop off buf)" by simp
  moreover have "?c \<noteq> [] \<and> (0 < max_chunk_bytes k \<longrightarrow> int (length ?c) \<le> max_chunk_bytes k)"
    using assms(2-4) by auto
  ultimately have "keeps_knobs (k, drop off buf) (?c # new, acts @ acts')"
    using n(2) assms(5) by (auto simp: keeps_knobs_def)
  then show ?thesis
    unfolding contributes_def using n(1,3)
    by (intro exI [of _ "?c # new"] exI [of _ "acts @ acts'"]) simp
qed

lemma chunk_loop_contributes:
  assumes "chunk_loop k buf off s = (s', e)"
  shows "contributes k (drop off buf) s s'"
  using assms
proof (induction "length buf - off" arbitrary: off s rule: less_induct)
  case less
  show ?case
  proof (cases "off < length buf")
    case False
    with less.prems show ?thesis by (auto simp: chunk_loop_done intro: contributes_nothing)
  next
    case True
    let ?sz = "min (length buf - off) (chunk_max k (length buf))"
    have pos: "0 < ?sz" using True by (auto simp: chunk_max_def)
    have limit: "0 < max_chunk_bytes k \<longrightarrow> int (min m ?sz) \<le> max_chunk_bytes k" for m
      by (auto simp: chunk_max_def)
    have IH: "contributes k (drop (off + n) buf) t s'" if "chunk_loop k buf (off + n) t = (s', e)" "0 < n" for n t
      by (rule less.hyps) (use True that in simp_all)
    obtain lost g where dl: "draw_loss k (fwd_rng s) = (lost, g)" by (cases "draw_loss k (fwd_rng s)")
    obtain acts g' where dd: "draw_delay k g = (acts, g')" by (cases "draw_delay k g")
    have sleeps: "\<forall>a \<in> set acts. allowed_sleep k a" using draw_delay_allowed [OF dd] by blast
    show ?thesis
    proof (cases lost)
      case lost: True
      with dl less.prems True have "chunk_loop k buf (off + ?sz) (s\<lparr>fwd_rng := g\<rparr>) = (s', e)"
        by (simp add: chunk_loop_lost)
      then show ?thesis by (rule contributes_lost [OF IH [OF _ pos]])
    next
      case False
      with dl have "draw_loss k (fwd_rng s) = (False, g)" by simp
      note eq = less.prems [unfolded chunk_loop_sent [OF True this dd]]
      consider (stop) "fwd_answers s = [] \<or> (\<exists>x ans. fwd_answers s = Fails x # ans) \<or> (\<exists>ans. fwd_answers s = Moves 0 # ans)"
        | (sent) m ans where "fwd_answers s = Moves m # ans" "0 < m"
        by (metis answer.exhaust list.exhaust neq0_conv)
      then show ?thesis
      proof cases
        case stop
        with eq have "delivered s' = delivered s" "fwd_acts s' = fwd_acts s @ acts" by (auto simp: Let_def)
        then show ?thesis using sleeps by (rule contributes_nothing)
      next
        case sent
        then have w: "0 < min m ?sz" using pos by simp
        with eq sent have "chunk_loop k buf (off + min m ?sz) (s\<lparr>fwd_rng := g', fwd_acts := fwd_acts s @ acts,
            fwd_answers := ans, delivered := delivered s @ [take (min m ?sz) (drop off buf)]\<rparr>) = (s', e)"
          by (simp add: Let_def)
        from contributes_sent [OF IH [OF this w] True w limit sleeps] show ?thesis .
      qed
    qed
  qed
qed

lemma no_parts:
  "\<exists>ws. list_all2 keeps_knobs reads ws \<and> concat (map fst ws) = [] \<and> concat (map snd ws) = []"
  by (intro exI [of _ "map (\<lambda>rd. ([], [])) reads"])
    (simp add: list_all2_conv_all_nth keeps_knobs_nothing comp_def)

lemma read_loop_contributes:
  assumes "read_loop reads s = Some s'"
  shows "\<exists>ws. list_all2 keeps_knobs reads ws
    \<and> delivered s' = delivered s @ concat (map fst ws) \<and> fwd_acts s' = fwd_acts s @ concat (map snd ws)"
  using assms
proof (induction reads arbitrary: s)
  case Nil
  then show ?case by simp
next
  case (Cons x later)
  obtain k buf where x: "x = (k, buf)" by (cases x)
  from no_parts [of later] obtain vs where vs: "list_all2 keeps_knobs later vs"
    "concat (map fst vs) = []" "concat (map snd vs) = []" by blast
  show ?case
  proof (cases "buf = []")
    case True
    with Cons.prems x vs show ?thesis
      by (intro exI [of _ "([], []) # vs"]) (simp add: keeps_knobs_nothing)
  next
    case False
    obtain s1 e where cl: "chunk_loop k buf 0 s = (s1, e)" by (cases "chunk_loop k buf 0 s")
    from chunk_loop_contributes [OF cl] obtain new acts where n: "keeps_knobs (k, buf) (new, acts)"
        "delivered s1 = delivered s @ new" "fwd_acts s1 = fwd_acts s @ acts"
      by (auto simp: contributes_def)
    show ?thesis
    proof (cases e)
      case NextRead
      with Cons.prems x False cl have "read_loop later s1 = Some s'" by simp
      from Cons.IH [OF this] obtain ws where "list_all2 keeps_knobs later ws"
        "delivered s' = delivered s1 @ concat (map fst ws)" "fwd_acts s' = fwd_acts s1 @ concat (map snd ws)"
        by blast
      with n x show ?thesis by (intro exI [of _ "(new, acts) # ws"]) simp
    next
      case GoOut
      with Cons.prems x False cl n vs show ?thesis
        by (intro exI [of _ "(new, acts) # vs"]) simp
    next
      case Stuck
      with Cons.prems x False cl show ?thesis by simp
    qed
  qed
qed

lemma rand_unit_bounds: "0 \<le> fst (rand_unit r) \<and> fst (rand_unit r) < 1"
proof -
  obtain x g where x: "pg_xosh_next r = (x, g)" by (cases "pg_xosh_next r")
  define v where "v = unat (drop_bit 11 x)"
  have "v < 2 ^ 53" unfolding v_def
    using unat_lt_64 [of x] by (simp add: drop_bit_eq_div unat_div)
  then have "(of_nat v :: rat) < 2 ^ 53"
    by (metis of_nat_less_iff of_nat_numeral of_nat_power)
  moreover have "fst (rand_unit r) = of_nat v / 2 ^ 53"
    using x by (simp add: rand_unit_def v_def Let_def)
  ultimately show ?thesis by simp
qed

lemma draw_loss_certain: "1 \<le> loss_prob k \<Longrightarrow> fst (draw_loss k g)"
  using rand_unit_bounds [of g] by (auto simp: draw_loss_def split: prod.splits)

lemma draw_loss_never: "loss_prob k \<le> 0 \<Longrightarrow> draw_loss k g = (False, g)"
  by (simp add: draw_loss_def)

lemma chunk_loop_all_lost:
  assumes "1 \<le> loss_prob k"
  shows "\<exists>g. chunk_loop k buf off s = (s\<lparr>fwd_rng := g\<rparr>, NextRead)"
proof (induction "length buf - off" arbitrary: off s rule: less_induct)
  case less
  show ?case
  proof (cases "off < length buf")
    case False
    then show ?thesis
      by (intro exI [of _ "fwd_rng s"]) (simp add: chunk_loop_done)
  next
    case True
    let ?sz = "min (length buf - off) (chunk_max k (length buf))"
    have "length buf - (off + ?sz) < length buf - off"
      using True by (auto simp: chunk_max_def)
    moreover obtain g where "draw_loss k (fwd_rng s) = (True, g)"
      using draw_loss_certain [OF assms, of "fwd_rng s"] by (cases "draw_loss k (fwd_rng s)") auto
    ultimately show ?thesis
      using less.hyps [of "off + ?sz" "s\<lparr>fwd_rng := g\<rparr>"] True by (auto simp: chunk_loop_lost)
  qed
qed

lemma read_loop_all_lost:
  "\<forall>(k, buf) \<in> set reads. 1 \<le> loss_prob k
    \<Longrightarrow> \<exists>s'. read_loop reads s = Some s' \<and> delivered s' = delivered s \<and> fwd_acts s' = fwd_acts s"
proof (induction reads arbitrary: s)
  case Nil
  then show ?case by simp
next
  case (Cons x reads)
  obtain k buf where x: "x = (k, buf)" by (cases x)
  with Cons.prems obtain g where "chunk_loop k buf 0 s = (s\<lparr>fwd_rng := g\<rparr>, NextRead)"
    using chunk_loop_all_lost by force
  with Cons.IH [of "s\<lparr>fwd_rng := g\<rparr>"] Cons.prems x show ?case by simp
qed

text \<open>A kernel that takes something at every write.\<close>

definition willing :: "answer \<Rightarrow> bool" where
  "willing a = (case a of Moves m \<Rightarrow> 0 < m | Fails e \<Rightarrow> False)"

lemma chunk_loop_lossless:
  assumes "loss_prob k \<le> 0" and "\<forall>a \<in> set (fwd_answers s). willing a"
    and "length buf - off + n \<le> length (fwd_answers s)"
  shows "\<exists>s'. chunk_loop k buf off s = (s', NextRead)
    \<and> concat (delivered s') = concat (delivered s) @ drop off buf
    \<and> (\<forall>a \<in> set (fwd_answers s'). willing a) \<and> n \<le> length (fwd_answers s')"
  using assms(2,3)
proof (induction "length buf - off" arbitrary: off s rule: less_induct)
  case less
  show ?case
  proof (cases "off < length buf")
    case False
    with less.prems show ?thesis by (simp add: chunk_loop_done)
  next
    case True
    let ?sz = "min (length buf - off) (chunk_max k (length buf))"
    have pos: "0 < ?sz" using True by (auto simp: chunk_max_def)
    obtain acts g' where dd: "draw_delay k (fwd_rng s) = (acts, g')" by (cases "draw_delay k (fwd_rng s)")
    note eq = chunk_loop_sent [OF True draw_loss_never [OF assms(1)] dd]
    obtain a ans where ans: "fwd_answers s = a # ans"
      using less.prems(2) True by (cases "fwd_answers s") auto
    with less.prems(1) obtain m where m: "a = Moves m" "0 < m"
      by (auto simp: willing_def split: answer.splits)
    let ?w = "min m ?sz"
    have w: "0 < ?w" "?w \<le> length buf - off" using m pos by auto
    have w0: "\<not> ?w = 0" using w(1) by (metis neq0_conv)
    let ?s1 = "s\<lparr>fwd_rng := g', fwd_acts := fwd_acts s @ acts, fwd_answers := ans,
      delivered := delivered s @ [take ?w (drop off buf)]\<rparr>"
    have more: "fwd_answers (s\<lparr>fwd_rng := g', fwd_acts := fwd_acts s @ acts\<rparr>) = Moves m # ans"
        using ans m by simp
    have step: "chunk_loop k buf off s = chunk_loop k buf (off + ?w) ?s1"
      unfolding eq Let_def more list.case answer.case if_not_P [OF w0] by simp
    have dec: "length buf - (off + ?w) < length buf - off"
      by (rule diff_less_mono2 [OF _ True]) (use w(1) in simp)
    have wl: "\<forall>a \<in> set (fwd_answers ?s1). willing a" using less.prems(1) ans by simp
    have rm: "length buf - (off + ?w) + n \<le> length (fwd_answers ?s1)"
    proof -
      have shrink: "0 < v \<Longrightarrow> v \<le> L - off \<Longrightarrow> L - off + n \<le> Suc j \<Longrightarrow> L - (off + v) + n \<le> j"
        for v L j :: nat by linarith
      have "length buf - off + n \<le> Suc (length ans)" using less.prems(2) ans by simp
      from shrink [OF w this] show ?thesis by simp
    qed
    obtain s' where "chunk_loop k buf (off + ?w) ?s1 = (s', NextRead)"
        "concat (delivered s') = concat (delivered ?s1) @ drop (off + ?w) buf"
        "\<forall>a \<in> set (fwd_answers s'). willing a" "n \<le> length (fwd_answers s')"
      using less.hyps [OF dec wl rm] by blast
    moreover have "take ?w (drop off buf) @ drop (off + ?w) buf = drop off buf"
      unfolding drop_drop [symmetric] add.commute [of off] by (rule append_take_drop_id)
    ultimately show ?thesis unfolding step by simp
  qed
qed

lemma read_loop_lossless:
  "\<forall>(k, buf) \<in> set reads. loss_prob k \<le> 0 \<and> buf \<noteq> [] \<Longrightarrow> \<forall>a \<in> set (fwd_answers s). willing a
    \<Longrightarrow> length (concat (map snd reads)) \<le> length (fwd_answers s)
    \<Longrightarrow> \<exists>s'. read_loop reads s = Some s'
          \<and> concat (delivered s') = concat (delivered s) @ concat (map snd reads)"
proof (induction reads arbitrary: s)
  case Nil
  then show ?case by simp
next
  case (Cons x reads)
  obtain k buf where x: "x = (k, buf)" by (cases x)
  have "length buf - 0 + length (concat (map snd reads)) \<le> length (fwd_answers s)"
    using Cons.prems(3) x by simp
  note room = this
  have "loss_prob k \<le> 0" using Cons.prems(1) x by simp
  from chunk_loop_lossless [OF this Cons.prems(2) room] obtain s1 where
    s1: "chunk_loop k buf 0 s = (s1, NextRead)" "concat (delivered s1) = concat (delivered s) @ buf"
      "\<forall>a \<in> set (fwd_answers s1). willing a"
      "length (concat (map snd reads)) \<le> length (fwd_answers s1)"
    by (auto simp only: drop_0)
  from Cons.IH [OF _ s1(3,4)] Cons.prems(1) obtain s' where
    "read_loop reads s1 = Some s'"
    "concat (delivered s') = concat (delivered s1) @ concat (map snd reads)"
    by auto
  with s1 x Cons.prems(1) show ?case by auto
qed

section \<open>Properties\<close>

text \<open>
  C25: the proxy only ever drops. Whatever the knobs, the generator and the kernel do, what a
  forwarder writes falls into one part for each read: the fragments of a part are a subsequence of
  the bytes of that read, in their order, so nothing is duplicated or invented; no fragment is empty
  and none is larger than the limit in force at that read, when one is set; every sleep is within
  the delay bounds in force at that read, the upper bound excluded, and there is none when the
  upper bound is zero. Behind everything the end is announced by a shutdown.
\<close>

theorem forwarding_only_drops:
  assumes "forward_fn dst reads rng ans = Some s"
  shows "\<exists>parts. list_all2 (\<lambda>(k, buf) (frags, sleeps).
        subseq (concat frags) buf
        \<and> list_all (\<lambda>c. c \<noteq> [] \<and> (max_chunk_bytes k > 0 \<longrightarrow> int (length c) \<le> max_chunk_bytes k)) frags
        \<and> list_all (\<lambda>a. \<exists>d. a = SysSleep (timespec_of_ns d) \<and> d \<noteq> 0 \<and> delay_max_ns k \<noteq> 0
             \<and> (if delay_min_ns k < delay_max_ns k then delay_min_ns k \<le> d \<and> d < delay_max_ns k
                else d = delay_min_ns k)) sleeps) reads parts
    \<and> delivered s = concat (map fst parts) \<and> fwd_acts s = concat (map snd parts) @ [SysShutdown dst]"
proof -
  obtain s' where rl: "read_loop reads \<lparr>delivered = [], fwd_acts = [], fwd_rng = rng, fwd_answers = ans\<rparr> = Some s'"
    and s: "s = s'\<lparr>fwd_acts := fwd_acts s' @ [SysShutdown dst]\<rparr>"
    using assms by (auto simp: forward_fn_def)
  from read_loop_contributes [OF rl] obtain ws where "list_all2 keeps_knobs reads ws"
    "delivered s = concat (map fst ws)" "fwd_acts s = concat (map snd ws) @ [SysShutdown dst]"
    by (auto simp: s)
  then show ?thesis
    by (intro exI [of _ ws] conjI)
      (auto elim!: list_all2_mono simp only: keeps_knobs_def allowed_sleep_def list_all_iff fst_conv snd_conv split_conv)
qed

definition demo_knobs :: chaos_net_knobs_t where
  "demo_knobs = \<lparr>loss_prob = 0, delay_min_ns = 5, delay_max_ns = 0, max_chunk_bytes = 2\<rparr>"

lemma demo_forward:
  "forward_fn 9 [(demo_knobs, [1, 2, 3])] (pg_xosh_seed 1) [Moves 2, Moves 2] =
    Some \<lparr>delivered = [[1, 2], [3]], fwd_acts = [SysShutdown 9], fwd_rng = pg_xosh_seed 1, fwd_answers = []\<rparr>"
  by (simp add: forward_fn_def chunk_loop.simps demo_knobs_def draw_loss_def draw_delay_def
      chunk_max_def Let_def)

theorem forwarding_only_drops_witness:
  "\<exists>s frags. forward_fn 9 [(demo_knobs, [1, 2, 3])] (pg_xosh_seed 1) [Moves 2, Moves 2] = Some s
    \<and> delivered s = frags \<and> subseq (concat frags) [1, 2, 3] \<and> list_all (\<lambda>c. int (length c) \<le> 2) frags"
  using forwarding_only_drops [OF demo_forward] demo_forward
  by (auto simp: list_all2_Cons1 demo_knobs_def)

text \<open>
  without loss the proxy is a pipe. When the loss probability is zero and the kernel accepts
  something at every write, a forwarder returns and has delivered exactly the bytes it read,
  however fragments, delays and short writes cut them up.
\<close>

theorem lossless_forwarding_is_identity:
  assumes "\<forall>(k, buf) \<in> set reads. loss_prob k \<le> 0 \<and> buf \<noteq> []"
    and "\<forall>a \<in> set ans. \<exists>m. a = Moves m \<and> 0 < m"
    and "length (concat (map snd reads)) \<le> length ans"
  shows "\<exists>s. forward_fn dst reads rng ans = Some s \<and> concat (delivered s) = concat (map snd reads)"
proof -
  let ?s = "\<lparr>delivered = [], fwd_acts = [], fwd_rng = rng, fwd_answers = ans\<rparr>"
  have "\<forall>a \<in> set (fwd_answers ?s). willing a" using assms(2) by (auto simp: willing_def)
  from read_loop_lossless [OF assms(1) this] assms(3) obtain s' where
    "read_loop reads ?s = Some s'" "concat (delivered s') = concat (map snd reads)"
    by auto
  then show ?thesis by (auto simp: forward_fn_def)
qed

theorem lossless_forwarding_is_identity_witness:
  "\<exists>s. forward_fn 9 [(demo_knobs, [1, 2, 3]), (demo_knobs, [4])] (pg_xosh_seed 1) (replicate 4 (Moves 7)) = Some s
    \<and> concat (delivered s) = [1, 2, 3, 4]"
  using lossless_forwarding_is_identity [of "[(demo_knobs, [1, 2, 3]), (demo_knobs, [4])]" "replicate 4 (Moves 7)"
      9 "pg_xosh_seed 1"]
  by (simp add: demo_knobs_def)

text \<open>
  a partition lets nothing through. With a loss probability of one (or more) a forwarder
  drops every chunk it reads, never calls \<open>write\<close> and never sleeps, and still ends with the
  stream, whatever its generator draws: the draws of \<open>rand_unit\<close> lie in \<open>[0, 1)\<close>.
\<close>

theorem partition_blocks_everything:
  assumes "\<forall>(k, buf) \<in> set reads. 1 \<le> loss_prob k"
  shows "\<exists>s. forward_fn dst reads rng ans = Some s \<and> delivered s = [] \<and> fwd_acts s = [SysShutdown dst]
    \<and> 0 \<le> fst (rand_unit rng) \<and> fst (rand_unit rng) < 1"
  using read_loop_all_lost [OF assms, of "\<lparr>delivered = [], fwd_acts = [], fwd_rng = rng, fwd_answers = ans\<rparr>"]
    rand_unit_bounds [of rng]
  by (auto simp: forward_fn_def)

theorem partition_blocks_everything_witness:
  "\<exists>s. forward_fn 9 [(demo_knobs\<lparr>loss_prob := 1\<rparr>, [1, 2, 3])] (pg_xosh_seed 1) [] = Some s
    \<and> delivered s = []"
  using partition_blocks_everything [of "[(demo_knobs\<lparr>loss_prob := 1\<rparr>, [1, 2, 3])]" 9 "pg_xosh_seed 1" "[]"]
  by auto

lemma open_fds_close_all: "open_fds (acts @ close_all fds) = open_fds acts - set fds"
proof -
  have "foldl (\<lambda>fds a. case a of SysOpen fd \<Rightarrow> insert fd fds | SysClose fd \<Rightarrow> fds - {fd} | _ \<Rightarrow> fds) S
      (map SysClose fds) = S - set fds" for S
    by (induction fds arbitrary: S) auto
  then show ?thesis by (simp add: open_fds_def close_all_def)
qed

lemma open_fds_opened:
  "open_fds (SysOpen a # SysOpen b # SysOpen c # SysOpen d # mid) = {a, b, c, d}"
  if "mid \<in> {[], [SysMalloc, SysMutexInit, SysFree],
    [SysMalloc, SysMutexInit, SysThreadCreate, SysShutdown b, SysThreadJoin, SysFree]}"
  using that by (auto simp: open_fds_def)

lemma close_all_balance: "held (acts @ close_all fds) = held acts" "unjoined (acts @ close_all fds) = unjoined acts"
  by (induction fds) (simp_all add: held_def unjoined_def close_all_def)

lemma pair_failure:
  assumes "chaos_net_pair has_out k seed sp1 sp2 mem t1 t2 = (rc, e, p, acts)" and "rc \<noteq> 0"
  shows "rc = -1 \<and> p = None \<and> open_fds acts = {} \<and> held acts = 0 \<and> unjoined acts = 0"
proof -
  have start: "rc = -1" "p = None"
    using assms by (cases has_out; cases sp1; cases sp2; cases mem; cases t1; cases t2;
        auto simp: chaos_net_pair_def Let_def)+
  consider "acts = []" | a b where "acts = [SysOpen a, SysOpen b] @ close_all [a, b]"
    | a b c d mid where
      "mid \<in> {[], [SysMalloc, SysMutexInit, SysFree],
        [SysMalloc, SysMutexInit, SysThreadCreate, SysShutdown b, SysThreadJoin, SysFree]}"
      "acts = (SysOpen a # SysOpen b # SysOpen c # SysOpen d # mid) @ close_all [a, b, c, d]"
    using assms by (cases has_out; cases sp1; cases sp2; cases mem; cases t1; cases t2)
      (auto simp: chaos_net_pair_def Let_def)
  then have "open_fds acts = {} \<and> held acts = 0 \<and> unjoined acts = 0"
  proof cases
    case 1
    then show ?thesis by (simp add: open_fds_def held_def unjoined_def)
  next
    case 2
    have "open_fds [SysOpen a, SysOpen b] = {a, b}" for a b by (auto simp: open_fds_def)
    with 2 show ?thesis
      by (simp only: open_fds_close_all close_all_balance) (simp add: held_def unjoined_def)
  next
    case 3
    have "held (SysOpen a # SysOpen b # SysOpen c # SysOpen d # mid) = 0"
      "unjoined (SysOpen a # SysOpen b # SysOpen c # SysOpen d # mid) = 0"
      using 3(1) by (auto simp: held_def unjoined_def)
    then show ?thesis
      unfolding 3(2) open_fds_close_all close_all_balance open_fds_opened [OF 3(1)] by simp
  qed
  with start show ?thesis by simp
qed

text \<open>
  making a pair leaks nothing. At whatever call \<open>chaos_net_pair\<close> fails, it returns
  \<open>-1\<close> with every socket closed, the memory given back and no thread left; when it succeeds,
  changing the knobs changes nothing but the knobs, and closing the pair releases all of it and
  can be repeated.
\<close>

theorem chaos_net_pair_accounts:
  assumes "chaos_net_pair has_out k seed sp1 sp2 mem t1 t2 = (rc, e, p, acts)"
    and "\<forall>u1 p1 p2 u2. sp1 = Some (u1, p1) \<and> sp2 = Some (p2, u2)
        \<longrightarrow> 0 \<le> u1 \<and> 0 \<le> p1 \<and> 0 \<le> p2 \<and> 0 \<le> u2 \<and> distinct [u1, p1, p2, u2]"
  shows "(rc = -1 \<and> p = None \<and> open_fds acts = {} \<and> held acts = 0 \<and> unjoined acts = 0) \<or>
    (rc = 0 \<and> (\<exists>pr. p = Some pr
       \<and> open_fds (acts @ snd (chaos_net_close (chaos_net_set_knobs p k'))) = {}
       \<and> held (acts @ snd (chaos_net_close (chaos_net_set_knobs p k'))) = 0
       \<and> unjoined (acts @ snd (chaos_net_close (chaos_net_set_knobs p k'))) = 0
       \<and> snd (chaos_net_close (fst (chaos_net_close p))) = []))"
proof (cases "rc = 0")
  case False
  with pair_failure [OF assms(1)] show ?thesis by blast
next
  case True
  have "sp1 \<noteq> None \<and> sp2 \<noteq> None"
    using assms(1) True by (cases has_out; cases sp1; cases sp2)
      (simp_all add: chaos_net_pair_def split: prod.splits)
  then obtain u1 p1 p2 u2 where sp: "sp1 = Some (u1, p1)" "sp2 = Some (p2, u2)" by auto
  then have fds: "0 \<le> u1" "0 \<le> p1" "0 \<le> p2" "0 \<le> u2" "distinct [u1, p1, p2, u2]"
    using assms(2) by blast+
  from assms(1) True obtain I where
    p: "p = Some \<lparr>fd_a = u1, fd_b = u2, internal = Some I\<rparr>" "proxy_a I = p1" "proxy_b I = p2"
    and acts: "acts = [SysOpen u1, SysOpen p1, SysOpen p2, SysOpen u2, SysMalloc, SysMutexInit,
      SysThreadCreate, SysThreadCreate]"
    by (cases has_out; cases mem; cases t1; cases t2) (auto simp: chaos_net_pair_def Let_def sp)
  have "snd (chaos_net_close (chaos_net_set_knobs p k')) = snd (chaos_net_close p)"
    by (cases k') (simp_all add: chaos_net_set_knobs_def chaos_net_close_def p Let_def)
  moreover have "snd (chaos_net_close p) = [SysClose u1, SysClose u2, SysThreadJoin, SysThreadJoin,
      SysClose p1, SysClose p2, SysMutexDestroy, SysFree]"
    using fds by (simp add: chaos_net_close_def p)
  moreover have "snd (chaos_net_close (fst (chaos_net_close p))) = []"
    using fds by (simp add: chaos_net_close_def p)
  moreover have "open_fds (acts @ [SysClose u1, SysClose u2, SysThreadJoin, SysThreadJoin,
      SysClose p1, SysClose p2, SysMutexDestroy, SysFree]) = {}"
    unfolding acts by (simp add: open_fds_def) blast
  ultimately show ?thesis
    using True p(1) acts by (simp add: held_def unjoined_def)
qed

theorem chaos_net_pair_accounts_witness:
  "\<exists>pr acts. chaos_net_pair True None 7 (Some (3, 4)) (Some (5, 6)) True True True = (0, None, Some pr, acts)
    \<and> open_fds (acts @ snd (chaos_net_close (Some pr))) = {}"
proof -
  obtain rc e p acts where c: "chaos_net_pair True None 7 (Some (3, 4)) (Some (5, 6)) True True True = (rc, e, p, acts)"
    by (cases "chaos_net_pair True None 7 (Some (3, 4)) (Some (5, 6)) True True True")
  then have "rc = 0" "e = None" by (auto simp: chaos_net_pair_def Let_def)
  with chaos_net_pair_accounts [OF c, of None] c show ?thesis
    by (auto simp: chaos_net_set_knobs_def split: option.splits)
qed

end
