(* ===== verification/Net_Link.thy ===== *)
theory Net_Link
  imports Script Chaos_Net
begin

text \<open>
  What the scenarios that talk through a pair of \<open>Chaos_Net\<close> share: making the pair, the
  forwarder between a writer and a reader as a function from the bytes written to the bytes handed
  on, and what it does to them: everything without loss, and with loss exactly the chunks whose
  draws survive, where the chunks depend on how the kernel cuts the reads.
\<close>

section \<open>A link through the proxy\<close>

text \<open>
  What the kernel decides while a link is made and used: the answers to the calls of
  \<open>chaos_net_pair\<close>, how many bytes each \<open>read\<close> of the forwarder gets, the answers to its
  writes.
\<close>

record link_world =
  lw_sp1 :: "(int \<times> int) option"
  lw_sp2 :: "(int \<times> int) option"
  lw_mem :: bool
  lw_t1 :: bool
  lw_t2 :: bool
  lw_cuts :: "nat list"
  lw_fwd :: "answer list"

definition open_link :: "chaos_net_knobs_t \<Rightarrow> u64 \<Rightarrow> link_world \<Rightarrow> pair_internal option" where
  "open_link k seed w =
     (case chaos_net_pair True (Some k) seed (lw_sp1 w) (lw_sp2 w) (lw_mem w) (lw_t1 w) (lw_t2 w) of
        (rc, e, p, acts) \<Rightarrow> if rc < 0 then None else (case p of None \<Rightarrow> None | Some p \<Rightarrow> internal p))"

text \<open>The forwarder's reads into its buffer of 4096 bytes: at least one byte each while there are any.\<close>

fun cut :: "nat list \<Rightarrow> 'a list \<Rightarrow> 'a list list" where
  "cut [] bs = []"
| "cut (n # ns) bs =
     (if bs = [] then []
      else (let c = min (max n 1) 4096 in take c bs # cut ns (drop c bs)))"

text \<open>What the thread \<open>t_a_to_b\<close> hands on of what was written into \<open>fd_a\<close>.\<close>

definition forwarded :: "pair_internal \<Rightarrow> link_world \<Rightarrow> u8 list \<Rightarrow> u8 list option" where
  "forwarded I w sent =
     map_option (\<lambda>s. concat (delivered s))
       (forward_fn (proxy_b I) (map (\<lambda>b. (knobs I, b)) (cut (lw_cuts w) sent)) (rng_a I) (lw_fwd w))"

section \<open>Lemmas on the link\<close>

lemma open_link_ok:
  assumes "lw_sp1 w = Some (u1, p1)" and "lw_sp2 w = Some (p2, u2)" and "lw_mem w" and "lw_t1 w" and "lw_t2 w"
  shows "open_link k seed w =
    Some \<lparr>proxy_a = p1, proxy_b = p2, knobs = k, rng_a = pg_xosh_seed (seed XOR 0xA1A1A1A1A1A1A1A1),
      rng_b = pg_xosh_seed (seed XOR 0xB2B2B2B2B2B2B2B2)\<rparr>"
  using assms by (simp add: open_link_def chaos_net_pair_def Let_def)

text \<open>The forwarder's reads get everything when there are enough of them.\<close>

lemma cut_concat:
  assumes "list_all (\<lambda>n. 0 < n \<and> n \<le> 4096) ns" and "length bs \<le> sum_list ns"
  shows "concat (cut ns bs) = bs"
  using assms
proof (induction ns arbitrary: bs)
  case Nil
  then show ?case by simp
next
  case (Cons n ns)
  from Cons.prems have "min (max n 1) 4096 = n" by auto
  with Cons.IH [of "drop n bs"] Cons.prems show ?case by auto
qed

lemma cut_nonempty: "b \<in> set (cut ns bs) \<Longrightarrow> b \<noteq> []"
  by (induction ns arbitrary: bs) (auto simp: Let_def max_def min_def split: if_splits)

text \<open>A link without loss hands on everything.\<close>

lemma forwarded_lossless:
  assumes "loss_prob (knobs I) \<le> 0" and "list_all (\<lambda>n. 0 < n \<and> n \<le> 4096) (lw_cuts w)"
    and "length bs \<le> sum_list (lw_cuts w)" and "list_all (\<lambda>a. 0 < gives a) (lw_fwd w)" and "length bs \<le> length (lw_fwd w)"
  shows "forwarded I w bs = Some bs"
proof -
  let ?reads = "map (\<lambda>b. (knobs I, b)) (cut (lw_cuts w) bs)"
  let ?s = "\<lparr>delivered = [], fwd_acts = [], fwd_rng = rng_a I, fwd_answers = lw_fwd w\<rparr>"
  have cc: "concat (map snd ?reads) = bs" using cut_concat [OF assms(2,3)] by (simp add: o_def)
  have 1: "\<forall>(k, buf) \<in> set ?reads. loss_prob k \<le> 0 \<and> buf \<noteq> []" using assms(1) cut_nonempty by auto
  have 2: "\<forall>a \<in> set (fwd_answers ?s). willing a"
  proof
    fix a assume "a \<in> set (fwd_answers ?s)"
    then have "0 < gives a" using assms(4) by (simp add: list_all_iff)
    then show "willing a" by (cases a) (auto simp: willing_def)
  qed
  from read_loop_lossless [OF 1 2] assms(5) cc obtain s' where
    "read_loop ?reads ?s = Some s'" "concat (delivered s') = bs" by auto
  then show ?thesis by (auto simp: forwarded_def forward_fn_def)
qed

section \<open>Which chunks survive\<close>

text \<open>
  The reference for the loss, on lengths alone. \<open>read_sizes\<close> are the lengths of the reads of
  \<open>tot\<close> bytes when the kernel offers \<open>ns\<close>; \<open>pieces c m\<close> are the lengths a read of \<open>m\<close> bytes is cut
  into with fragments of \<open>c\<close>; \<open>kept\<close> adds up the pieces whose draw is not below the probability.
\<close>

fun read_sizes :: "nat list \<Rightarrow> nat \<Rightarrow> nat list" where
  "read_sizes [] tot = []"
| "read_sizes (n # ns) tot = (if tot = 0 then [] else min n tot # read_sizes ns (tot - min n tot))"

fun pieces :: "nat \<Rightarrow> nat \<Rightarrow> nat list" where
  "pieces c m = (if c = 0 \<or> m = 0 then [] else min c m # pieces c (m - min c m))"

declare pieces.simps [simp del]

fun kept :: "rat \<Rightarrow> nat list \<Rightarrow> pg_xosh_t \<Rightarrow> nat \<times> pg_xosh_t" where
  "kept p [] r = (0, r)"
| "kept p (m # ms) r =
     (let (u, r) = rand_unit r; (tot, r) = kept p ms r in ((if u < p then tot else m + tot), r))"

text \<open>The same when all pieces have one length: of \<open>n\<close> draws those that survive.\<close>

fun survivors :: "rat \<Rightarrow> nat \<Rightarrow> pg_xosh_t \<Rightarrow> nat" where
  "survivors p 0 r = 0"
| "survivors p (Suc n) r =
     (let (u, r) = rand_unit r in (if u < p then survivors p n r else Suc (survivors p n r)))"

text \<open>The bytes of \<open>tot\<close> that get through, by the offers of the kernel and the seeded generator.\<close>

definition gets_through :: "rat \<Rightarrow> nat \<Rightarrow> nat list \<Rightarrow> nat \<Rightarrow> pg_xosh_t \<Rightarrow> nat" where
  "gets_through p c ns tot r = fst (kept p (concat (map (pieces c) (read_sizes ns tot))) r)"

lemma kept_append:
  "kept p (xs @ ys) r = (let (a, r) = kept p xs r; (b, r) = kept p ys r in (a + b, r))"
  by (induction xs arbitrary: r) (simp_all add: Let_def split: prod.splits)

lemma kept_le: "fst (kept p ms r) \<le> sum_list ms"
proof (induction ms arbitrary: r)
  case (Cons m ms)
  from Cons [of "snd (rand_unit r)"] show ?case by (simp add: split_def Let_def)
qed simp

lemma kept_replicate: "fst (kept p (replicate n c) r) = c * survivors p n r"
  by (induction n arbitrary: r) (simp_all add: split_def Let_def)

lemma pieces_0 [simp]: "pieces c 0 = []"
  by (simp add: pieces.simps)

lemma pieces_step: "0 < c \<Longrightarrow> 0 < m \<Longrightarrow> pieces c m = min c m # pieces c (m - min c m)"
  by (subst pieces.simps) simp

lemma sum_pieces: "0 < c \<Longrightarrow> sum_list (pieces c m) = m"
proof (induction m rule: less_induct)
  case (less m)
  then show ?case by (cases "m = 0") (simp_all add: pieces_step)
qed

lemma length_pieces: "length (pieces c m) \<le> m"
proof (induction m rule: less_induct)
  case (less m)
  show ?case
  proof (cases "c = 0 \<or> m = 0")
    case False
    then have x: "0 < min c m" "min c m \<le> m" by simp_all
    then have "m - min c m < m" by simp
    from less [OF this] x have "Suc (length (pieces c (m - min c m))) \<le> m" by linarith
    with False show ?thesis by (simp add: pieces_step)
  qed (simp add: pieces.simps [of c m])
qed

lemma pieces_whole: "0 < c \<Longrightarrow> pieces c (c * j) = replicate j c"
  by (induction j) (simp_all add: pieces_step min_absorb1)

lemma sum_read_sizes: "sum_list (read_sizes ns tot) \<le> tot"
proof (induction ns arbitrary: tot)
  case (Cons n ns)
  have "min n tot \<le> tot" by simp
  with Cons [of "tot - min n tot"] have "min n tot + sum_list (read_sizes ns (tot - min n tot)) \<le> tot"
    by linarith
  then show ?case by simp
qed simp

lemma gets_through_le:
  assumes "0 < c"
  shows "gets_through p c ns tot r \<le> tot"
proof -
  have "sum_list (concat (map (pieces c) xs)) = sum_list xs" for xs
    by (induction xs) (simp_all add: sum_pieces [OF assms])
  then show ?thesis
    using kept_le [of p "concat (map (pieces c) (read_sizes ns tot))" r] sum_read_sizes [of ns tot]
    by (simp add: gets_through_def)
qed

text \<open>When every read ends with a message, the messages survive or not as wholes.\<close>

lemma pieces_aligned:
  assumes "0 < c" and "list_all (\<lambda>n. c dvd n) ns" and "c * j \<le> sum_list ns"
  shows "concat (map (pieces c) (read_sizes ns (c * j))) = replicate j c"
  using assms(2,3)
proof (induction ns arbitrary: j)
  case Nil
  with assms(1) show ?case by simp
next
  case (Cons n ns)
  obtain i where i: "n = c * i" using Cons.prems(1) by auto
  define l where "l = min i j"
  have l: "min n (c * j) = c * l" "c * j - c * l = c * (j - l)"
    by (simp_all add: i l_def nat_mult_min_right diff_mult_distrib2)
  have "c * (j - l) \<le> sum_list ns"
    using Cons.prems(2) by (simp add: i l_def min_def diff_mult_distrib2 le_diff_conv add.commute)
  with Cons.IH [of "j - l"] Cons.prems(1)
  have "concat (map (pieces c) (read_sizes ns (c * (j - l)))) = replicate (j - l) c" by simp
  moreover have "replicate l c @ replicate (j - l) c = replicate j c"
    by (simp add: l_def flip: replicate_add)
  ultimately show ?case
    using assms(1) by (cases "j = 0") (simp_all add: l pieces_whole)
qed

lemma gets_through_aligned:
  assumes "0 < c" and "list_all (\<lambda>n. c dvd n) ns" and "c * j \<le> sum_list ns"
  shows "gets_through p c ns (c * j) r = c * survivors p j r"
  by (simp add: gets_through_def pieces_aligned [OF assms] kept_replicate)

lemma cut_lengths:
  "list_all (\<lambda>n. 0 < n \<and> n \<le> 4096) ns \<Longrightarrow> map length (cut ns bs) = read_sizes ns (length bs)"
proof (induction ns arbitrary: bs)
  case (Cons n ns)
  from Cons.prems have "min (max n 1) 4096 = n" by auto
  with Cons.IH [of "drop n bs"] Cons.prems show ?case by (cases "n \<le> length bs") (auto simp: min_def)
qed simp

text \<open>A willing kernel for writes of \<open>c\<close> bytes.\<close>

definition takes :: "nat \<Rightarrow> answer list \<Rightarrow> bool" where
  "takes c ans \<longleftrightarrow> list_all (\<lambda>a. c \<le> gives a) ans"

text \<open>Fragments of \<open>c\<close> bytes, loss and no delay.\<close>

definition lossy :: "nat \<Rightarrow> chaos_net_knobs_t \<Rightarrow> bool" where
  "lossy c k \<longleftrightarrow> 0 < c \<and> 0 < loss_prob k \<and> max_chunk_bytes k = int c \<and> delay_max_ns k = 0"

lemma chunk_loop_pieces:
  assumes "lossy c k" and "ms = pieces c (length buf - off)" and "takes c (fwd_answers s)"
    and "length ms \<le> length (fwd_answers s)"
  shows "\<exists>s'. chunk_loop k buf off s = (s', NextRead)
    \<and> length (concat (delivered s')) = length (concat (delivered s)) + fst (kept (loss_prob k) ms (fwd_rng s))
    \<and> fwd_rng s' = snd (kept (loss_prob k) ms (fwd_rng s))
    \<and> takes c (fwd_answers s') \<and> length (fwd_answers s) \<le> length (fwd_answers s') + length ms"
  using assms(2-)
proof (induction ms arbitrary: off s)
  case Nil
  then have "\<not> off < length buf" using assms(1) pieces.simps [of c "length buf - off"]
    by (auto simp: lossy_def split: if_splits)
  with Nil.prems show ?case by (simp add: chunk_loop_done)
next
  case (Cons m ms)
  let ?p = "loss_prob k"
  have p: "0 < ?p" "max_chunk_bytes k = int c" "delay_max_ns k = 0" "0 < c" using assms(1) by (simp_all add: lossy_def)
  have off: "off < length buf" and m: "m = min c (length buf - off)"
    and ms: "ms = pieces c (length buf - (off + m))"
    using Cons.prems(1) pieces.simps [of c "length buf - off"] by (auto split: if_splits)
  have sz: "min (length buf - off) (chunk_max k (length buf)) = m"
    using p(2,4) by (simp add: chunk_max_def m min.commute)
  obtain u g where u: "rand_unit (fwd_rng s) = (u, g)" by (cases "rand_unit (fwd_rng s)")
  have kp: "kept ?p (m # ms) (fwd_rng s) =
      (if u < ?p then fst (kept ?p ms g) else m + fst (kept ?p ms g), snd (kept ?p ms g))"
    by (simp add: u split_def Let_def)
  show ?case
  proof (cases "u < ?p")
    case True
    then have "draw_loss k (fwd_rng s) = (True, g)" using p by (simp add: draw_loss_def u)
    note eq = chunk_loop_lost [OF off this, unfolded sz]
    from Cons.prems(2,3) Cons.IH [of "off + m" "s\<lparr>fwd_rng := g\<rparr>", OF ms] obtain s' where
      "chunk_loop k buf (off + m) (s\<lparr>fwd_rng := g\<rparr>) = (s', NextRead)"
      "length (concat (delivered s')) = length (concat (delivered s)) + fst (kept ?p ms g)"
      "fwd_rng s' = snd (kept ?p ms g)" "takes c (fwd_answers s')"
      "length (fwd_answers s) \<le> length (fwd_answers s') + length ms" by auto
    with True show ?thesis unfolding eq kp by simp
  next
    case False
    then have dl: "draw_loss k (fwd_rng s) = (False, g)" using p by (simp add: draw_loss_def u)
    have dd: "draw_delay k g = ([], g)" using p by (simp add: draw_delay_def)
    obtain a ans where a: "fwd_answers s = a # ans" using Cons.prems(3) by (cases "fwd_answers s") auto
    with Cons.prems(2) p(4) obtain w where w: "a = Moves w" "c \<le> w" by (cases a) (auto simp: takes_def)
    have mw: "min w m = m" "m \<noteq> 0" using w(2) off p(4) by (auto simp: m)
    let ?s1 = "s\<lparr>fwd_rng := g, fwd_answers := ans, delivered := delivered s @ [take m (drop off buf)]\<rparr>"
    have eq: "chunk_loop k buf off s = chunk_loop k buf (off + m) ?s1"
      using w a mw by (simp add: chunk_loop_sent [OF off dl dd] sz Let_def)
    have "length (take m (drop off buf)) = m" using off by (simp add: m)
    moreover have "takes c (fwd_answers ?s1)" "length ms \<le> length (fwd_answers ?s1)"
      using Cons.prems(2,3) a by (simp_all add: takes_def)
    moreover note Cons.IH [of "off + m" ?s1, OF ms this]
    ultimately obtain s' where
      "chunk_loop k buf (off + m) ?s1 = (s', NextRead)"
      "length (concat (delivered s')) = length (concat (delivered s)) + (m + fst (kept ?p ms g))"
      "fwd_rng s' = snd (kept ?p ms g)" "takes c (fwd_answers s')"
      "length ans \<le> length (fwd_answers s') + length ms" by auto
    with False a show ?thesis unfolding eq kp by simp
  qed
qed

lemma read_loop_pieces:
  assumes "lossy c k" and "\<forall>b \<in> set bufs. b \<noteq> []" and "ms = concat (map (\<lambda>b. pieces c (length b)) bufs)"
    and "takes c (fwd_answers s)" and "length ms \<le> length (fwd_answers s)"
  shows "\<exists>s'. read_loop (map (\<lambda>b. (k, b)) bufs) s = Some s'
    \<and> length (concat (delivered s')) = length (concat (delivered s)) + fst (kept (loss_prob k) ms (fwd_rng s))"
  using assms(2-)
proof (induction bufs arbitrary: ms s)
  case Nil
  then show ?case by simp
next
  case (Cons b bufs)
  let ?m1 = "pieces c (length b)" and ?m2 = "concat (map (\<lambda>b. pieces c (length b)) bufs)"
  have ms: "ms = ?m1 @ ?m2" using Cons.prems(2) by simp
  from chunk_loop_pieces [OF assms(1), of ?m1 b 0 s] Cons.prems(3,4) ms obtain s1 where s1:
    "chunk_loop k b 0 s = (s1, NextRead)"
    "length (concat (delivered s1)) = length (concat (delivered s)) + fst (kept (loss_prob k) ?m1 (fwd_rng s))"
    "fwd_rng s1 = snd (kept (loss_prob k) ?m1 (fwd_rng s))"
    "takes c (fwd_answers s1)" "length (fwd_answers s) \<le> length (fwd_answers s1) + length ?m1"
    by auto
  have "length ?m2 \<le> length (fwd_answers s1)" using s1(5) Cons.prems(4) ms by simp
  from Cons.IH [OF _ refl s1(4) this] Cons.prems(1) obtain s2 where s2:
    "read_loop (map (\<lambda>b. (k, b)) bufs) s1 = Some s2"
    "length (concat (delivered s2)) = length (concat (delivered s1)) + fst (kept (loss_prob k) ?m2 (fwd_rng s1))"
    by auto
  have "fst (kept (loss_prob k) ms (fwd_rng s)) =
      fst (kept (loss_prob k) ?m1 (fwd_rng s)) + fst (kept (loss_prob k) ?m2 (fwd_rng s1))"
    unfolding ms kept_append s1(3) by (simp add: split_def Let_def)
  with s1 s2 Cons.prems(1) show ?case by simp
qed

text \<open>A link with loss hands on the chunks that survive.\<close>

lemma forwarded_lossy:
  assumes "lossy c (knobs I)" and "list_all (\<lambda>n. 0 < n \<and> n \<le> 4096) (lw_cuts w)"
    and "takes c (lw_fwd w)" and "length bs \<le> length (lw_fwd w)"
  shows "\<exists>got. forwarded I w bs = Some got
    \<and> length got = gets_through (loss_prob (knobs I)) c (lw_cuts w) (length bs) (rng_a I)"
proof -
  let ?bufs = "cut (lw_cuts w) bs"
  let ?ms = "concat (map (\<lambda>b. pieces c (length b)) ?bufs)"
  let ?s = "\<lparr>delivered = [], fwd_acts = [], fwd_rng = rng_a I, fwd_answers = lw_fwd w\<rparr>"
  have ms: "?ms = concat (map (pieces c) (read_sizes (lw_cuts w) (length bs)))"
    by (simp only: cut_lengths [OF assms(2), symmetric] map_map comp_def)
  have len: "length (concat (map (pieces c) xs)) \<le> sum_list xs" for xs
    by (induction xs) (simp_all add: add_mono length_pieces)
  have "length ?ms \<le> length (lw_fwd w)"
    unfolding ms using len sum_read_sizes assms(4) by (meson le_trans)
  from read_loop_pieces [OF assms(1) _ refl, of ?bufs ?s] this assms(3) cut_nonempty obtain s' where
    "read_loop (map (\<lambda>b. (knobs I, b)) ?bufs) ?s = Some s'"
    "length (concat (delivered s')) = fst (kept (loss_prob (knobs I)) ?ms (rng_a I))"
    by auto
  then show ?thesis by (auto simp: forwarded_def forward_fn_def gets_through_def ms)
qed

section \<open>Readers\<close>

text \<open>A turn of a reading loop in which nothing goes wrong.\<close>

definition eager :: "int \<times> answer \<Rightarrow> bool" where
  "eager t \<longleftrightarrow> 0 < fst t \<and> (case snd t of Moves k \<Rightarrow> True | Fails e \<Rightarrow> False)"

lemma eagerE:
  assumes "eager t"
  obtains pr k where "t = (pr, Moves k)" and "0 < pr"
  using assms by (cases t; cases "snd t") (auto simp: eager_def)


definition demo_link :: link_world where
  "demo_link = \<lparr>lw_sp1 = Some (3, 4), lw_sp2 = Some (5, 6), lw_mem = True, lw_t1 = True, lw_t2 = True,
     lw_cuts = [1600, 4096], lw_fwd = replicate 5000 (Moves 4096)\<rparr>"

end
