(* ===== verification/Scen_Network.thy ===== *)
theory Scen_Network
  imports Net_Link
begin

text \<open>
  The scenarios of \<open>src/scenarios/network\<close>. The first two talk through a pair of
  \<open>Chaos_Net\<close>: the main thread writes, the forwarder reads what was written in pieces the kernel
  chooses, drops and cuts it, and the main thread reads what comes out, again in pieces the kernel
  chooses. The third uses a plain pair of sockets and a peer that closes its end: a step relation
  of the two threads over the socket.
\<close>

section \<open>packet_loss.c\<close>

text \<open>The loss is the double next to 0.30.\<close>

definition pl_knobs :: chaos_net_knobs_t where
  "pl_knobs = \<lparr>loss_prob = 5404319552844595 / 2 ^ 54, delay_min_ns = 0, delay_max_ns = 0, max_chunk_bytes = 16\<rparr>"

text \<open>The bytes the hundred writes of 16 bytes get into the socket.\<close>

definition pl_sent :: "(nat \<Rightarrow> answer) \<Rightarrow> nat" where
  "pl_sent kern =
     fold (\<lambda>i sent. case kern i of Moves m \<Rightarrow> sent + min m 16 | Fails e \<Rightarrow> sent) [0..<100] 0"

text \<open>
  The receiving loop with its buffer of 256 bytes; a turn is what \<open>poll\<close> returns and the answer
  to the \<open>read\<close> after it. \<open>None\<close> is a loop that is still waiting.
\<close>

fun pl_recv :: "(int \<times> answer) list \<Rightarrow> u8 list \<Rightarrow> int \<Rightarrow> int option" where
  "pl_recv [] inp received = None"
| "pl_recv ((pr, a) # turns) inp received =
     (if pr \<le> 0 then Some received
      else (case a of
              Fails e \<Rightarrow> Some received
            | Moves k \<Rightarrow>
                (let r = read_count k 256 inp
                 in if r = 0 then Some received else pl_recv turns (drop r inp) (received + int r))))"

definition em_dash :: string where
  "em_dash = [CHR 0xE2, CHR 0x80, CHR 0x94]"

text \<open>\<open>pct lost sent\<close> is \<open>100.0 * lost / sent\<close> with one decimal.\<close>

definition pl_run ::
    "(int \<Rightarrow> int \<Rightarrow> string) \<Rightarrow> u64 \<Rightarrow> link_world \<Rightarrow> (nat \<Rightarrow> answer) \<Rightarrow> (int \<times> answer) list \<Rightarrow> run_result"
where
  "pl_run pct seed w kern turns =
     (case open_link pl_knobs seed w of
        None \<Rightarrow> Some ([ev_fault ''chaos_net_pair failed''], Returns 1)
      | Some I \<Rightarrow> do {
          let sent = int (pl_sent kern);
          got \<leftarrow> forwarded I w (replicate (pl_sent kern) (of_char CHR ''X''));
          received \<leftarrow> pl_recv turns got 0;
          Some
            ([ev_phase ''sending 100 x 16-byte messages with 30% chunk loss'',
              ev_expect ''bytes_received'' (of_int (100 * 16)),
              ev_count ''bytes_sent'' (of_int sent),
              ev_phase ''receiving (200ms idle timeout per read)'',
              ev_actual ''bytes_received'' (of_int received),
              ev_log (''lost '' @ show_int (sent - received) @ '' of '' @ show_int sent @ '' bytes (''
                @ (if sent > 0 then pct (sent - received) sent else ''0.0'') @ ''%)''),
              ev_log (''with TCP this NEVER happens '' @ em_dash @ '' the kernel retransmits.''),
              ev_log ''with UDP, this is exactly your day-to-day reality.''],
             Returns 0)
        })"

section \<open>partial_read.c\<close>

definition pr_knobs :: chaos_net_knobs_t where
  "pr_knobs = \<lparr>loss_prob = 0, delay_min_ns = 0, delay_max_ns = 0, max_chunk_bytes = 17\<rparr>"

text \<open>The calls so far, the bytes so far and the lines about the first ten calls.\<close>

fun pr_loop ::
    "(int \<times> answer) list \<Rightarrow> u8 list \<Rightarrow> nat \<Rightarrow> nat \<Rightarrow> pg_event_t list \<Rightarrow> (nat \<times> nat \<times> pg_event_t list) option"
where
  "pr_loop turns inp calls tot logs =
     (if tot < 4096
      then (case turns of
              [] \<Rightarrow> None
            | (pr, a) # turns \<Rightarrow>
                if pr \<le> 0 then Some (calls, tot, logs)
                else (case a of
                        Fails e \<Rightarrow> Some (calls, tot, logs)
                      | Moves k \<Rightarrow>
                          (let r = read_count k (4096 - tot) inp
                           in if r = 0 then Some (calls, tot, logs)
                              else
                                (let calls = calls + 1;
                                     tot = tot + r
                                 in pr_loop turns (drop r inp) calls tot
                                      (if calls \<le> 10
                                       then logs @ [ev_log (''  read() #'' @ show_nat calls @ '' returned ''
                                              @ show_nat r @ ''  (cum '' @ show_nat tot @ '')'')]
                                       else logs)))))
      else Some (calls, tot, logs))"

declare pr_loop.simps [simp del]

definition pr_run :: "u64 \<Rightarrow> link_world \<Rightarrow> answer \<Rightarrow> (int \<times> answer) list \<Rightarrow> run_result" where
  "pr_run seed w wr turns =
     (case open_link pr_knobs seed w of
        None \<Rightarrow> Some ([ev_fault ''chaos_net_pair failed''], Returns 1)
      | Some I \<Rightarrow> do {
          let n = (case wr of Moves m \<Rightarrow> int (min m 4096) | Fails e \<Rightarrow> -1);
          got \<leftarrow> forwarded I w (replicate (nat n) (of_char CHR ''A''));
          (calls, tot, logs) \<leftarrow> pr_loop turns got 0 0 [];
          Some
            ([ev_phase ''sender writes 4096 bytes in ONE call'',
              ev_log (''  write() returned '' @ show_int n),
              ev_phase ''receiver loops on read(); naive code assumes one read suffices'',
              ev_expect ''read_calls'' 1]
             @ logs
             @ (if calls > 10 then [ev_log (''  ... (suppressed; '' @ show_nat calls @ '' calls total)'')] else [])
             @ [ev_actual ''read_calls'' (of_nat calls),
                ev_log (''needed '' @ show_nat calls @ '' read() calls to receive '' @ show_nat tot @ '' bytes''),
                ev_log (''naive '' @ [CHR 0x60] @ ''read(fd, buf, 4096)'' @ [CHR 0x60]
                  @ '' would return ~17 and silently truncate your message.'')],
             Returns 0)
        })"

section \<open>connection_reset.c\<close>

text \<open>
  Where the peer is, by what it does next, with what its one \<open>read\<close> returned; \<open>NoPeer\<close> is a thread
  that could not be made.
\<close>

datatype peer_pc = PeerReads | PeerSaysRead int | PeerSleeps int | PeerSaysClosed int | PeerGone int | NoPeer

text \<open>
  The main thread: announcing the loop, before the write of an iteration, after a write that
  returned -1, or joining.
\<close>

datatype cr_pc = Announces | Writing nat | WriteFailed nat errno | JoinsPeer | CrEnded "int outcome"

text \<open>
  \<open>cr_queue\<close> are the bytes the peer could still read, \<open>cr_closed\<close> whether it has closed its end,
  \<open>cr_ignores\<close> whether \<open>SIGPIPE\<close> is ignored.
\<close>

record cr_state =
  cr_at :: cr_pc
  cr_peer :: peer_pc
  cr_queue :: nat
  cr_closed :: bool
  cr_ignores :: bool
  cr_total :: int
  cr_errors :: int
  cr_first_iter :: int
  cr_first_errno :: int
  cr_out :: "pg_event_t list"

text \<open>
  The call up to the loop. \<open>sock\<close> is what \<open>socketpair\<close> returns, \<open>th\<close> whether the thread was made.
  The disposition of \<open>SIGPIPE\<close> is the default until \<open>signal\<close> sets it.
\<close>

definition cr_start :: "(int \<times> int) option \<Rightarrow> bool \<Rightarrow> cr_state" where
  "cr_start sock th =
     (let s = \<lparr>cr_at = Announces, cr_peer = NoPeer, cr_queue = 0, cr_closed = False, cr_ignores = False,
                cr_total = 0, cr_errors = 0, cr_first_iter = -1, cr_first_errno = 0, cr_out = []\<rparr>
      in case sock of
           None \<Rightarrow> s\<lparr>cr_out := [ev_fault ''socketpair failed''], cr_at := CrEnded (Returns 1)\<rparr>
         | Some (my_fd, peer_fd) \<Rightarrow>
             (let s = s\<lparr>cr_ignores := True\<rparr>;
                  s = s\<lparr>cr_out := [ev_phase ''spawning peer; it will read once then close after 30 ms'']\<rparr>
              in s\<lparr>cr_peer := (if th then PeerReads else NoPeer)\<rparr>))"

definition cr_running :: "cr_state \<Rightarrow> bool" where
  "cr_running s \<longleftrightarrow> (case cr_at s of CrEnded r \<Rightarrow> False | _ \<Rightarrow> True)"

definition cr_says :: "cr_state \<Rightarrow> pg_event_t list \<Rightarrow> cr_state" where
  "cr_says s evs = s\<lparr>cr_out := cr_out s @ evs\<rparr>"

text \<open>What the loop does about a write that returned -1 in iteration \<open>i\<close>.\<close>

definition cr_error :: "(errno \<Rightarrow> string) \<Rightarrow> nat \<Rightarrow> errno \<Rightarrow> cr_state \<Rightarrow> cr_state" where
  "cr_error serr i e s =
     (let s = (if cr_first_iter s < 0
               then cr_says (s\<lparr>cr_first_iter := int i, cr_first_errno := errno_number e\<rparr>)
                      [ev_log (''first write error at iter '' @ show_int (int i) @ '': errno=''
                        @ show_int (errno_number e) @ '' ('' @ serr e @ '')'')]
               else s);
          s = s\<lparr>cr_errors := cr_errors s + 1\<rparr>
      in s\<lparr>cr_at := (if cr_errors s \<ge> 3 then JoinsPeer else Writing (i + 1))\<rparr>)"

definition cr_report :: "cr_state \<Rightarrow> pg_event_t list" where
  "cr_report s =
     [ev_actual ''bytes_before_reset'' (of_int (cr_total s)),
      ev_actual ''first_error_iter'' (of_int (cr_first_iter s)),
      ev_count ''write_errors'' (of_int (cr_errors s)),
      ev_log (''wrote '' @ show_int (cr_total s) @ '' bytes before peer close; ''
        @ show_int (cr_errors s) @ '' write errors'')]
     @ (if cr_first_errno s = errno_number EPIPE
        then [ev_log (''EPIPE = peer'' @ [CHR 0x27] @ ''s read side is gone. Without SIGPIPE-ignore,''),
              ev_log ''this would have killed the process before write() returned.'']
        else [])"

text \<open>
  The steps of the two threads. A \<open>write\<close> to a peer that is there moves at least one byte, as many
  as the kernel likes; to a peer that has closed it raises \<open>SIGPIPE\<close>, which ends the process
  unless it is ignored, and then fails with \<open>EPIPE\<close>. A \<open>write\<close> that still waits for room when
  the peer closes with bytes unread fails with \<open>ECONNRESET\<close>, without a signal. A \<open>read\<close> gets what
  is there or fails.
\<close>

inductive cr_step :: "(errno \<Rightarrow> string) \<Rightarrow> cr_state \<Rightarrow> cr_state \<Rightarrow> bool" for serr where
  announces: "cr_at s = Announces
    \<Longrightarrow> cr_step serr s (cr_says (s\<lparr>cr_at := Writing 0\<rparr>)
          [ev_phase ''main thread writes 4KB chunks until something breaks''])"
| write_moves: "cr_at s = Writing i \<Longrightarrow> i < 1000 \<Longrightarrow> \<not> cr_closed s \<Longrightarrow> 0 < m \<Longrightarrow> m \<le> 4096
    \<Longrightarrow> cr_step serr s (s\<lparr>cr_at := Writing (i + 1), cr_total := cr_total s + int m, cr_queue := cr_queue s + m\<rparr>)"
| write_refused: "cr_at s = Writing i \<Longrightarrow> i < 1000 \<Longrightarrow> cr_closed s \<Longrightarrow> cr_ignores s
    \<Longrightarrow> cr_step serr s (s\<lparr>cr_at := WriteFailed i EPIPE\<rparr>)"
| write_kills: "cr_at s = Writing i \<Longrightarrow> i < 1000 \<Longrightarrow> cr_closed s \<Longrightarrow> \<not> cr_ignores s
    \<Longrightarrow> cr_step serr s (s\<lparr>cr_at := CrEnded (DiesOf SIGPIPE)\<rparr>)"
| counts: "cr_at s = WriteFailed i e \<Longrightarrow> cr_step serr s (cr_error serr i e s)"
| leaves: "cr_at s = Writing i \<Longrightarrow> \<not> i < 1000 \<Longrightarrow> cr_step serr s (s\<lparr>cr_at := JoinsPeer\<rparr>)"
| joins_peer: "cr_at s = JoinsPeer \<Longrightarrow> cr_peer s = PeerGone r
    \<Longrightarrow> cr_step serr s (cr_says (s\<lparr>cr_at := CrEnded (Returns 0)\<rparr>) (cr_report s))"
| peer_reads: "cr_running s \<Longrightarrow> cr_peer s = PeerReads \<Longrightarrow> 0 < n \<Longrightarrow> n \<le> 4096 \<Longrightarrow> n \<le> cr_queue s
    \<Longrightarrow> cr_step serr s (s\<lparr>cr_peer := PeerSaysRead (int n), cr_queue := cr_queue s - n\<rparr>)"
| peer_read_fails: "cr_running s \<Longrightarrow> cr_peer s = PeerReads
    \<Longrightarrow> cr_step serr s (s\<lparr>cr_peer := PeerSaysRead (-1)\<rparr>)"
| peer_says: "cr_running s \<Longrightarrow> cr_peer s = PeerSaysRead r
    \<Longrightarrow> cr_step serr s (cr_says (s\<lparr>cr_peer := PeerSleeps r\<rparr>)
          [ev_log (''peer received '' @ show_int r @ '' bytes; closing connection in '' @ show_int 30 @ '' ms'')])"
| peer_closes: "cr_running s \<Longrightarrow> cr_peer s = PeerSleeps r
    \<Longrightarrow> cr_step serr s (s\<lparr>cr_peer := PeerSaysClosed r, cr_closed := True\<rparr>)"
| peer_resets: "cr_at s = Writing i \<Longrightarrow> i < 1000 \<Longrightarrow> cr_peer s = PeerSleeps r \<Longrightarrow> 0 < cr_queue s
    \<Longrightarrow> cr_step serr s (s\<lparr>cr_peer := PeerSaysClosed r, cr_closed := True, cr_at := WriteFailed i ECONNRESET\<rparr>)"
| peer_ends: "cr_running s \<Longrightarrow> cr_peer s = PeerSaysClosed r
    \<Longrightarrow> cr_step serr s (cr_says (s\<lparr>cr_peer := PeerGone r\<rparr>) [ev_log ''peer closed''])"

text \<open>
  The result of a run that has ended in \<open>s\<close>. Without a peer there is none: \<open>pthread_join\<close> is then
  called on a handle that was never set.
\<close>

definition cr_result :: "cr_state \<Rightarrow> run_result" where
  "cr_result s = (case cr_at s of CrEnded r \<Rightarrow> Some (cr_out s, r) | _ \<Rightarrow> None)"

section \<open>The descriptors\<close>

definition packet_loss_scen :: "(int \<Rightarrow> int \<Rightarrow> string) \<Rightarrow> link_world \<Rightarrow> (nat \<Rightarrow> answer) \<Rightarrow> (int \<times> answer) list \<Rightarrow> unit pg_scenario_t" where
  "packet_loss_scen pct w kern turns =
    \<lparr>sc_id = ''packet_loss'',
      sc_title = ''Network: 30% packet loss'',
      sc_one_liner = ''100 msgs of 16B, proxy drops chunks'',
      sc_description = ''Sends 100 messages through a chaos proxy that drops 30% of chunks. Demonstrates byte-level loss in a stream.'',
      sc_expected = ''received < sent; ~30% of bytes vanish'',
      sc_lesson = Some (join_lines
       [''Why TCP doesn't show this: the kernel retransmits dropped segments'',
        ''invisibly. You never see the loss as an application. With UDP, the'',
        ''loss is your reality -- you must build retries, sequence numbers,'',
        ''and timeouts on top of it.'',
        [],
        ''Fixes / context:'',
        ''  - Use TCP unless you have a reason not to.'',
        ''  - Build a reliability layer (sequence + ack + retry) on UDP.'',
        ''  - QUIC packages all of that for you (HTTP/3 runs on it).'',
        ''  - For real-time work where retransmits are too slow (audio,'',
        ''    games), accept loss and design around it (FEC, interpolation).'']),
      sc_category = PG_CAT_NETWORK,
      sc_init = None,
      sc_run = (\<lambda>st c. play_run (pl_run pct (pg_runctx_seed TheCtx c) w kern turns) c),
      sc_teardown = None,
      sc_explain = None\<rparr>"

definition partial_read_scen :: "link_world \<Rightarrow> answer \<Rightarrow> (int \<times> answer) list \<Rightarrow> unit pg_scenario_t" where
  "partial_read_scen w wr turns =
    \<lparr>sc_id = ''partial_read'',
      sc_title = ''Network: short reads'',
      sc_one_liner = ''writer sends 4KB; reader gets it 17B at a time'',
      sc_description = (''Demonstrates how a single write() arrives as many short reads '' @ [CHR 0xE2, CHR 0x80, CHR 0x94] @ '' the bug that breaks naive socket code.''),
      sc_expected = ''expected: 1 read call; actual: hundreds'',
      sc_lesson = Some (join_lines
       [''Why this happens: TCP/UNIX streams have NO message boundaries. A'',
        ''single write() of 4KB can arrive as 100 reads of varying sizes.'',
        ''The kernel coalesces and splits as it sees fit. Code that assumes'',
        ''one read() = one message silently truncates data, or worse, treats'',
        ''the next message's bytes as a continuation.'',
        [],
        ''Fixes:'',
        ''  - ALWAYS loop on read() until you have the full expected length.'',
        ''  - Use a length-prefix framing protocol (write 4-byte length'',
        ''    followed by N bytes of payload).'',
        ''  - Or use SOCK_SEQPACKET / message-oriented sockets.'',
        ''  - Higher-level libraries (gRPC, HTTP) handle framing for you.'']),
      sc_category = PG_CAT_NETWORK,
      sc_init = None,
      sc_run = (\<lambda>st c. play_run (pr_run (pg_runctx_seed TheCtx c) w wr turns) c),
      sc_teardown = None,
      sc_explain = None\<rparr>"

definition connection_reset_scen :: "cr_state \<Rightarrow> unit pg_scenario_t" where
  "connection_reset_scen s =
    \<lparr>sc_id = ''connection_reset'',
      sc_title = ''Peer disappears mid-stream'',
      sc_one_liner = ''peer closes after 30ms; we keep writing'',
      sc_description = ''Demonstrates write returning EPIPE when the peer closes the connection mid-stream.'',
      sc_expected = ''first writes succeed; later writes return -1 with EPIPE'',
      sc_lesson = Some (join_lines
       [(''Why this happens: TCP/UNIX peers vanish at any time '' @ [CHR 0xE2, CHR 0x80, CHR 0x94] @ '' process crash,''),
        ''network partition, idle timeout. write() returns EPIPE; read() returns'',
        ''0 (EOF) potentially mid-message.'',
        [],
        ''Fixes:'',
        ''  - signal(SIGPIPE, SIG_IGN) so write returns -1 instead of killing'',
        ''    the process.'',
        ''  - Always check return values; treat EOF mid-message as an error,'',
        ''    not a successful read.'',
        ''  - Use heartbeats / keepalives to detect dead peers proactively.'']),
      sc_category = PG_CAT_NETWORK,
      sc_init = None,
      sc_run = (\<lambda>st c. play_run (cr_result s) c),
      sc_teardown = None,
      sc_explain = None\<rparr>"

section \<open>The receiving loops\<close>

text \<open>A reader that keeps on reading gets everything there is, then times out or sees the end.\<close>

lemma pl_recv_drains:
  assumes "list_all eager ts" and "length inp \<le> length ts" and "pr \<le> 0"
  shows "pl_recv (ts @ [(pr, a)]) inp received = Some (received + int (length inp))"
  using assms(1,2)
proof (induction ts arbitrary: inp received)
  case Nil
  with assms(3) show ?case by simp
next
  case (Cons t ts)
  then obtain p k where t: "t = (p, Moves k)" "0 < p" by (auto elim: eagerE)
  let ?r = "read_count k 256 inp"
  show ?case
  proof (cases "inp = []")
    case True
    with t show ?thesis by (simp add: read_count_def)
  next
    case False
    then have "0 < ?r" "?r \<le> length inp"
      using read_count_bounds(2) [of k 256 inp] read_count_bounds(3) [of 256 k inp] by auto
    with Cons.IH [of "drop ?r inp" "received + int ?r"] Cons.prems t show ?thesis by (simp add: Let_def)
  qed
qed

lemma pl_sent_full:
  assumes "\<And>i. 16 \<le> gives (kern i)"
  shows "pl_sent kern = 1600"
proof -
  have "fold (\<lambda>i sent. case kern i of Moves m \<Rightarrow> sent + min m 16 | Fails e \<Rightarrow> sent) [0..<n] 0 = 16 * n" for n
  proof (induction n)
    case (Suc n)
    then show ?case using assms [of n] by (cases "kern n") simp_all
  qed simp
  then show ?thesis by (simp add: pl_sent_def del: upt_rec_numeral)
qed

section \<open>Properties\<close>

text \<open>
  C14: the loss is a function of the seed and of the reads. When the link is made and the kernel
  takes whole messages from the sender and whole fragments from the proxy, then however the
  forwarder's reads of at most 4096 bytes and the reader's reads are cut, the scenario reports 1600
  bytes sent and, as received, those of the fragments whose draw from the seeded generator of that
  direction is not below 0.30, one draw for each fragment: a read is cut into fragments of 16 bytes
  and a rest. When every read ends with a message these are 16 bytes for each of the first hundred
  draws that is not below the probability.
\<close>

theorem packet_loss_follows_seed:
  fixes seed :: u64
  assumes "lw_sp1 w = Some (u1, p1)" and "lw_sp2 w = Some (p2, u2)" and "lw_mem w" and "lw_t1 w" and "lw_t2 w"
    and "\<And>i. 16 \<le> gives (kern i)"
    and "list_all (\<lambda>n. 0 < n \<and> n \<le> 4096) (lw_cuts w)"
    and "list_all (\<lambda>a. 16 \<le> gives a) (lw_fwd w)" and "1600 \<le> length (lw_fwd w)"
    and "list_all eager ts" and "1600 \<le> length ts" and "pr \<le> 0"
  defines "p \<equiv> 5404319552844595 / 2 ^ 54" and "rng \<equiv> pg_xosh_seed (seed XOR 0xA1A1A1A1A1A1A1A1)"
  defines "n \<equiv> fst (kept p (concat (map (pieces 16) (read_sizes (lw_cuts w) 1600))) rng)"
  shows "(\<exists>evs. pl_run pct seed w kern (ts @ [(pr, a)]) = Some (evs, Returns 0) \<and> length evs = 8
      \<and> evs ! 1 = ev_expect ''bytes_received'' 1600 \<and> evs ! 2 = ev_count ''bytes_sent'' 1600
      \<and> evs ! 4 = ev_actual ''bytes_received'' (of_nat n)) \<and> n \<le> 1600
    \<and> (list_all (\<lambda>c. 16 dvd c) (lw_cuts w) \<and> 1600 \<le> sum_list (lw_cuts w) \<longrightarrow> n = 16 * survivors p 100 rng)"
proof -
  let ?I = "\<lparr>proxy_a = p1, proxy_b = p2, knobs = pl_knobs, rng_a = pg_xosh_seed (seed XOR 0xA1A1A1A1A1A1A1A1),
      rng_b = pg_xosh_seed (seed XOR 0xB2B2B2B2B2B2B2B2)\<rparr>"
  let ?bs = "replicate 1600 (of_char CHR ''X'') :: u8 list"
  have lossy: "lossy 16 pl_knobs" by (simp add: lossy_def pl_knobs_def)
  have knobs: "loss_prob pl_knobs = p" by (simp add: pl_knobs_def p_def)
  have n_eq: "n = gets_through p 16 (lw_cuts w) 1600 rng" by (simp only: n_def gets_through_def)
  obtain got where got: "forwarded ?I w ?bs = Some got" "length got = n"
    using forwarded_lossy [of 16 ?I w ?bs] lossy assms(7-9) by (auto simp: n_eq knobs takes_def rng_def)
  have n: "n \<le> 1600" unfolding n_eq by (rule gets_through_le) simp
  have "pl_recv (ts @ [(pr, a)]) got 0 = Some (int n)"
    using pl_recv_drains [OF assms(10) _ assms(12), of got a 0] got(2) n assms(11) by simp
  with got(1) have "\<exists>evs. pl_run pct seed w kern (ts @ [(pr, a)]) = Some (evs, Returns 0) \<and> length evs = 8
      \<and> evs ! 1 = ev_expect ''bytes_received'' 1600 \<and> evs ! 2 = ev_count ''bytes_sent'' 1600
      \<and> evs ! 4 = ev_actual ''bytes_received'' (of_nat n)"
    by (simp add: pl_run_def open_link_ok [OF assms(1-5)] pl_sent_full [OF assms(6)] Let_def)
  moreover have "n = 16 * survivors p 100 rng" if "list_all (\<lambda>c. 16 dvd c) (lw_cuts w)" "1600 \<le> sum_list (lw_cuts w)"
    using gets_through_aligned [of 16 "lw_cuts w" 100 p rng] that by (simp add: n_eq)
  ultimately show ?thesis using n by blast
qed

theorem packet_loss_follows_seed_witness:
  "(\<exists>evs. pl_run (\<lambda>l s. []) 42 demo_link (\<lambda>i. Moves 16) (replicate 1600 (1, Moves 9) @ [(0, Moves 0)]) = Some (evs, Returns 0)
      \<and> evs ! 4 = ev_actual ''bytes_received''
          (of_nat (16 * survivors (5404319552844595 / 2 ^ 54) 100 (pg_xosh_seed (42 XOR 0xA1A1A1A1A1A1A1A1)))))
    \<and> (\<exists>evs n. pl_run (\<lambda>l s. []) 42 (demo_link\<lparr>lw_cuts := replicate 160 10\<rparr>) (\<lambda>i. Moves 16)
          (replicate 1600 (1, Moves 9) @ [(0, Moves 0)]) = Some (evs, Returns 0)
      \<and> evs ! 4 = ev_actual ''bytes_received'' (of_nat n) \<and> n \<le> 1600)"
proof -
  let ?w = "demo_link\<lparr>lw_cuts := replicate 160 10\<rparr>"
  have ok: "list_all eager (replicate 1600 (1, Moves 9))" "list_all (\<lambda>a. 16 \<le> gives a) (replicate 5000 (Moves 4096))"
    "list_all (\<lambda>n. 0 < n \<and> n \<le> 4096) (replicate 160 (10 :: nat))"
    by (simp_all add: list_all_iff eager_def)
  have d: "lw_sp1 demo_link = Some (3, 4)" "lw_sp2 demo_link = Some (5, 6)" "lw_mem demo_link" "lw_t1 demo_link"
    "lw_t2 demo_link" "lw_fwd demo_link = replicate 5000 (Moves 4096)" by (simp_all add: demo_link_def)
  then have e: "lw_sp1 ?w = Some (3, 4)" "lw_sp2 ?w = Some (5, 6)" "lw_mem ?w" "lw_t1 ?w" "lw_t2 ?w"
    "lw_fwd ?w = replicate 5000 (Moves 4096)" by simp_all
  note loss = packet_loss_follows_seed [of _ 3 4 5 6 "\<lambda>i. Moves 16" "replicate 1600 (1, Moves 9)" 0 "\<lambda>l s. []" 42 "Moves 0"]
  have cuts: "lw_cuts demo_link = [1600, 4096]" "lw_cuts ?w = replicate 160 10" by (simp_all add: demo_link_def)
  have "list_all (\<lambda>c. 16 dvd c) (lw_cuts demo_link) \<and> 1600 \<le> sum_list (lw_cuts demo_link)"
    "list_all (\<lambda>n. 0 < n \<and> n \<le> 4096) (lw_cuts demo_link)" by (simp_all add: cuts)
  note whole = this
  have big: "16 \<le> gives (Moves 16)" "1600 \<le> length (replicate 5000 (Moves 4096))"
    "1600 \<le> length (replicate 1600 (1 :: int, Moves 9))" "(0 :: int) \<le> 0" by simp_all
  note one = loss [of demo_link, unfolded d(6), OF d(1-5) big(1) whole(2) ok(2) big(2) ok(1) big(3,4)]
  note two = loss [of ?w, unfolded e(6) cuts(2), OF e(1-5) big(1) ok(3,2) big(2) ok(1) big(3,4)]
  from one whole(1) two show ?thesis by metis
qed





section \<open>The connection that goes away\<close>

text \<open>
  The lines the two threads have emitted so far; \<open>n\<close> writes went through, \<open>e\<close> failed, the first
  of these with \<open>x\<close>.
\<close>

definition cr_main_lines :: "(errno \<Rightarrow> string) \<Rightarrow> nat \<Rightarrow> nat \<Rightarrow> errno \<Rightarrow> pg_event_t list" where
  "cr_main_lines serr n e x =
     ev_phase ''main thread writes 4KB chunks until something breaks'' #
     (if e = 0 then [] else
        [ev_log (''first write error at iter '' @ show_int (int n) @ '': errno='' @ show_int (errno_number x)
          @ '' ('' @ serr x @ '')'')])"

definition cr_peer_lines :: "int \<Rightarrow> pg_event_t list" where
  "cr_peer_lines r =
     [ev_log (''peer received '' @ show_int r @ '' bytes; closing connection in 30 ms''), ev_log ''peer closed'']"

fun peer_said :: "peer_pc \<Rightarrow> pg_event_t list" where
  "peer_said (PeerSleeps r) = take 1 (cr_peer_lines r)"
| "peer_said (PeerSaysClosed r) = take 1 (cr_peer_lines r)"
| "peer_said (PeerGone r) = cr_peer_lines r"
| "peer_said _ = []"

fun has_closed :: "peer_pc \<Rightarrow> bool" where
  "has_closed (PeerSaysClosed r) = True"
| "has_closed (PeerGone r) = True"
| "has_closed _ = False"

text \<open>Two threads that emit: each one's lines in their order, and nothing else.\<close>

definition mixes :: "'a list \<Rightarrow> 'a list \<Rightarrow> 'a list \<Rightarrow> bool" where
  "mixes xs ys zs \<longleftrightarrow> subseq xs zs \<and> subseq ys zs \<and> length zs = length xs + length ys"

lemma mixes_snoc:
  "mixes xs ys zs \<Longrightarrow> mixes (xs @ [x]) ys (zs @ [x])" "mixes xs ys zs \<Longrightarrow> mixes xs (ys @ [x]) (zs @ [x])"
  by (simp_all add: mixes_def subseq_rev_drop_many)

text \<open>What a write to a peer that goes away can fail with.\<close>

abbreviation cut_off :: "errno set" where
  "cut_off \<equiv> {EPIPE, ECONNRESET}"

text \<open>Where the main thread can be when \<open>n\<close> writes have gone through and \<open>e\<close> have failed.\<close>

fun cr_where :: "cr_pc \<Rightarrow> nat \<Rightarrow> nat \<Rightarrow> bool" where
  "cr_where Announces n e \<longleftrightarrow> n = 0 \<and> e = 0"
| "cr_where (Writing i) n e \<longleftrightarrow> i = n + e \<and> i \<le> 1000 \<and> e < 3"
| "cr_where (WriteFailed i x) n e \<longleftrightarrow> i = n + e \<and> i < 1000 \<and> e < 3 \<and> x \<in> cut_off"
| "cr_where JoinsPeer n e \<longleftrightarrow> n \<le> 1000 \<and> e = min 3 (1000 - n)"
| "cr_where (CrEnded r) n e \<longleftrightarrow> n \<le> 1000 \<and> e = min 3 (1000 - n) \<and> r = Returns 0"

fun just_failed :: "cr_pc \<Rightarrow> bool" where
  "just_failed (WriteFailed i x) = True"
| "just_failed _ = False"

text \<open>The counts, with the error \<open>x\<close> of the first write that failed, if there was one.\<close>

definition cr_book :: "nat \<Rightarrow> nat \<Rightarrow> errno \<Rightarrow> cr_state \<Rightarrow> bool" where
  "cr_book n e x s \<longleftrightarrow> cr_where (cr_at s) n e \<and> (0 < e \<or> just_failed (cr_at s) \<longrightarrow> cr_closed s)
     \<and> cr_errors s = int e \<and> cr_first_iter s = (if e = 0 then -1 else int n)
     \<and> x \<in> cut_off \<and> cr_first_errno s = (if e = 0 then 0 else errno_number x) \<and> int n \<le> cr_total s \<and> cr_total s \<le> 4096 * int n"

definition cr_told :: "(errno \<Rightarrow> string) \<Rightarrow> nat \<Rightarrow> nat \<Rightarrow> errno \<Rightarrow> cr_state \<Rightarrow> bool" where
  "cr_told serr n e x s \<longleftrightarrow> (\<exists>mid. mixes (if cr_at s = Announces then [] else cr_main_lines serr n e x) (peer_said (cr_peer s)) mid
     \<and> cr_out s = ev_phase ''spawning peer; it will read once then close after 30 ms'' # mid
         @ (if cr_running s then [] else cr_report s))"

definition cr_inv :: "(errno \<Rightarrow> string) \<Rightarrow> cr_state \<Rightarrow> bool" where
  "cr_inv serr s \<longleftrightarrow> cr_ignores s \<and> cr_closed s = has_closed (cr_peer s) \<and> cr_peer s \<noteq> NoPeer
     \<and> (cr_running s \<or> (\<exists>r. cr_peer s = PeerGone r))
     \<and> (\<exists>n e x. cr_book n e x s \<and> cr_told serr n e x s)"

text \<open>A step of the peer: its line, if it says one, and nothing else of the book.\<close>

lemma cr_inv_peer:
  assumes "cr_inv serr s" and "cr_running s" and "p \<noteq> NoPeer"
    and "has_closed (cr_peer s) \<longrightarrow> has_closed p" and "peer_said p = peer_said (cr_peer s) @ evs" and "length evs \<le> 1"
  shows "cr_inv serr (s\<lparr>cr_peer := p, cr_queue := q, cr_closed := has_closed p, cr_out := cr_out s @ evs\<rparr>)"
proof -
  let ?t = "s\<lparr>cr_peer := p, cr_queue := q, cr_closed := has_closed p, cr_out := cr_out s @ evs\<rparr>"
  obtain n e x where b: "cr_book n e x s" "cr_told serr n e x s" using assms(1) by (auto simp: cr_inv_def)
  have run: "cr_running ?t" using assms(2) by (simp add: cr_running_def)
  have "cr_book n e x ?t" using b(1) assms(1,4) by (auto simp: cr_book_def cr_inv_def)
  moreover obtain mid where mid: "mixes (if cr_at s = Announces then [] else cr_main_lines serr n e x) (peer_said (cr_peer s)) mid"
    "cr_out s = ev_phase ''spawning peer; it will read once then close after 30 ms'' # mid"
    using b(2) assms(2) by (auto simp: cr_told_def)
  have "evs = [] \<or> (\<exists>x. evs = [x])" using assms(6) by (cases evs) auto
  then have "mixes (if cr_at s = Announces then [] else cr_main_lines serr n e x) (peer_said p) (mid @ evs)"
    using mixes_snoc(2) [OF mid(1)] mid(1) assms(5) by auto
  with mid(2) run have "cr_told serr n e x ?t" by (auto simp: cr_told_def)
  ultimately show ?thesis
    using assms(1,3) run by (auto simp: cr_inv_def)
qed

text \<open>A step of the main thread that leaves the peer alone and ends nothing.\<close>

lemma cr_inv_main:
  assumes "cr_inv serr s" and "cr_peer t = cr_peer s" and "cr_closed t = cr_closed s" and "cr_ignores t = cr_ignores s"
    and "cr_running s" and "cr_running t" and "cr_at t \<noteq> Announces"
    and "\<And>n e x. cr_book n e x s \<Longrightarrow> \<exists>n' e' x' evs. cr_book n' e' x' t \<and> cr_out t = cr_out s @ evs \<and> length evs \<le> 1
        \<and> cr_main_lines serr n' e' x' = (if cr_at s = Announces then [] else cr_main_lines serr n e x) @ evs"
  shows "cr_inv serr t"
proof -
  obtain n e x where b: "cr_book n e x s" "cr_told serr n e x s" using assms(1) by (auto simp: cr_inv_def)
  obtain n' e' x' evs where t: "cr_book n' e' x' t" "cr_out t = cr_out s @ evs" "length evs \<le> 1"
    "cr_main_lines serr n' e' x' = (if cr_at s = Announces then [] else cr_main_lines serr n e x) @ evs"
    using assms(8) [OF b(1)] by blast
  obtain mid where mid: "mixes (if cr_at s = Announces then [] else cr_main_lines serr n e x) (peer_said (cr_peer s)) mid"
    "cr_out s = ev_phase ''spawning peer; it will read once then close after 30 ms'' # mid"
    using b(2) assms(5) by (auto simp: cr_told_def)
  have "evs = [] \<or> (\<exists>x. evs = [x])" using t(3) by (cases evs) auto
  then have "mixes (cr_main_lines serr n' e' x') (peer_said (cr_peer s)) (mid @ evs)"
    using mixes_snoc(1) [OF mid(1)] mid(1) t(4) by auto
  with mid(2) t(2) assms(2,6,7) have "cr_told serr n' e' x' t" by (auto simp: cr_told_def)
  with t(1) assms(1-6) show ?thesis by (auto simp: cr_inv_def)
qed

lemma cr_error_fields [simp]:
  "cr_peer (cr_error serr i e s) = cr_peer s" "cr_closed (cr_error serr i e s) = cr_closed s"
  "cr_ignores (cr_error serr i e s) = cr_ignores s" "cr_running (cr_error serr i e s)"
  "cr_at (cr_error serr i e s) \<noteq> Announces"
  by (simp_all add: cr_error_def cr_says_def cr_running_def Let_def)

lemma cr_error_book:
  assumes "cr_book n e x s" and "cr_at s = WriteFailed i y"
  defines "x' \<equiv> (if e = 0 then y else x)"
  shows "cr_book n (Suc e) x' (cr_error serr i y s) \<and> cr_out (cr_error serr i y s) = cr_out s
    @ (if e = 0 then [ev_log (''first write error at iter '' @ show_int (int n) @ '': errno=''
        @ show_int (errno_number y) @ '' ('' @ serr y @ '')'')] else [])"
  using assms(1,2) by (auto simp: cr_book_def cr_error_def cr_says_def x'_def Let_def)

lemma cr_inv_step:
  assumes "cr_step serr s t" and "cr_inv serr s"
  shows "cr_inv serr t"
  using assms(1)
proof cases
  case announces
  then show ?thesis
    by (intro cr_inv_main [OF assms(2)]) (force simp: cr_says_def cr_running_def cr_book_def cr_main_lines_def)+
next
  case (write_moves i m)
  show ?thesis
  proof (rule cr_inv_main [OF assms(2)])
    fix n e x assume b: "cr_book n e x s"
    then have "e = 0" using write_moves by (auto simp: cr_book_def)
    with b write_moves have "cr_book (Suc n) 0 x t" by (auto simp: cr_book_def)
    then show "\<exists>n' e' x' evs. cr_book n' e' x' t \<and> cr_out t = cr_out s @ evs \<and> length evs \<le> 1
        \<and> cr_main_lines serr n' e' x' = (if cr_at s = Announces then [] else cr_main_lines serr n e x) @ evs"
      using \<open>e = 0\<close> write_moves
      by (intro exI [of _ "Suc n"] exI [of _ 0] exI [of _ x] exI [of _ "[]"]) (simp add: cr_main_lines_def)
  qed (use write_moves in \<open>simp_all add: cr_running_def\<close>)
next
  case (write_refused i)
  then show ?thesis
    by (intro cr_inv_main [OF assms(2)]) (force simp: cr_running_def cr_book_def)+
next
  case (counts i y)
  show ?thesis
  proof (rule cr_inv_main [OF assms(2)])
    fix n e x assume b: "cr_book n e x s"
    from cr_error_book [OF b counts(2), of serr] counts
    show "\<exists>n' e' x' evs. cr_book n' e' x' t \<and> cr_out t = cr_out s @ evs \<and> length evs \<le> 1
        \<and> cr_main_lines serr n' e' x' = (if cr_at s = Announces then [] else cr_main_lines serr n e x) @ evs"
      by (intro exI [of _ n] exI [of _ "Suc e"] exI [of _ "if e = 0 then y else x"]) (auto simp: cr_main_lines_def)
  next
    show "cr_running s" using counts(2) by (simp add: cr_running_def)
  qed (simp_all add: counts(1))
next
  case (leaves i)
  show ?thesis
  proof (rule cr_inv_main [OF assms(2)])
    fix n e x assume b: "cr_book n e x s"
    have ne: "n + e = 1000" "e < 3" using b leaves(2,3) by (simp_all add: cr_book_def)
    then have "e = min 3 (1000 - n)" by arith
    with ne have "cr_where JoinsPeer n e" by simp
    with b leaves have "cr_book n e x t" by (simp add: cr_book_def)
    then show "\<exists>n' e' x' evs. cr_book n' e' x' t \<and> cr_out t = cr_out s @ evs \<and> length evs \<le> 1
        \<and> cr_main_lines serr n' e' x' = (if cr_at s = Announces then [] else cr_main_lines serr n e x) @ evs"
      using leaves by (intro exI [of _ n] exI [of _ e] exI [of _ x] exI [of _ "[]"]) simp
  qed (use leaves in \<open>simp_all add: cr_running_def\<close>)
next
  case (joins_peer r)
  from assms(2) obtain n e x where b: "cr_book n e x s" "cr_told serr n e x s" by (auto simp: cr_inv_def)
  have rp: "cr_report t = cr_report s" using joins_peer by (simp add: cr_report_def cr_says_def)
  have "cr_book n e x t" using b(1) joins_peer by (simp add: cr_book_def cr_says_def)
  moreover have "cr_told serr n e x t"
    using b(2) joins_peer unfolding cr_told_def rp by (auto simp: cr_says_def cr_running_def)
  ultimately show ?thesis using assms(2) joins_peer by (auto simp: cr_inv_def cr_says_def)
next
  case (peer_reads n)
  then have eq: "t = s\<lparr>cr_peer := PeerSaysRead (int n), cr_queue := cr_queue s - n,
      cr_closed := has_closed (PeerSaysRead (int n)), cr_out := cr_out s @ []\<rparr>"
    using assms(2) by (cases s) (simp add: cr_inv_def)
  show ?thesis unfolding eq by (rule cr_inv_peer [OF assms(2) peer_reads(2)]) (use peer_reads(3) in simp_all)
next
  case peer_read_fails
  then have eq: "t = s\<lparr>cr_peer := PeerSaysRead (-1), cr_queue := cr_queue s,
      cr_closed := has_closed (PeerSaysRead (-1)), cr_out := cr_out s @ []\<rparr>"
    using assms(2) by (cases s) (simp add: cr_inv_def)
  show ?thesis unfolding eq by (rule cr_inv_peer [OF assms(2) peer_read_fails(2)]) (use peer_read_fails(3) in simp_all)
next
  case (peer_says r)
  have shown: "show_int 30 = ''30''" by code_simp
  from peer_says have eq: "t = s\<lparr>cr_peer := PeerSleeps r, cr_queue := cr_queue s,
      cr_closed := has_closed (PeerSleeps r), cr_out := cr_out s @ take 1 (cr_peer_lines r)\<rparr>"
    using assms(2) by (cases s) (simp add: cr_inv_def cr_says_def cr_peer_lines_def shown)
  show ?thesis unfolding eq by (rule cr_inv_peer [OF assms(2) peer_says(2)]) (use peer_says(3) in simp_all)
next
  case (peer_closes r)
  then have eq: "t = s\<lparr>cr_peer := PeerSaysClosed r, cr_queue := cr_queue s,
      cr_closed := has_closed (PeerSaysClosed r), cr_out := cr_out s @ []\<rparr>"
    by (cases s) simp
  show ?thesis unfolding eq by (rule cr_inv_peer [OF assms(2) peer_closes(2)]) (use peer_closes(3) in simp_all)
next
  case (peer_resets i r)
  have run: "cr_running s" using peer_resets(2) by (simp add: cr_running_def)
  let ?u = "s\<lparr>cr_peer := PeerSaysClosed r, cr_queue := cr_queue s,
      cr_closed := has_closed (PeerSaysClosed r), cr_out := cr_out s @ []\<rparr>"
  have u: "cr_inv serr ?u" by (rule cr_inv_peer [OF assms(2) run]) (use peer_resets(4) in simp_all)
  show ?thesis
  proof (rule cr_inv_main [OF u])
    fix n e x assume b: "cr_book n e x ?u"
    with peer_resets have "cr_book n e x t" by (auto simp: cr_book_def)
    then show "\<exists>n' e' x' evs. cr_book n' e' x' t \<and> cr_out t = cr_out ?u @ evs \<and> length evs \<le> 1
        \<and> cr_main_lines serr n' e' x' = (if cr_at ?u = Announces then [] else cr_main_lines serr n e x) @ evs"
      using peer_resets(1,2) by (intro exI [of _ n] exI [of _ e] exI [of _ x] exI [of _ "[]"]) simp
  qed (use peer_resets run in \<open>simp_all add: cr_running_def\<close>)
next
  case (peer_ends r)
  then have eq: "t = s\<lparr>cr_peer := PeerGone r, cr_queue := cr_queue s,
      cr_closed := has_closed (PeerGone r), cr_out := cr_out s @ [ev_log ''peer closed'']\<rparr>"
    using assms(2) by (cases s) (simp add: cr_inv_def cr_says_def)
  show ?thesis unfolding eq
    by (rule cr_inv_peer [OF assms(2) peer_ends(2)]) (use peer_ends(3) in \<open>simp_all add: cr_peer_lines_def\<close>)
qed (use assms(2) in \<open>simp add: cr_inv_def\<close>)

lemma cr_inv_start: "cr_inv serr (cr_start (Some fds) True)"
  by (cases fds)
    (auto simp: cr_inv_def cr_start_def cr_running_def cr_book_def cr_told_def mixes_def Let_def)

text \<open>Every step brings the run nearer to its end.\<close>

fun peer_left :: "peer_pc \<Rightarrow> nat" where
  "peer_left PeerReads = 4" | "peer_left (PeerSaysRead r) = 3" | "peer_left (PeerSleeps r) = 2"
| "peer_left (PeerSaysClosed r) = 1" | "peer_left (PeerGone r) = 0" | "peer_left NoPeer = 0"

fun at_left :: "cr_pc \<Rightarrow> nat" where
  "at_left Announces = 2003" | "at_left (Writing i) = 2 * (1000 - i) + 2" | "at_left (WriteFailed i e) = 2 * (1000 - i) + 1"
| "at_left JoinsPeer = 1" | "at_left (CrEnded r) = 0"

definition cr_left :: "cr_state \<Rightarrow> nat" where
  "cr_left s = at_left (cr_at s) + peer_left (cr_peer s)"

lemma cr_step_left: "cr_step serr s t \<Longrightarrow> cr_inv serr s \<Longrightarrow> cr_left t < cr_left s"
proof (induction rule: cr_step.induct)
  case (counts s i e)
  then have "i < 1000" by (auto simp: cr_inv_def cr_book_def)
  moreover have "cr_at (cr_error serr i e s) = JoinsPeer \<or> cr_at (cr_error serr i e s) = Writing (i + 1)"
    by (simp add: cr_error_def Let_def)
  ultimately show ?case using counts(1) by (auto simp: cr_left_def)
qed (simp_all add: cr_left_def cr_says_def)

lemma cr_progress:
  assumes "cr_inv serr s" and "\<not> \<not> cr_running s"
  shows "\<exists>t. cr_step serr s t"
proof (cases "cr_at s")
  case Announces
  then show ?thesis using announces by blast
next
  case (Writing i)
  have ign: "cr_ignores s" using assms(1) by (simp add: cr_inv_def)
  show ?thesis
  proof (cases "i < 1000")
    case True
    then show ?thesis
      using write_moves [OF Writing True, of 1 serr] write_refused [OF Writing True _ ign, of serr]
      by (cases "cr_closed s") auto
  qed (use leaves [OF Writing] in blast)
next
  case (WriteFailed i e)
  then show ?thesis using counts by blast
next
  case JoinsPeer
  from assms(2) have run: "cr_running s" by simp
  show ?thesis
  proof (cases "cr_peer s")
    case PeerReads
    then show ?thesis using peer_read_fails [OF run] by blast
  next
    case (PeerSaysRead r)
    then show ?thesis using peer_says [OF run] by blast
  next
    case (PeerSleeps r)
    then show ?thesis using peer_closes [OF run] by blast
  next
    case (PeerSaysClosed r)
    then show ?thesis using peer_ends [OF run] by blast
  next
    case (PeerGone r)
    then show ?thesis using joins_peer [OF JoinsPeer] by blast
  qed (use assms(1) in \<open>simp add: cr_inv_def\<close>)
next
  case (CrEnded r)
  with assms(2) show ?thesis by (simp add: cr_running_def)
qed

interpretation reset: ending_system "cr_step serr" "cr_inv serr" "cr_step serr" "\<lambda>s. \<not> cr_running s" cr_left for serr
  by unfold_locales (blast intro: cr_inv_step cr_step_left cr_progress)+

text \<open>Once the peer has closed no further write goes through; a schedule in which it is early.\<close>

lemma cr_book_closed:
  assumes "cr_step serr s t" and "cr_inv serr s" and "cr_book n e x s \<and> cr_closed s"
  shows "\<exists>e' x'. cr_book n e' x' t \<and> cr_closed t"
proof -
  have ign: "cr_ignores s" using assms(2) by (simp add: cr_inv_def)
  show ?thesis
    using assms(1)
proof cases
  case (counts i y)
  then show ?thesis using cr_error_book [of n e x s i y serr] assms(3) by auto
next
  case (leaves i)
  then have "n + e = 1000" "e < 3" using assms(3) by (simp_all add: cr_book_def)
  then have "e = min 3 (1000 - n)" "n \<le> 1000" by arith+
  then show ?thesis using leaves assms(3) by (intro exI [of _ e] exI [of _ x]) (simp add: cr_book_def)
qed (use assms(3) ign in \<open>auto simp: cr_book_def cr_says_def\<close>)
qed

lemma reset_happens:
  "\<exists>t evs. (cr_step serr)\<^sup>*\<^sup>* (cr_start (Some fds) True) t \<and> cr_result t = Some (evs, Returns 0) \<and> cr_errors t = 3"
proof -
  let ?s = "cr_start (Some fds) True"
  define s1 where "s1 = ?s\<lparr>cr_peer := PeerSaysRead (-1)\<rparr>"
  define s2 where "s2 = cr_says (s1\<lparr>cr_peer := PeerSleeps (-1)\<rparr>)
    [ev_log (''peer received '' @ show_int (-1) @ '' bytes; closing connection in '' @ show_int 30 @ '' ms'')]"
  define s3 where "s3 = s2\<lparr>cr_peer := PeerSaysClosed (-1), cr_closed := True\<rparr>"
  note d = s1_def s2_def s3_def cr_says_def cr_running_def cr_start_def Let_def
  have "cr_step serr ?s s1" unfolding s1_def by (rule peer_read_fails) (simp_all add: d split: prod.split)
  moreover have "cr_step serr s1 s2" unfolding s2_def by (rule peer_says) (simp_all add: d split: prod.split)
  moreover have "cr_step serr s2 s3" unfolding s3_def by (rule peer_closes) (simp_all add: d split: prod.split)
  ultimately have s3: "(cr_step serr)\<^sup>*\<^sup>* ?s s3"
    by (intro rtranclp.rtrancl_into_rtrancl [OF rtranclp.rtrancl_into_rtrancl [OF r_into_rtranclp]])
  have inv: "cr_inv serr s3" by (rule reset.inv_reaches [OF s3 cr_inv_start])
  let ?early = "\<lambda>s. \<exists>e x. cr_book 0 e x s \<and> cr_closed s"
  have early: "?early s3" by (intro exI [of _ 0] exI [of _ EPIPE]) (simp add: cr_book_def d split: prod.split)
  have keep: "?early v" if "cr_inv serr u" "?early u" "cr_step serr u v" for u v
    using cr_book_closed [OF that(3,1)] that(2) by blast
  have "\<exists>t. (cr_step serr)\<^sup>*\<^sup>* s3 t \<and> \<not> cr_running t \<and> ?early t"
    by (rule reset.driven_keeping [of serr s3 ?early, OF inv early]) (rule keep)
  then obtain t e x where t: "(cr_step serr)\<^sup>*\<^sup>* s3 t" "\<not> cr_running t" "cr_book 0 e x t" by blast
  from t(2) obtain r where r: "cr_at t = CrEnded r" by (auto simp: cr_running_def split: cr_pc.splits)
  with t(3) have "cr_errors t = 3" "r = Returns 0" by (simp_all add: cr_book_def)
  with r rtranclp_trans [OF s3 t(1)] show ?thesis by (auto simp: cr_result_def)
qed

text \<open>
  C34: a closed peer is an error, not a signal. When the sockets and the thread are made, then
  whatever the schedule of the two threads, the sizes of the writes and what the peer's read
  returns, the run returns 0: it can always be driven to its end, no schedule is infinite, and
  \<open>SIGPIPE\<close> never ends it, because it is ignored. A run that has ended has made some number \<open>n\<close> of
  writes, up to 1000, before the peer closed, and reports their bytes, between \<open>n\<close> and
  \<open>4096 n\<close>; of the writes after that it counts three errors, or as many as there were when \<open>n\<close> is
  above 997; when there was one it names \<open>n\<close> as the iteration of the first error, and its errno,
  which is that of \<open>EPIPE\<close>, or of \<open>ECONNRESET\<close> for a write that was waiting for room; the two lines
  of explanation come for \<open>EPIPE\<close> only. The lines of each thread come in their order.
\<close>

theorem connection_reset_is_survived:
  assumes "(cr_step serr)\<^sup>*\<^sup>* (cr_start (Some fds) True) s"
  shows "(\<exists>t evs. (cr_step serr)\<^sup>*\<^sup>* s t \<and> cr_result t = Some (evs, Returns 0))
    \<and> wf {(v, u). (cr_step serr)\<^sup>*\<^sup>* (cr_start (Some fds) True) u \<and> cr_step serr u v}
    \<and> (cr_result s = Some (evs, r) \<longrightarrow> r = Returns 0 \<and> (\<exists>n e x tot mid got. n \<le> 1000 \<and> e = min 3 (1000 - n)
        \<and> int n \<le> tot \<and> tot \<le> 4096 * int n \<and> (x = EPIPE \<or> x = ECONNRESET)
        \<and> evs = ev_phase ''spawning peer; it will read once then close after 30 ms'' # mid
            @ [ev_actual ''bytes_before_reset'' (of_int tot),
               ev_actual ''first_error_iter'' (if e = 0 then -1 else of_nat n),
               ev_count ''write_errors'' (of_nat e),
               ev_log (''wrote '' @ show_int tot @ '' bytes before peer close; '' @ show_int (int e) @ '' write errors'')]
            @ (if e = 0 \<or> x \<noteq> EPIPE then [] else
                [ev_log (''EPIPE = peer'' @ [CHR 0x27] @ ''s read side is gone. Without SIGPIPE-ignore,''),
                 ev_log ''this would have killed the process before write() returned.''])
        \<and> length mid = 3 + (if e = 0 then 0 else 1)
        \<and> subseq ([ev_phase ''main thread writes 4KB chunks until something breaks'']
            @ (if e = 0 then [] else [ev_log (''first write error at iter '' @ show_int (int n) @ '': errno=''
                @ show_int (errno_number x) @ '' ('' @ serr x @ '')'')])) mid
        \<and> subseq [ev_log (''peer received '' @ show_int got @ '' bytes; closing connection in 30 ms''),
            ev_log ''peer closed''] mid))"
proof (intro conjI impI)
  have inv: "cr_inv serr s" by (rule reset.inv_reaches [OF assms cr_inv_start])
  from reset.driven [OF inv] obtain t where t: "(cr_step serr)\<^sup>*\<^sup>* s t" "\<not> cr_running t" by blast
  then have "cr_inv serr t" using reset.inv_reaches inv by blast
  then have "cr_at t = CrEnded (Returns 0)"
    using t(2) by (auto simp: cr_inv_def cr_book_def cr_running_def split: cr_pc.splits)
  with t(1) show "\<exists>t evs. (cr_step serr)\<^sup>*\<^sup>* s t \<and> cr_result t = Some (evs, Returns 0)"
    by (auto simp: cr_result_def)
  show "wf {(v, u). (cr_step serr)\<^sup>*\<^sup>* (cr_start (Some fds) True) u \<and> cr_step serr u v}"
    by (rule reset.no_infinite_schedule_from [OF cr_inv_start])
  assume "cr_result s = Some (evs, r)"
  then have at: "cr_at s = CrEnded r" "evs = cr_out s" by (auto simp: cr_result_def split: cr_pc.splits)
  from inv at(1) obtain n e x mid got where b: "cr_book n e x s" "cr_peer s = PeerGone got"
    "mixes (cr_main_lines serr n e x) (cr_peer_lines got) mid"
    "cr_out s = ev_phase ''spawning peer; it will read once then close after 30 ms'' # mid @ cr_report s"
    by (auto simp: cr_inv_def cr_told_def cr_running_def)
  from b(1) at(1) show "r = Returns 0" by (simp add: cr_book_def)
  have k: "n \<le> 1000" "e = min 3 (1000 - n)" "int n \<le> cr_total s" "cr_total s \<le> 4096 * int n" "x = EPIPE \<or> x = ECONNRESET"
    "cr_errors s = int e" "cr_first_iter s = (if e = 0 then -1 else int n)"
    "cr_first_errno s = errno_number EPIPE \<longleftrightarrow> e \<noteq> 0 \<and> x = EPIPE"
    using b(1) at(1) by (auto simp: cr_book_def)
  show "\<exists>n e x tot mid got. n \<le> 1000 \<and> e = min 3 (1000 - n)
        \<and> int n \<le> tot \<and> tot \<le> 4096 * int n \<and> (x = EPIPE \<or> x = ECONNRESET)
        \<and> evs = ev_phase ''spawning peer; it will read once then close after 30 ms'' # mid
            @ [ev_actual ''bytes_before_reset'' (of_int tot),
               ev_actual ''first_error_iter'' (if e = 0 then -1 else of_nat n),
               ev_count ''write_errors'' (of_nat e),
               ev_log (''wrote '' @ show_int tot @ '' bytes before peer close; '' @ show_int (int e) @ '' write errors'')]
            @ (if e = 0 \<or> x \<noteq> EPIPE then [] else
                [ev_log (''EPIPE = peer'' @ [CHR 0x27] @ ''s read side is gone. Without SIGPIPE-ignore,''),
                 ev_log ''this would have killed the process before write() returned.''])
        \<and> length mid = 3 + (if e = 0 then 0 else 1)
        \<and> subseq ([ev_phase ''main thread writes 4KB chunks until something breaks'']
            @ (if e = 0 then [] else [ev_log (''first write error at iter '' @ show_int (int n) @ '': errno=''
                @ show_int (errno_number x) @ '' ('' @ serr x @ '')'')])) mid
        \<and> subseq [ev_log (''peer received '' @ show_int got @ '' bytes; closing connection in 30 ms''),
            ev_log ''peer closed''] mid"
    by (intro exI [of _ n] exI [of _ e] exI [of _ x] exI [of _ "cr_total s"] exI [of _ mid] exI [of _ got] conjI k(1-5))
      (use b(3) in \<open>simp_all add: at(2) b(4) cr_report_def k(6-8) mixes_def cr_main_lines_def cr_peer_lines_def del: errno_number.simps\<close>)
qed

theorem connection_reset_is_survived_witness:
  "\<exists>t evs. (cr_step (\<lambda>e. ''Broken pipe''))\<^sup>*\<^sup>* (cr_start (Some (3, 4)) True) t
    \<and> cr_result t = Some (evs, Returns 0) \<and> cr_errors t = 3
    \<and> hd evs = ev_phase ''spawning peer; it will read once then close after 30 ms''"
proof -
  from reset_happens obtain t evs where
    t: "(cr_step (\<lambda>e. ''Broken pipe''))\<^sup>*\<^sup>* (cr_start (Some (3, 4)) True) t" "cr_result t = Some (evs, Returns 0)" "cr_errors t = 3"
    by blast
  note d = conjunct2 [OF mp [OF conjunct2 [OF conjunct2 [OF connection_reset_is_survived [OF t(1)]]] t(2)]]
  have "hd evs = ev_phase ''spawning peer; it will read once then close after 30 ms''"
    using d by (elim exE conjE) simp
  with t show ?thesis by blast
qed

end
