(* ===== verification/Chaos_Thread.thy ===== *)
theory Chaos_Thread
  imports Registry
begin

text \<open>
  The tagged threads of \<open>src/chaos/chaos_thread.c\<close>. Handles live in a heap, a map from
  addresses to \<open>chaos_thread\<close> records, from which \<open>chaos_thread_join\<close> removes them; an
  access to an address that is not in the heap is a use after free and has the value \<open>None\<close>.
  The answers of \<open>calloc\<close>, \<open>malloc\<close>, \<open>pthread_create\<close>, \<open>pthread_join\<close> and
  \<open>pthread_cancel\<close> are arguments. The step relation \<open>client_step\<close> is a client that knows the
  handles it got and the time, calls the operations in any order, and shares the heap with the
  timers of \<open>chaos_thread_cancel_at_ns\<close>, which go off some time after they are due.
\<close>

section \<open>State\<close>

record chaos_thread =
  tag_name :: "u8 list"
  tag_id :: u32
  stop_flag :: bool

type_synonym handle = nat

record cancel_arg_t =
  target :: handle
  after_ns :: u64

text \<open>
  \<open>armed\<close> are the arguments of the timer threads that have not gone off yet; \<open>fresh\<close> is the
  next address the allocator hands out. It hands out none twice, so that every use of a freed
  handle shows.
\<close>

record threads =
  heap :: "handle \<rightharpoonup> chaos_thread"
  fresh :: handle
  armed :: "cancel_arg_t list"
  tags :: child

section \<open>Operations\<close>

text \<open>What a spawned thread does first: its events carry the tag of its handle.\<close>

definition thread_wrap :: "u32 \<Rightarrow> (child \<Rightarrow> 'r) \<Rightarrow> child \<Rightarrow> 'r" where
  "thread_wrap tag fn c = fn (c\<lparr>g_thread_tag := tag\<rparr>)"

definition chaos_thread_spawn ::
    "bool \<Rightarrow> cstring \<Rightarrow> bool \<Rightarrow> bool \<Rightarrow> bool \<Rightarrow> threads \<Rightarrow> handle option \<times> threads \<times> sysact list" where
  "chaos_thread_spawn has_fn tag mem1 mem2 created s =
     (if \<not> has_fn then (None, s, [])
      else if \<not> mem1 then (None, s, [])
      else
        (let name = cfield 32 (or_empty tag);
             (id, c) = pg_alloc_thread_tag (tags s);
             s = s\<lparr>tags := c\<rparr>;
             h = fresh s
         in if \<not> mem2 then (None, s, [SysMalloc, SysFree])
            else if \<not> created then (None, s, [SysMalloc, SysMalloc, SysFree, SysFree])
            else (Some h,
                  s\<lparr>heap := (heap s)(h \<mapsto> \<lparr>tag_name = name, tag_id = id, stop_flag = False\<rparr>),
                    fresh := Suc h\<rparr>,
                  [SysMalloc, SysMalloc, SysThreadCreate])))"

definition chaos_thread_join :: "handle option \<Rightarrow> bool \<Rightarrow> threads \<Rightarrow> (int \<times> threads) option" where
  "chaos_thread_join t ok s =
     (case t of
        None \<Rightarrow> Some (-1, s)
      | Some h \<Rightarrow>
          (case heap s h of
             None \<Rightarrow> None
           | Some th \<Rightarrow> Some (if ok then 0 else -1, s\<lparr>heap := (heap s)(h := None)\<rparr>)))"

definition chaos_thread_cancel :: "handle option \<Rightarrow> bool \<Rightarrow> threads \<Rightarrow> (int \<times> threads) option" where
  "chaos_thread_cancel t ok s =
     (case t of
        None \<Rightarrow> Some (-1, s)
      | Some h \<Rightarrow>
          (case heap s h of
             None \<Rightarrow> None
           | Some th \<Rightarrow>
               Some (if ok then 0 else -1, s\<lparr>heap := (heap s)(h \<mapsto> th\<lparr>stop_flag := True\<rparr>)\<rparr>)))"

definition chaos_thread_should_stop :: "handle option \<Rightarrow> threads \<Rightarrow> bool option" where
  "chaos_thread_should_stop t s =
     (case t of
        None \<Rightarrow> Some False
      | Some h \<Rightarrow> map_option stop_flag (heap s h))"

text \<open>The timer thread after its sleep, for the \<open>i\<close>th armed timer.\<close>

definition cancel_after_fn :: "nat \<Rightarrow> bool \<Rightarrow> threads \<Rightarrow> threads option" where
  "cancel_after_fn i ok s =
     (case chaos_thread_cancel (Some (target (armed s ! i))) ok s of
        None \<Rightarrow> None
      | Some (rc, s) \<Rightarrow> Some (s\<lparr>armed := take i (armed s) @ drop (Suc i) (armed s)\<rparr>))"

definition chaos_thread_cancel_at_ns ::
    "handle option \<Rightarrow> u64 \<Rightarrow> bool \<Rightarrow> bool \<Rightarrow> threads \<Rightarrow> int \<times> threads \<times> sysact list" where
  "chaos_thread_cancel_at_ns t after mem created s =
     (case t of
        None \<Rightarrow> (-1, s, [])
      | Some h \<Rightarrow>
          if \<not> mem then (-1, s, [])
          else if \<not> created then (-1, s, [SysMalloc, SysFree])
          else (0, s\<lparr>armed := armed s @ [\<lparr>target = h, after_ns = after\<rparr>]\<rparr>, [SysMalloc, SysThreadCreate, SysThreadDetach]))"

text \<open>The generator is advanced whether or not there is a range to draw from.\<close>

definition chaos_thread_inject_delay :: "ctx_ptr \<Rightarrow> u64 \<Rightarrow> u64 \<Rightarrow> child \<Rightarrow> sysact \<times> child" where
  "chaos_thread_inject_delay p min_ns max_ns c =
     (let sp = (if max_ns > min_ns then max_ns - min_ns else 0);
          (r, c) = pg_runctx_rand p c;
          delay = min_ns + (if sp \<noteq> 0 then r mod sp else 0)
      in (SysSleep (timespec_of_ns delay), c))"

section \<open>The watchdog\<close>

record wd_arg_t =
  timeout_ns :: u64
  what :: "u8 list"

definition watchdog_message :: "wd_arg_t \<Rightarrow> u8 list" where
  "watchdog_message wd =
     take 127 (bytes ''watchdog: '' @ (case cstr (what wd) of Some s \<Rightarrow> s | None \<Rightarrow> []))"

text \<open>The watchdog thread, once its sleep is over: the record, then \<open>_exit(2)\<close>.\<close>

definition watchdog_fn :: "wd_arg_t \<Rightarrow> 'a call" where
  "watchdog_fn wd c =
     (case pg_watchdog NullCtx (Some (watchdog_message wd)) c of
        None \<Rightarrow> None
      | Some c \<Rightarrow> Some (c, Exits 2))"

definition chaos_thread_watchdog ::
    "u64 \<Rightarrow> cstring \<Rightarrow> bool \<Rightarrow> bool \<Rightarrow> wd_arg_t option \<times> sysact list" where
  "chaos_thread_watchdog timeout w mem created =
     (if \<not> mem then (None, [])
      else
        (let wd = \<lparr>timeout_ns = timeout,
                   what = cfield 64 (case w of Some s \<Rightarrow> s | None \<Rightarrow> bytes ''timeout'')\<rparr>
         in if created
            then (Some wd, [SysMalloc, SysThreadCreate, SysThreadDetach, SysSleep (timespec_of_ns timeout)])
            else (None, [SysMalloc, SysFree])))"

section \<open>Clients and timers\<close>

text \<open>
  What a client knows: the handles it got from \<open>chaos_thread_spawn\<close> and has not joined, until
  when each of them has a timer, and the time in ns. \<open>c_due\<close> is when each armed timer is due, in
  the order of \<open>armed\<close>; that belongs to the kernel.
\<close>

record client =
  c_threads :: threads
  c_mine :: "handle set"
  c_until :: "handle \<rightharpoonup> nat"
  c_due :: "nat list"
  c_now :: nat

definition new_client :: "child \<Rightarrow> client" where
  "new_client c = \<lparr>c_threads = \<lparr>heap = Map.empty, fresh = 1, armed = [], tags = c\<rparr>,
     c_mine = {}, c_until = Map.empty, c_due = [], c_now = 0\<rparr>"

text \<open>
  The client uses the handles it holds, and only those, and joins one only \<open>slack\<close> ns after its
  last timer was due; the header's rule is \<open>slack = 0\<close>. A timer goes off when it is due or later,
  but before it is more than \<open>late\<close> ns overdue. \<open>None\<close> is a use of a freed handle.
\<close>

inductive client_step :: "nat \<Rightarrow> nat \<Rightarrow> client option \<Rightarrow> client option \<Rightarrow> bool" for slack late where
  spawns: "chaos_thread_spawn has_fn tag m1 m2 cr (c_threads u) = (r, s, acts)
    \<Longrightarrow> client_step slack late (Some u) (Some (u\<lparr>c_threads := s,
          c_mine := (case r of None \<Rightarrow> c_mine u | Some h \<Rightarrow> insert h (c_mine u))\<rparr>))"
| joins: "h \<in> c_mine u \<Longrightarrow> (case c_until u h of None \<Rightarrow> True | Some t \<Rightarrow> t + slack \<le> c_now u)
    \<Longrightarrow> client_step slack late (Some u)
          (map_option (\<lambda>(rc, s). u\<lparr>c_threads := s, c_mine := c_mine u - {h}, c_until := (c_until u)(h := None)\<rparr>)
             (chaos_thread_join (Some h) ok (c_threads u)))"
| cancels: "h \<in> c_mine u
    \<Longrightarrow> client_step slack late (Some u)
          (map_option (\<lambda>(rc, s). u\<lparr>c_threads := s\<rparr>) (chaos_thread_cancel (Some h) ok (c_threads u)))"
| asks: "h \<in> c_mine u
    \<Longrightarrow> client_step slack late (Some u)
          (map_option (\<lambda>stop. u) (chaos_thread_should_stop (Some h) (c_threads u)))"
| arms: "h \<in> c_mine u \<Longrightarrow> chaos_thread_cancel_at_ns (Some h) after m cr (c_threads u) = (rc, s, acts)
    \<Longrightarrow> due = c_now u + unat after
    \<Longrightarrow> client_step slack late (Some u) (Some (if rc \<noteq> 0 then u\<lparr>c_threads := s\<rparr>
          else u\<lparr>c_threads := s, c_due := c_due u @ [due],
            c_until := (c_until u)(h \<mapsto> (case c_until u h of None \<Rightarrow> due | Some t \<Rightarrow> max t due))\<rparr>))"
| fires: "i < length (c_due u) \<Longrightarrow> c_due u ! i \<le> c_now u
    \<Longrightarrow> client_step slack late (Some u)
          (map_option (\<lambda>s. u\<lparr>c_threads := s, c_due := take i (c_due u) @ drop (Suc i) (c_due u)\<rparr>)
             (cancel_after_fn i ok (c_threads u)))"
| passes: "\<forall>t \<in> set (c_due u). c_now u + d \<le> t + late
    \<Longrightarrow> client_step slack late (Some u) (Some (u\<lparr>c_now := c_now u + d\<rparr>))"

inductive_cases client_stepE: "client_step slack late r r'"

section \<open>Lemmas\<close>

text \<open>
  Every handle the client holds is live, every armed timer is for one of them and due no later than
  the client thinks, and none is too late yet.
\<close>

definition client_ok :: "nat \<Rightarrow> client \<Rightarrow> bool" where
  "client_ok late u \<longleftrightarrow> (\<forall>h \<in> c_mine u. heap (c_threads u) h \<noteq> None)
     \<and> list_all2 (\<lambda>ca t. target ca \<in> c_mine u \<and> (\<exists>t'. c_until u (target ca) = Some t' \<and> t \<le> t')
          \<and> c_now u \<le> t + late) (armed (c_threads u)) (c_due u)"

lemma cancel_live:
  "heap s h = Some th \<Longrightarrow> chaos_thread_cancel (Some h) ok s =
     Some (if ok then 0 else -1, s\<lparr>heap := (heap s)(h \<mapsto> th\<lparr>stop_flag := True\<rparr>)\<rparr>)"
  by (simp add: chaos_thread_cancel_def)

lemma list_all2_without:
  "list_all2 P xs ys \<Longrightarrow> list_all2 P (take i xs @ drop (Suc i) xs) (take i ys @ drop (Suc i) ys)"
  by (intro list_all2_appendI list_all2_takeI list_all2_dropI)

lemma spawn_outcome:
  assumes "chaos_thread_spawn has_fn tag m1 m2 cr s = (r, s', acts)"
  shows "armed s' = armed s \<and> (case r of
      None \<Rightarrow> heap s' = heap s
    | Some h \<Rightarrow> \<exists>th. heap s' = (heap s)(h \<mapsto> th))"
  using assms
  by (auto simp: chaos_thread_spawn_def pg_alloc_thread_tag_def Let_def split: if_splits)

lemma client_ok_join:
  assumes "client_ok late u" and "late < slack" and "h \<in> c_mine u"
    and "case c_until u h of None \<Rightarrow> True | Some t \<Rightarrow> t + slack \<le> c_now u"
  shows "\<exists>s. chaos_thread_join (Some h) ok (c_threads u) = Some (if ok then 0 else -1, s)
    \<and> client_ok late (u\<lparr>c_threads := s, c_mine := c_mine u - {h}, c_until := (c_until u)(h := None)\<rparr>)"
proof -
  obtain th where th: "heap (c_threads u) h = Some th" using assms(1,3) by (auto simp: client_ok_def)
  have "list_all2 (\<lambda>ca t. target ca \<in> c_mine u - {h}
      \<and> (\<exists>t'. ((c_until u)(h := None)) (target ca) = Some t' \<and> t \<le> t') \<and> c_now u \<le> t + late)
    (armed (c_threads u)) (c_due u)"
    using assms(1) unfolding client_ok_def
    by (elim conjE list_all2_mono) (use assms(2,4) in \<open>auto split: option.splits\<close>)
  with th assms(1) show ?thesis by (auto simp: chaos_thread_join_def client_ok_def)
qed

lemma client_ok_cancel:
  assumes "client_ok late u" and "h \<in> c_mine u"
  shows "\<exists>rc s. chaos_thread_cancel (Some h) ok (c_threads u) = Some (rc, s)
    \<and> armed s = armed (c_threads u) \<and> client_ok late (u\<lparr>c_threads := s\<rparr>)"
proof -
  obtain th where "heap (c_threads u) h = Some th" using assms by (auto simp: client_ok_def)
  with assms(1) show ?thesis by (auto simp: cancel_live client_ok_def)
qed

lemma client_ok_fire:
  assumes "client_ok late u" and "i < length (c_due u)"
  shows "\<exists>s. cancel_after_fn i ok (c_threads u) = Some s
    \<and> client_ok late (u\<lparr>c_threads := s, c_due := take i (c_due u) @ drop (Suc i) (c_due u)\<rparr>)"
proof -
  let ?s = "c_threads u"
  have arm: "list_all2 (\<lambda>ca t. target ca \<in> c_mine u \<and> (\<exists>t'. c_until u (target ca) = Some t' \<and> t \<le> t')
      \<and> c_now u \<le> t + late) (armed ?s) (c_due u)" using assms(1) by (simp add: client_ok_def)
  then have "target (armed ?s ! i) \<in> c_mine u" using assms(2) by (auto simp: list_all2_conv_all_nth)
  from client_ok_cancel [OF assms(1) this, of ok] obtain rc s where
    s: "chaos_thread_cancel (Some (target (armed ?s ! i))) ok ?s = Some (rc, s)"
    "armed s = armed ?s" "client_ok late (u\<lparr>c_threads := s\<rparr>)" by blast
  with list_all2_without [OF arm, of i] show ?thesis by (simp add: cancel_after_fn_def client_ok_def)
qed

lemma client_ok_arm:
  assumes "client_ok late u" and "h \<in> c_mine u"
    and "chaos_thread_cancel_at_ns (Some h) after m cr (c_threads u) = (rc, s, acts)"
    and "due = c_now u + unat after"
  shows "client_ok late (if rc \<noteq> 0 then u\<lparr>c_threads := s\<rparr>
      else u\<lparr>c_threads := s, c_due := c_due u @ [due],
        c_until := (c_until u)(h \<mapsto> (case c_until u h of None \<Rightarrow> due | Some t \<Rightarrow> max t due))\<rparr>)"
proof (cases "m \<and> cr")
  case False
  with assms show ?thesis by (auto simp: chaos_thread_cancel_at_ns_def split: if_splits)
next
  case True
  define till where "till = (case c_until u h of None \<Rightarrow> due | Some t \<Rightarrow> max t due)"
  have till: "due \<le> till" "c_until u h = Some t \<Longrightarrow> t \<le> till" for t
    by (simp_all add: till_def split: option.split)
  have "list_all2 (\<lambda>ca t. target ca \<in> c_mine u
      \<and> (\<exists>t'. ((c_until u)(h \<mapsto> till)) (target ca) = Some t' \<and> t \<le> t') \<and> c_now u \<le> t + late)
    (armed (c_threads u)) (c_due u)"
    using assms(1) unfolding client_ok_def
    by (elim conjE list_all2_mono) (use till(2) in \<open>auto intro: le_trans\<close>)
  then show ?thesis
    unfolding till_def [symmetric] using True assms till(1)
    by (auto simp: chaos_thread_cancel_at_ns_def client_ok_def intro!: list_all2_appendI)
qed

text \<open>No step from such a state touches freed memory, and the next one is such a state again.\<close>

definition client_safe :: "nat \<Rightarrow> nat \<Rightarrow> client option \<Rightarrow> bool" where
  "client_safe slack late r \<longleftrightarrow> late < slack \<and> (\<exists>u. r = Some u \<and> client_ok late u)"

lemma client_step_safe:
  assumes "client_step slack late r r'" and "client_safe slack late r"
  shows "client_safe slack late r'"
  using assms(1)
proof cases
  case (spawns has_fn tag m1 m2 cr u x s acts)
  with spawn_outcome [OF spawns(3)] assms(2) show ?thesis
    by (auto simp: client_safe_def client_ok_def split: option.splits elim!: list_all2_mono)
next
  case (joins h u ok)
  with assms(2) client_ok_join [of late u slack h ok] show ?thesis by (auto simp: client_safe_def)
next
  case (cancels h u ok)
  with assms(2) client_ok_cancel [of late u h ok] show ?thesis by (auto simp: client_safe_def)
next
  case (asks h u)
  with assms(2) show ?thesis by (auto simp: client_safe_def client_ok_def chaos_thread_should_stop_def)
next
  case (arms h u after m cr rc s acts due)
  with assms(2) client_ok_arm [of late u h after m cr rc s acts due] show ?thesis
    by (auto simp only: client_safe_def option.inject)
next
  case (fires i u ok)
  with assms(2) client_ok_fire [of late u i ok] show ?thesis by (auto simp: client_safe_def)
next
  case (passes u d)
  with assms(2) show ?thesis
    by (auto simp: client_safe_def client_ok_def list_all2_conv_all_nth)
qed

interpretation client: step_system "client_step slack late" "client_safe slack late" for slack late
  by unfold_locales (rule client_step_safe)

text \<open>After \<open>k\<close> tags: the live handles carry distinct tags between 1 and \<open>k\<close>.\<close>

definition tagged :: "nat \<Rightarrow> threads \<Rightarrow> bool" where
  "tagged k s \<longleftrightarrow> unat (g_next_thread_tag (tags s)) = Suc k
     \<and> (\<forall>h th. heap s h = Some th \<longrightarrow> 0 < unat (tag_id th) \<and> unat (tag_id th) \<le> k)
     \<and> (\<forall>h h' th th'. heap s h = Some th \<longrightarrow> heap s h' = Some th' \<longrightarrow> tag_id th = tag_id th' \<longrightarrow> h = h')"

lemma tagged_mono_heap:
  assumes "tagged k s" and "tags s' = tags s"
    and "\<And>h th'. heap s' h = Some th' \<Longrightarrow> \<exists>th. heap s h = Some th \<and> tag_id th = tag_id th'"
  shows "tagged k s'"
  using assms unfolding tagged_def by metis

lemma tagged_spawn:
  assumes "tagged k s" and "chaos_thread_spawn has_fn tag m1 m2 cr s = (r, s', acts)" and "Suc (Suc k) < 2 ^ 32"
  shows "tagged k s' \<or> tagged (Suc k) s'"
proof -
  let ?c = "snd (pg_alloc_thread_tag (tags s))"
  have nx: "unat (g_next_thread_tag ?c) = Suc (Suc k)"
    using assms(1,3) by (simp add: tagged_def pg_alloc_thread_tag_def unat_word_ariths)
  have bump: "tagged (Suc k) (s\<lparr>tags := ?c\<rparr>)"
    using assms(1) nx by (auto simp: tagged_def intro: le_SucI)
  show ?thesis
  proof (cases "has_fn \<and> m1 \<and> m2 \<and> cr")
    case False
    with assms(1,2) bump show ?thesis
      by (auto simp: chaos_thread_spawn_def Let_def case_prod_beta split: if_splits)
  next
    case True
    let ?th = "\<lparr>tag_name = cfield 32 (or_empty tag), tag_id = g_next_thread_tag (tags s), stop_flag = False\<rparr>"
    have "s' = s\<lparr>tags := ?c, heap := (heap s)(fresh s \<mapsto> ?th), fresh := Suc (fresh s)\<rparr>"
      using assms(2) True by (simp add: chaos_thread_spawn_def pg_alloc_thread_tag_def Let_def)
    moreover have "unat (tag_id ?th) = Suc k" using assms(1) by (simp add: tagged_def)
    ultimately have "tagged (Suc k) s'"
      using bump nx by (auto simp: tagged_def) (metis Suc_n_not_le_n assms(1) tagged_def)+
    then show ?thesis ..
  qed
qed

lemma tagged_step:
  assumes "client_step slack late (Some u) (Some u')" and "tagged k (c_threads u)" and "Suc (Suc k) < 2 ^ 32"
  shows "tagged k (c_threads u') \<or> tagged (Suc k) (c_threads u')"
  using assms(1)
proof cases
  case (spawns has_fn tag m1 m2 cr r s acts)
  with tagged_spawn [OF assms(2) spawns(2) assms(3)] show ?thesis by simp
next
  case (asks h)
  then have "u' = u" by (cases "chaos_thread_should_stop (Some h) (c_threads u)") simp_all
  with assms(2) show ?thesis by simp
qed (use assms(2) in \<open>auto simp: chaos_thread_join_def chaos_thread_cancel_def chaos_thread_cancel_at_ns_def
      cancel_after_fn_def split: option.splits if_splits intro!: disjI1 tagged_mono_heap [OF assms(2)]\<close>)

lemma tagged_steps:
  "(client_step slack late ^^ n) (Some u) (Some u') \<Longrightarrow> tagged 0 (c_threads u) \<Longrightarrow> n + 1 < 2 ^ 32
    \<Longrightarrow> \<exists>k \<le> n. tagged k (c_threads u')"
proof (induction n arbitrary: u')
  case (Suc n)
  then obtain r where r: "(client_step slack late ^^ n) (Some u) r" "client_step slack late r (Some u')" by auto
  then obtain v where v: "r = Some v" by (auto elim: client_stepE)
  with Suc r(1) obtain k where k: "k \<le> n" "tagged k (c_threads v)" by auto
  have "Suc (Suc k) < 2 ^ 32" using Suc.prems(3) k(1) by simp
  from tagged_step [OF _ k(2) this] r(2) v show ?case using k(1) by (metis Suc_le_mono le_SucI)
qed auto

section \<open>Too early a join\<close>

text \<open>A client with one thread and a timer of 5 ns.\<close>

definition armed_client :: "child \<Rightarrow> client" where
  "armed_client c = \<lparr>c_threads = \<lparr>heap = [1 \<mapsto> \<lparr>tag_name = cfield 32 [], tag_id = g_next_thread_tag c, stop_flag = False\<rparr>],
       fresh = 2, armed = [\<lparr>target = 1, after_ns = 5\<rparr>], tags = snd (pg_alloc_thread_tag c)\<rparr>,
     c_mine = {1}, c_until = [1 \<mapsto> 5], c_due = [5], c_now = 0\<rparr>"

lemma armed_client_reached: "(client_step slack late)\<^sup>*\<^sup>* (Some (new_client c)) (Some (armed_client c))"
proof -
  define th where "th = \<lparr>tag_name = cfield 32 [], tag_id = g_next_thread_tag c, stop_flag = False\<rparr>"
  define s where "s = \<lparr>heap = [1 \<mapsto> th], fresh = 2, armed = [], tags = snd (pg_alloc_thread_tag c)\<rparr>"
  define u where "u = (new_client c)\<lparr>c_threads := s, c_mine := {1}\<rparr>"
  have sp: "chaos_thread_spawn True None True True True (c_threads (new_client c))
      = (Some 1, s, [SysMalloc, SysMalloc, SysThreadCreate])"
    unfolding chaos_thread_spawn_def by (simp add: new_client_def s_def th_def pg_alloc_thread_tag_def or_empty_def numeral_2_eq_2)
  have "client_step slack late (Some (new_client c)) (Some u)"
    using spawns [OF sp, of slack late] by (simp add: u_def new_client_def)
  moreover have ca: "chaos_thread_cancel_at_ns (Some 1) 5 True True (c_threads u)
      = (0, s\<lparr>armed := [\<lparr>target = 1, after_ns = 5\<rparr>]\<rparr>, [SysMalloc, SysThreadCreate, SysThreadDetach])"
    by (simp add: chaos_thread_cancel_at_ns_def u_def s_def)
  have "client_step slack late (Some u) (Some (armed_client c))"
    using arms [OF _ ca refl, of slack late]
    by (simp add: u_def s_def th_def armed_client_def new_client_def)
  ultimately show ?thesis by (meson converse_rtranclp_into_rtranclp rtranclp.rtrancl_refl)
qed

lemma early_join_reaches:
  assumes "slack \<le> late"
  shows "(client_step slack late)\<^sup>*\<^sup>* (Some (new_client c)) None"
proof -
  define u1 where "u1 = (armed_client c)\<lparr>c_now := 5 + slack\<rparr>"
  define u2 where "u2 = u1\<lparr>c_threads := (c_threads u1)\<lparr>heap := Map.empty\<rparr>, c_mine := {}, c_until := Map.empty\<rparr>"
  have "client_step slack late (Some (armed_client c)) (Some u1)"
    using passes [of "armed_client c" "5 + slack" late slack] assms by (simp add: u1_def armed_client_def)
  moreover have "client_step slack late (Some u1) (Some u2)"
    using joins [of 1 u1 slack late True] by (simp add: u1_def u2_def armed_client_def chaos_thread_join_def)
  moreover have "client_step slack late (Some u2) None"
    using fires [of 0 u2 slack late True]
    by (simp add: u1_def u2_def armed_client_def cancel_after_fn_def chaos_thread_cancel_def)
  ultimately show ?thesis
    using armed_client_reached [of slack late c] by (meson rtranclp.rtrancl_into_rtrancl)
qed

section \<open>Properties\<close>

text \<open>
  C26: what keeps a client of the timers from using a freed handle. The client spawns, cancels,
  polls, arms timers of any length and joins, in any order and however the calls turn out; it uses
  exactly the handles it got and has not joined, and joins one only \<open>slack\<close> ns after the last timer
  it armed for it was due. When timers go off at most \<open>late\<close> ns after they are due, no operation and
  no timer touches a freed handle if and only if \<open>late < slack\<close>. The header asks for
  \<open>slack = 0\<close> only, and that is never enough, even when every timer is punctual.
\<close>

theorem disciplined_clients_are_safe:
  "(\<forall>r. (client_step slack late)\<^sup>*\<^sup>* (Some (new_client c)) r \<longrightarrow> r \<noteq> None) \<longleftrightarrow> late < slack"
proof
  assume "late < slack"
  then have "client_safe slack late (Some (new_client c))"
    by (simp add: client_safe_def client_ok_def new_client_def)
  then show "\<forall>r. (client_step slack late)\<^sup>*\<^sup>* (Some (new_client c)) r \<longrightarrow> r \<noteq> None"
    using client.inv_reaches by (fastforce simp: client_safe_def)
next
  assume safe: "\<forall>r. (client_step slack late)\<^sup>*\<^sup>* (Some (new_client c)) r \<longrightarrow> r \<noteq> None"
  show "late < slack"
  proof (rule ccontr)
    assume "\<not> late < slack"
    then show False using safe early_join_reaches [of slack late c] by auto
  qed
qed

text \<open>The client that is as careful as it has to be, and the one that keeps to the header.\<close>

theorem disciplined_clients_are_safe_witness:
  "(client_step 6 5)\<^sup>*\<^sup>* (Some (new_client (demo_child []))) (Some (armed_client (demo_child [])))
    \<and> (client_step 0 0)\<^sup>*\<^sup>* (Some (new_client (demo_child []))) None
    \<and> \<not> (client_step 6 5)\<^sup>*\<^sup>* (Some (new_client (demo_child []))) None"
  using disciplined_clients_are_safe [of 6 5 "demo_child []"] armed_client_reached [of 6 5]
    early_join_reaches [of 0 0] by auto

text \<open>
  events can be told apart by thread. As long as a client has made fewer than \<open>2 ^ 32\<close>
  steps, the live handles have pairwise different, non-zero tags, and an event that a spawned
  thread emits without a tag of its own carries the tag of its handle.
\<close>

theorem thread_tags_distinct:
  assumes "(client_step slack late ^^ n) (Some (new_client c)) (Some u)" and "g_next_thread_tag c = 1"
    and "n < 2 ^ 32 - 1"
  defines "s \<equiv> c_threads u"
  shows "(\<forall>h h' th th'. heap s h = Some th \<longrightarrow> heap s h' = Some th' \<longrightarrow> h \<noteq> h'
        \<longrightarrow> tag_id th \<noteq> tag_id th' \<and> tag_id th \<noteq> 0)
    \<and> (\<forall>h th ev. heap s h = Some th \<longrightarrow> ev_thread_tag ev = 0 \<longrightarrow> tag_id th \<noteq> 0
        \<longrightarrow> ev_thread_tag (fst (thread_wrap (tag_id th) (stamp ev) c)) = tag_id th)"
proof -
  have "tagged 0 (c_threads (new_client c))" using assms(2) by (simp add: tagged_def new_client_def)
  from tagged_steps [OF assms(1) this] assms(3) obtain k where k: "tagged k s" by (auto simp: s_def)
  have attr: "ev_thread_tag (fst (thread_wrap t (stamp ev) c)) = t" if "ev_thread_tag ev = 0" "t \<noteq> 0" for t ev
    using that by (simp add: thread_wrap_def stamp_def now_ns_def Let_def)
  have nz: "tag_id th \<noteq> 0" if "heap s h = Some th" for h th
  proof
    assume "tag_id th = 0"
    moreover have "0 < unat (tag_id th)" using k that by (simp add: tagged_def)
    ultimately show False by simp
  qed
  have inj: "h = h'" if "heap s h = Some th" "heap s h' = Some th'" "tag_id th = tag_id th'" for h h' th th'
    using k that unfolding tagged_def by blast
  show ?thesis
    by (intro conjI allI impI) (use nz inj attr in \<open>simp_all, metis\<close>)
qed

theorem thread_tags_distinct_witness:
  "\<exists>u a. (client_step 1 0 ^^ 1) (Some (new_client (demo_child []))) (Some u)
    \<and> heap (c_threads u) 1 = Some a \<and> tag_id a \<noteq> 0
    \<and> ev_thread_tag (fst (thread_wrap (tag_id a) (stamp (log_event [65])) (demo_child []))) = tag_id a"
proof -
  let ?c = "demo_child []"
  obtain r s acts where sp: "chaos_thread_spawn True None True True True (c_threads (new_client ?c)) = (r, s, acts)"
    by (cases "chaos_thread_spawn True None True True True (c_threads (new_client ?c))")
  define u where "u = (new_client ?c)\<lparr>c_threads := s,
    c_mine := (case r of None \<Rightarrow> c_mine (new_client ?c) | Some h \<Rightarrow> insert h (c_mine (new_client ?c)))\<rparr>"
  have st: "(client_step 1 0 ^^ 1) (Some (new_client ?c)) (Some u)"
    unfolding u_def relpowp_1 by (rule spawns [OF sp])
  obtain a where a: "heap (c_threads u) 1 = Some a" "tag_id a = 1"
    using sp by (auto simp: u_def chaos_thread_spawn_def new_client_def pg_alloc_thread_tag_def Let_def demo_child_def)
  have "g_next_thread_tag ?c = 1" by (simp add: demo_child_def)
  note d = thread_tags_distinct [OF st this]
  have "(1 :: nat) < 2 ^ 32 - 1" "tag_id a \<noteq> 0" using a(2) by simp_all
  with conjunct2 [OF d] a(1) have
    "ev_thread_tag (fst (thread_wrap (tag_id a) (stamp (log_event [65])) ?c)) = tag_id a" by simp
  with st a(1) \<open>tag_id a \<noteq> 0\<close> show ?thesis by blast
qed

text \<open>
  a hang ends with a report. When the watchdog goes off in a child whose pipe works, the
  child ends with status 2, and what it wrote is exactly one record of kind
  \<open>PG_EV_WATCHDOG\<close> whose text names what hung, cut to its 63 bytes.
\<close>

theorem watchdog_reports:
  assumes "chaos_thread_watchdog timeout w True True = (Some wd, acts)"
    and "g_runctx c = TheCtx" and "0 \<le> event_fd_w (ctx_obj c)" and "fair_to 256 (answers c)"
    and "w = Some s" and "0 \<notin> set s"
  shows "\<exists>c' ev. watchdog_fn wd c = Some (c', Exits 2)
    \<and> pipe_bytes c' = pipe_bytes c @ encode_event ev \<and> header_ok ev \<and> event_wf ev
    \<and> kind_of (ev_kind ev) = Some PG_EV_WATCHDOG
    \<and> cstr (ev_text ev) = Some (bytes ''watchdog: '' @ take 63 s)"
proof -
  have wd: "cstr (what wd) = Some (take 63 s)"
    using assms(1,5,6) by (auto simp: chaos_thread_watchdog_def Let_def cstr_cfield)
  then have msg: "watchdog_message wd = bytes ''watchdog: '' @ take 63 s"
    by (simp add: watchdog_message_def bytes_def)
  have nonul: "0 \<notin> set (bytes ''watchdog: '' @ take 63 s)"
    using assms(6) by (auto simp: bytes_def dest: in_set_takeD)
  have rdy: "pipe_ready NullCtx c" using assms(2,3) by (simp add: pipe_ready_def)
  have fair: "fair_to (256 + 0) (answers c)" using assms(4) by simp
  let ?ev = "text_event PG_EV_WATCHDOG (Some (watchdog_message wd))"
  obtain c' copy where c': "pg_emit NullCtx (Some ?ev) c = Some c'"
      "pipe_bytes c' = pipe_bytes c @ encode_event copy" "same_payload ?ev copy"
      "event_wf copy" "header_ok copy"
    by (rule pg_emit_fair [OF rdy _ fair, of ?ev]) simp_all
  have "cstr (ev_text copy) = Some (bytes ''watchdog: '' @ take 63 s)"
  proof -
    have "cstr (cfield 192 (watchdog_message wd)) = Some (take 191 (watchdog_message wd))"
      using nonul by (simp add: cstr_cfield msg del: set_append)
    moreover have "length (watchdog_message wd) \<le> 191" by (simp add: msg)
    ultimately show ?thesis
      using c'(3) by (simp add: same_payload_def text_event_def or_empty_def PG_EVENT_TEXT_LEN_def msg)
  qed
  moreover have "kind_of (ev_kind copy) = Some PG_EV_WATCHDOG"
    using c'(3) by (simp add: same_payload_def text_event_def blank_event_def del: kind_code.simps)
  ultimately show ?thesis
    using c' by (intro exI [of _ c'] exI [of _ copy]) (simp add: watchdog_fn_def pg_watchdog_def)
qed

theorem watchdog_reports_witness:
  "\<exists>wd acts c' ev. chaos_thread_watchdog 5 (Some [65]) True True = (Some wd, acts)
    \<and> watchdog_fn wd (demo_child (replicate 300 (Moves 1))) = Some (c', Exits 2)
    \<and> pipe_bytes c' = encode_event ev \<and> cstr (ev_text ev) = Some (bytes ''watchdog: '' @ [65])"
proof -
  obtain wd acts where w: "chaos_thread_watchdog 5 (Some [65]) True True = (Some wd, acts)"
    by (simp add: chaos_thread_watchdog_def Let_def)
  from watchdog_reports [OF w, of "demo_child (replicate 300 (Moves 1))" "[65]"] w show ?thesis
    by (auto simp: demo_child_def fair_to_def)
qed

end
