(* ===== verification/Scen_Concurrency.thy ===== *)
theory Scen_Concurrency
  imports Script Chaos_Thread
begin

text \<open>
  The scenarios of \<open>src/scenarios/concurrency\<close>. The two that race are step relations: the main
  thread and the threads it makes are program counters over the shared variables, and in every step
  one of them makes its next access, in any order. Accesses to a shared variable are taken to be
  sequentially consistent and whole. \<open>thread_cancel_midwrite\<close> is a script that depends on how
  far its thread gets.
\<close>

section \<open>race_counter.c\<close>

abbreviation (input) WRITERS :: nat where "WRITERS \<equiv> 8"
abbreviation (input) WRITES :: nat where "WRITES \<equiv> 1000"

text \<open>
  \<open>Loop i\<close> is a writer at the head of its loop, \<open>Holding i v\<close> one that has read \<open>v\<close> and
  not stored yet.
\<close>

datatype writer = Loop nat | Holding nat int | Finished

datatype rc_main = Spawning nat | Spawned nat | Joining nat | Back int

record rc_state =
  rc_counter :: int
  rc_writers :: "writer list"
  rc_pc :: rc_main
  rc_out :: "pg_event_t list"

definition rc_start :: rc_state where
  "rc_start = \<lparr>rc_counter = 0, rc_writers = [], rc_pc = Spawning 0,
     rc_out = [ev_phase ''spawning writers'', ev_expect ''counter'' (of_nat (WRITERS * WRITES))]\<rparr>"

text \<open>\<open>pct lost expected\<close> renders the percentage with one decimal.\<close>

definition rc_report :: "(int \<Rightarrow> int \<Rightarrow> string) \<Rightarrow> int \<Rightarrow> pg_event_t list" where
  "rc_report pct counter =
     (let expected = int (WRITERS * WRITES);
          lost = expected - counter
      in [ev_actual ''counter'' (of_int counter),
          ev_log (''lost '' @ show_int lost @ '' of '' @ show_int expected @ '' writes ('' @ pct lost expected @ ''%)'')])"

inductive rc_step :: "(int \<Rightarrow> int \<Rightarrow> string) \<Rightarrow> rc_state \<Rightarrow> rc_state \<Rightarrow> bool" for pct where
  create: "rc_pc s = Spawning i \<Longrightarrow> i < WRITERS
    \<Longrightarrow> rc_step pct s (s\<lparr>rc_writers := rc_writers s @ [Loop 0], rc_pc := Spawned i\<rparr>)"
| create_fails: "rc_pc s = Spawning i \<Longrightarrow> i < WRITERS
    \<Longrightarrow> rc_step pct s (s\<lparr>rc_out := rc_out s @ [ev_fault ''pthread_create failed''], rc_pc := Back 1\<rparr>)"
| announce: "rc_pc s = Spawned i
    \<Longrightarrow> rc_step pct s (s\<lparr>rc_out := rc_out s @ [ev_log (''spawned writer '' @ show_int (int (i + 1)))],
          rc_pc := Spawning (Suc i)\<rparr>)"
| all_spawned: "rc_pc s = Spawning i \<Longrightarrow> \<not> i < WRITERS
    \<Longrightarrow> rc_step pct s (s\<lparr>rc_out := rc_out s @ [ev_phase ''joining''], rc_pc := Joining 0\<rparr>)"
| join: "rc_pc s = Joining j \<Longrightarrow> j < WRITERS \<Longrightarrow> rc_writers s ! j = Finished
    \<Longrightarrow> rc_step pct s (s\<lparr>rc_pc := Joining (Suc j)\<rparr>)"
| report: "rc_pc s = Joining j \<Longrightarrow> \<not> j < WRITERS
    \<Longrightarrow> rc_step pct s (s\<lparr>rc_out := rc_out s @ rc_report pct (rc_counter s), rc_pc := Back 0\<rparr>)"
| load: "k < length (rc_writers s) \<Longrightarrow> rc_writers s ! k = Loop i \<Longrightarrow> i < WRITES
    \<Longrightarrow> rc_step pct s (s\<lparr>rc_writers := (rc_writers s)[k := Holding i (rc_counter s)]\<rparr>)"
| store: "k < length (rc_writers s) \<Longrightarrow> rc_writers s ! k = Holding i v
    \<Longrightarrow> rc_step pct s (s\<lparr>rc_counter := v + 1, rc_writers := (rc_writers s)[k := Loop (Suc i)]\<rparr>)"
| finish: "k < length (rc_writers s) \<Longrightarrow> rc_writers s ! k = Loop i \<Longrightarrow> \<not> i < WRITES
    \<Longrightarrow> rc_step pct s (s\<lparr>rc_writers := (rc_writers s)[k := Finished],
          rc_out := rc_out s @ [ev_log (''writer '' @ show_int (int (k + 1)) @ '' finished'')]\<rparr>)"

definition rc_explain :: "pg_event_t list" where
  "rc_explain =
     [ev_log ''Multiple threads execute `*c = *c + 1` without synchronization.'',
      ev_log ''The read-modify-write is three steps; another thread can write'',
      ev_log ''between read and write, so its increment is silently lost.'',
      ev_log ''Fix: pthread_mutex around the update, or atomic_fetch_add.'']"

text \<open>The result of a run of the race that has ended in \<open>s\<close>.\<close>

definition rc_result :: "rc_state \<Rightarrow> run_result" where
  "rc_result s = (case rc_pc s of Back r \<Rightarrow> Some (rc_out s, Returns r) | _ \<Rightarrow> None)"

section \<open>deadlock_classic.c\<close>

datatype mutex = MutexA | MutexB

record locker_arg_t =
  first :: mutex
  second :: mutex
  hold_ms :: int

text \<open>Where a locker is, by what it does next; \<open>Gone\<close> has returned or was never made.\<close>

datatype locker =
    SaysFirst | WantsFirst | SaysGot | Sleeping | WantsSecond | SaysBoth | FreesSecond | FreesFirst | Gone

datatype dl_main = JoinT1 | JoinT2 | Ended "int outcome"

text \<open>
  The watchdog thread: not made, in its sleep, or between the two calls after it, \<open>pg_watchdog\<close>
  and \<open>_exit\<close>.
\<close>

datatype wd_thread = WdOff | WdAsleep | WdSaid

record dl_state =
  owner :: "mutex \<Rightarrow> nat option"
  lockers :: "locker list"
  dl_pc :: dl_main
  dl_wd :: wd_thread
  dl_out :: "pg_event_t list"

text \<open>\<open>arg1\<close> and \<open>arg2\<close>: the two orders of the scenario.\<close>

definition dl_args :: "locker_arg_t list" where
  "dl_args =
     [\<lparr>first = MutexA, second = MutexB, hold_ms = 50\<rparr>, \<lparr>first = MutexB, second = MutexA, hold_ms = 50\<rparr>]"

text \<open>
  \<open>okw\<close>, \<open>ok1\<close> and \<open>ok2\<close> say whether the watchdog and the two threads could be made; joining
  \<open>NULL\<close> returns at once.
\<close>

definition dl_start :: "bool \<Rightarrow> bool \<Rightarrow> bool \<Rightarrow> dl_state" where
  "dl_start okw ok1 ok2 = \<lparr>owner = (\<lambda>m. None),
     lockers = [if ok1 then SaysFirst else Gone, if ok2 then SaysFirst else Gone], dl_pc = JoinT1,
     dl_wd = (if okw then WdAsleep else WdOff),
     dl_out =
       [ev_phase ''two threads, opposite lock order'',
        ev_log ''T1 wants A then B; T2 wants B then A; small hold delay biases the race'',
        ev_log ''watchdog will fire after 2s if both threads end up waiting forever'',
        ev_expect ''watchdog_fired'' 1]\<rparr>"

definition running :: "dl_state \<Rightarrow> bool" where
  "running s \<longleftrightarrow> (case dl_pc s of Ended r \<Rightarrow> False | _ \<Rightarrow> True)"

definition advance :: "dl_state \<Rightarrow> nat \<Rightarrow> locker \<Rightarrow> pg_event_t list \<Rightarrow> dl_state" where
  "advance s k l evs = s\<lparr>lockers := (lockers s)[k := l], dl_out := dl_out s @ evs\<rparr>"

definition the_watchdog :: "wd_arg_t option" where
  "the_watchdog = fst (chaos_thread_watchdog (2 * 1000000000) (Some (bytes ''classic deadlock'')) True True)"

definition watchdog_record :: pg_event_t where
  "watchdog_record = text_event PG_EV_WATCHDOG (Some (watchdog_message (the the_watchdog)))"

inductive dl_step :: "locker_arg_t list \<Rightarrow> (mutex \<Rightarrow> u64) \<Rightarrow> dl_state \<Rightarrow> dl_state \<Rightarrow> bool" for args addr where
  say_first: "running s \<Longrightarrow> k < length (lockers s) \<Longrightarrow> lockers s ! k = SaysFirst
    \<Longrightarrow> dl_step args addr s
          (advance s k WantsFirst [ev_log (''lock first  ('' @ show_ptr (addr (first (args ! k))) @ '')'')])"
| lock_first: "running s \<Longrightarrow> k < length (lockers s) \<Longrightarrow> lockers s ! k = WantsFirst
    \<Longrightarrow> owner s (first (args ! k)) = None
    \<Longrightarrow> dl_step args addr s ((advance s k SaysGot [])\<lparr>owner := (owner s)(first (args ! k) \<mapsto> k)\<rparr>)"
| say_got: "running s \<Longrightarrow> k < length (lockers s) \<Longrightarrow> lockers s ! k = SaysGot
    \<Longrightarrow> dl_step args addr s
          (advance s k Sleeping [ev_log (''  got first; sleeping '' @ show_int (hold_ms (args ! k)) @ '' ms before grabbing second'')])"
| say_second: "running s \<Longrightarrow> k < length (lockers s) \<Longrightarrow> lockers s ! k = Sleeping
    \<Longrightarrow> dl_step args addr s
          (advance s k WantsSecond [ev_log (''lock second ('' @ show_ptr (addr (second (args ! k)))
             @ '') -- this is where the deadlock bites'')])"
| lock_second: "running s \<Longrightarrow> k < length (lockers s) \<Longrightarrow> lockers s ! k = WantsSecond
    \<Longrightarrow> owner s (second (args ! k)) = None
    \<Longrightarrow> dl_step args addr s ((advance s k SaysBoth [])\<lparr>owner := (owner s)(second (args ! k) \<mapsto> k)\<rparr>)"
| say_both: "running s \<Longrightarrow> k < length (lockers s) \<Longrightarrow> lockers s ! k = SaysBoth
    \<Longrightarrow> dl_step args addr s (advance s k FreesSecond [ev_log ''  got both; releasing''])"
| unlock_second: "running s \<Longrightarrow> k < length (lockers s) \<Longrightarrow> lockers s ! k = FreesSecond
    \<Longrightarrow> dl_step args addr s ((advance s k FreesFirst [])\<lparr>owner := (owner s)(second (args ! k) := None)\<rparr>)"
| unlock_first: "running s \<Longrightarrow> k < length (lockers s) \<Longrightarrow> lockers s ! k = FreesFirst
    \<Longrightarrow> dl_step args addr s ((advance s k Gone [])\<lparr>owner := (owner s)(first (args ! k) := None)\<rparr>)"
| join_t1: "dl_pc s = JoinT1 \<Longrightarrow> lockers s ! 0 = Gone \<Longrightarrow> dl_step args addr s (s\<lparr>dl_pc := JoinT2\<rparr>)"
| join_t2: "dl_pc s = JoinT2 \<Longrightarrow> lockers s ! 1 = Gone
    \<Longrightarrow> dl_step args addr s (s\<lparr>dl_pc := Ended (Returns 0), dl_out := dl_out s @ [ev_actual ''watchdog_fired'' 0]\<rparr>)"

text \<open>
  The two steps of \<open>watchdog_fn\<close>: the record, whenever its sleep is over, and the exit. Between
  them the other threads go on. A child whose \<open>run\<close> has returned is no longer in this relation,
  also when its watchdog has just spoken.
\<close>

inductive dl_watchdog :: "dl_state \<Rightarrow> dl_state \<Rightarrow> bool" where
  barks: "running s \<Longrightarrow> dl_wd s = WdAsleep
    \<Longrightarrow> dl_watchdog s (s\<lparr>dl_wd := WdSaid, dl_out := dl_out s @ [watchdog_record]\<rparr>)"
| exits: "running s \<Longrightarrow> dl_wd s = WdSaid
    \<Longrightarrow> dl_watchdog s (s\<lparr>dl_pc := Ended (Exits 2)\<rparr>)"

text \<open>What can happen to a run: a step of its threads, or the watchdog.\<close>

inductive dl_turn :: "locker_arg_t list \<Rightarrow> (mutex \<Rightarrow> u64) \<Rightarrow> dl_state \<Rightarrow> dl_state \<Rightarrow> bool" for args addr where
  walk: "dl_step args addr s t \<Longrightarrow> dl_turn args addr s t"
| bark: "dl_watchdog s t \<Longrightarrow> dl_turn args addr s t"

definition dl_result :: "dl_state \<Rightarrow> run_result" where
  "dl_result s = (case dl_pc s of Ended r \<Rightarrow> Some (dl_out s, r) | _ \<Rightarrow> None)"

section \<open>thread_cancel_midwrite.c\<close>

record record_t =
  f_a :: int
  f_b :: int
  f_c :: int
  f_d :: int
  f_e :: int
  f_f :: int
  f_g :: int
  f_h :: int

definition zero_record :: record_t where
  "zero_record = \<lparr>f_a = 0, f_b = 0, f_c = 0, f_d = 0, f_e = 0, f_f = 0, f_g = 0, f_h = 0\<rparr>"

text \<open>The eight assignments of the loop body, each followed by a cancellation point.\<close>

definition copier_body :: "(record_t \<Rightarrow> record_t) list" where
  "copier_body =
     [\<lambda>r. r\<lparr>f_a := 11\<rparr>, \<lambda>r. r\<lparr>f_b := 22\<rparr>, \<lambda>r. r\<lparr>f_c := 33\<rparr>, \<lambda>r. r\<lparr>f_d := 44\<rparr>,
      \<lambda>r. r\<lparr>f_e := 55\<rparr>, \<lambda>r. r\<lparr>f_f := 66\<rparr>, \<lambda>r. r\<lparr>f_g := 77\<rparr>, \<lambda>r. r\<lparr>f_h := 88\<rparr>]"

text \<open>The record when the thread is cancelled in the sleep after its \<open>n\<close>-th assignment.\<close>

fun copier_fn :: "nat \<Rightarrow> record_t \<Rightarrow> record_t" where
  "copier_fn 0 r = r"
| "copier_fn (Suc n) r = (copier_body ! (n mod 8)) (copier_fn n r)"

definition field_list :: "record_t \<Rightarrow> int list" where
  "field_list r = [f_a r, f_b r, f_c r, f_d r, f_e r, f_f r, f_g r, f_h r]"

text \<open>
  \<open>th\<close> and \<open>tm\<close> say whether the thread and its timer could be made: joining a \<open>NULL\<close> handle
  returns at once, and without the timer nothing ends the copier, so that the join does not return.
\<close>

definition tcm_run :: "bool \<Rightarrow> bool \<Rightarrow> nat \<Rightarrow> run_result" where
  "tcm_run th tm n =
     (if th \<and> \<not> tm then None
      else
        (let g_dst = (if th then copier_fn (Suc n) zero_record else zero_record);
             num = length (filter (\<lambda>v. v \<noteq> 0) (field_list g_dst))
         in Some
              ([ev_phase ''spawning copier; will cancel after 1ms (mid-record)'',
                ev_actual ''field_a'' (of_int (f_a g_dst)),
                ev_actual ''field_b'' (of_int (f_b g_dst)),
                ev_actual ''field_c'' (of_int (f_c g_dst)),
                ev_actual ''field_d'' (of_int (f_d g_dst)),
                ev_actual ''field_e'' (of_int (f_e g_dst)),
                ev_actual ''field_f'' (of_int (f_f g_dst)),
                ev_actual ''field_g'' (of_int (f_g g_dst)),
                ev_actual ''field_h'' (of_int (f_h g_dst)),
                ev_expect ''fields_set'' 8,
                ev_actual ''fields_set'' (of_nat num),
                ev_log (''after cancellation, '' @ show_int (int num) @ ''/8 fields contain real data; ''
                  @ show_int (8 - int num) @ '' are zero/torn''),
                ev_log ''another thread reading the struct now sees a half-constructed value.''],
               Returns 0)))"

section \<open>The descriptors\<close>

definition race_counter_scen :: "rc_state \<Rightarrow> unit pg_scenario_t" where
  "race_counter_scen s =
    \<lparr>sc_id = ''race_counter'',
      sc_title = ''Race: lost increments'',
      sc_one_liner = ''8 threads ++counter without locks'',
      sc_description = ''A canonical data race: threads read-modify-write a shared counter without synchronization.'',
      sc_expected = ''counter = 8000; actual usually less'',
      sc_lesson = Some (join_lines
       [(''Why this fails: '' @ [CHR 0x60] @ ''*counter = *counter + 1'' @ [CHR 0x60] @ '' is three operations: read,''),
        ''increment, write. Two threads can both read the same value, both'',
        ''increment to the same result, and both write back the same incremented'',
        ''value -- the second write silently overwrites the first.'',
        [],
        ''Fixes:'',
        ''  - pthread_mutex_lock around the update.'',
        ''  - atomic_fetch_add(&counter, 1) (C11 stdatomic.h).'',
        ''  - Single-writer architecture: one thread owns the value.'',
        [],
        ''TSan (clang -fsanitize=thread) reports the race exactly. Try:'',
        ''  cmake -B build-tsan -DCMAKE_BUILD_TYPE=Tsan && cmake --build build-tsan'',
        ''  ./build-tsan/playground_run --scenario race_counter'']),
      sc_category = PG_CAT_CONCURRENCY,
      sc_init = None,
      sc_run = (\<lambda>st. play_run (rc_result s)),
      sc_teardown = None,
      sc_explain = Some (\<lambda>st c. play (rc_explain, Returns ()) c)\<rparr>"

definition deadlock_classic_scen :: "dl_state \<Rightarrow> unit pg_scenario_t" where
  "deadlock_classic_scen s =
    \<lparr>sc_id = ''deadlock_classic'',
      sc_title = ''Deadlock: opposite lock order'',
      sc_one_liner = ''two threads, two mutexes, AB vs BA'',
      sc_description = ''Two threads acquire two mutexes in opposite orders; each waits forever for the other. Watchdog cuts the hang.'',
      sc_expected = ''watchdog fires; PG_EV_FAULT emitted; process exits 2'',
      sc_lesson = Some (join_lines
       [''Why this hangs: T1 holds A and waits for B. T2 holds B and waits'',
        ''for A. Each thread is waiting for what the other holds. Neither'',
        ''ever releases. The watchdog cuts the hang.'',
        [],
        ''Fixes:'',
        ''  - Always acquire locks in a fixed global order. If every thread'',
        ''    acquires A before B, no cycle is possible.'',
        ''  - pthread_mutex_trylock + backoff. If you can't get B, release'',
        ''    A and retry.'',
        ''  - Use a single mutex (eliminate the locking dance entirely).'',
        ''  - lockdep-style runtime ordering checks in dev builds.'']),
      sc_category = PG_CAT_CONCURRENCY,
      sc_init = None,
      sc_run = (\<lambda>st. play_run (dl_result s)),
      sc_teardown = None,
      sc_explain = None\<rparr>"

definition thread_cancel_midwrite_scen :: "bool \<Rightarrow> bool \<Rightarrow> nat \<Rightarrow> unit pg_scenario_t" where
  "thread_cancel_midwrite_scen th tm n =
    \<lparr>sc_id = ''thread_cancel_midwrite'',
      sc_title = ''Cancel mid-write: torn struct'',
      sc_one_liner = ''pthread_cancel a thread copying a struct'',
      sc_description = ''A thread copies an 8-field struct field-by-field. We cancel it 1ms in. Reader sees a half-written struct.'',
      sc_expected = ''fewer than 8 fields populated; readers see torn state'',
      sc_lesson = Some (join_lines
       [''Why this is dangerous: pthread_cancel can interrupt a thread at any'',
        ''cancellation point (read, write, sleep, mutex_timedlock, ...). If the'',
        ''thread was mid-update of a struct, fields are half-written. Other'',
        ''threads see torn state with no warning.'',
        [],
        ''Fixes:'',
        ''  - Disable cancellation around critical sections:'',
        ''      pthread_setcancelstate(PTHREAD_CANCEL_DISABLE, &old)'',
        ''  - Use pthread_cleanup_push to register rollback handlers.'',
        ''  - Avoid pthread_cancel; use a graceful shutdown flag the thread'',
        ''    polls between operations instead.'']),
      sc_category = PG_CAT_CONCURRENCY,
      sc_init = None,
      sc_run = (\<lambda>st. play_run (tcm_run th tm n)),
      sc_teardown = None,
      sc_explain = None\<rparr>"

section \<open>Lost updates\<close>

text \<open>How many of its stores a writer has made.\<close>

fun stores :: "writer \<Rightarrow> nat" where
  "stores (Loop i) = i"
| "stores (Holding i v) = i"
| "stores Finished = WRITES"

definition all_stores :: "rc_state \<Rightarrow> nat" where
  "all_stores s = sum_list (map stores (rc_writers s))"

definition writer_ok :: "nat \<Rightarrow> writer \<Rightarrow> bool" where
  "writer_ok n w \<longleftrightarrow>
     (case w of Loop i \<Rightarrow> i \<le> WRITES
      | Holding i v \<Rightarrow> i < WRITES \<and> 0 \<le> v \<and> v \<le> int n \<and> (0 < i \<longrightarrow> 1 \<le> v)
      | Finished \<Rightarrow> True)"

definition pc_ok :: "(int \<Rightarrow> int \<Rightarrow> string) \<Rightarrow> rc_state \<Rightarrow> bool" where
  "pc_ok pct s \<longleftrightarrow>
     (case rc_pc s of
        Spawning i \<Rightarrow> length (rc_writers s) = i \<and> i \<le> WRITERS
      | Spawned i \<Rightarrow> length (rc_writers s) = Suc i \<and> i < WRITERS
      | Joining j \<Rightarrow> length (rc_writers s) = WRITERS \<and> (\<forall>k < j. k < WRITERS \<longrightarrow> rc_writers s ! k = Finished)
      | Back r \<Rightarrow> length (rc_writers s) \<le> WRITERS \<and> (r = 1 \<or>
          r = 0 \<and> length (rc_writers s) = WRITERS \<and> (\<forall>k < WRITERS. rc_writers s ! k = Finished)
            \<and> (\<exists>pre. rc_out s = pre @ rc_report pct (rc_counter s))))"

definition rc_inv :: "(int \<Rightarrow> int \<Rightarrow> string) \<Rightarrow> rc_state \<Rightarrow> bool" where
  "rc_inv pct s \<longleftrightarrow>
     0 \<le> rc_counter s \<and> rc_counter s \<le> int (all_stores s)
     \<and> (\<forall>w \<in> set (rc_writers s). writer_ok (all_stores s) w)
     \<and> ((\<exists>w \<in> set (rc_writers s). 0 < stores w) \<longrightarrow> 1 \<le> rc_counter s)
     \<and> (rc_writers s \<noteq> [] \<and> (\<forall>w \<in> set (rc_writers s). stores w = WRITES) \<longrightarrow> 2 \<le> rc_counter s)
     \<and> pc_ok pct s"

lemma all_stores_update:
  "k < length ws \<Longrightarrow> sum_list (map stores (ws[k := w])) + stores (ws ! k) = sum_list (map stores ws) + stores w"
  by (induction ws arbitrary: k) (auto split: nat.splits)

lemma writer_ok_mono: "writer_ok n w \<Longrightarrow> n \<le> m \<Longrightarrow> writer_ok m w"
  by (auto simp: writer_ok_def split: writer.splits)

lemma stores_bound: "writer_ok n w \<Longrightarrow> stores w \<le> WRITES"
  by (cases w) (auto simp: writer_ok_def)

text \<open>A step of a writer that keeps the number of its stores and the counter.\<close>

lemma rc_inv_quiet:
  assumes "rc_inv pct s" and "k < length (rc_writers s)" and "stores w = stores (rc_writers s ! k)"
    and "writer_ok (all_stores s) w" and "rc_writers s ! k \<noteq> Finished"
  shows "rc_inv pct (s\<lparr>rc_writers := (rc_writers s)[k := w], rc_out := rc_out s @ evs\<rparr>)"
proof -
  let ?ws = "(rc_writers s)[k := w]"
  have sum: "sum_list (map stores ?ws) = all_stores s"
    using all_stores_update [OF assms(2), of w] assms(3) by (simp add: all_stores_def)
  have st: "map stores ?ws = map stores (rc_writers s)"
    using assms(3) by (simp add: map_update list_update_same_conv [THEN iffD2] assms(2))
  have ex: "(\<exists>w \<in> set ?ws. 0 < stores w) \<longleftrightarrow> (\<exists>w \<in> set (rc_writers s). 0 < stores w)"
    "(\<forall>w \<in> set ?ws. stores w = WRITES) \<longleftrightarrow> (\<forall>w \<in> set (rc_writers s). stores w = WRITES)"
    using arg_cong [OF st, of "\<lambda>xs. \<exists>x \<in> set xs. 0 < x"] arg_cong [OF st, of "\<lambda>xs. \<forall>x \<in> set xs. x = WRITES"]
    by simp_all
  have "\<forall>x \<in> set ?ws. writer_ok (all_stores s) x"
    using assms(1,4) set_update_subset_insert [of "rc_writers s" k w] by (auto simp: rc_inv_def)
  moreover have "pc_ok pct (s\<lparr>rc_writers := ?ws, rc_out := rc_out s @ evs\<rparr>)"
    using assms(1,2,5) by (auto simp: rc_inv_def pc_ok_def nth_list_update split: rc_main.splits)
  ultimately show ?thesis
    using assms(1) sum ex by (simp add: rc_inv_def all_stores_def)
qed

lemma rc_inv_store:
  assumes "rc_inv pct s" and "k < length (rc_writers s)" and "rc_writers s ! k = Holding i v"
  shows "rc_inv pct (s\<lparr>rc_counter := v + 1, rc_writers := (rc_writers s)[k := Loop (Suc i)]\<rparr>)"
proof -
  let ?ws = "(rc_writers s)[k := Loop (Suc i)]"
  have mem: "Holding i v \<in> set (rc_writers s)" using assms(2,3) nth_mem by metis
  then have hold: "i < WRITES" "0 \<le> v" "v \<le> int (all_stores s)" "0 < i \<longrightarrow> 1 \<le> v"
    using assms(1) by (auto simp: rc_inv_def writer_ok_def)
  have sum: "sum_list (map stores ?ws) = Suc (all_stores s)"
    using all_stores_update [OF assms(2), of "Loop (Suc i)"] assms(3) by (simp add: all_stores_def)
  have ok: "\<forall>x \<in> set ?ws. writer_ok (Suc (all_stores s)) x"
  proof
    fix x assume "x \<in> set ?ws"
    then have "x = Loop (Suc i) \<or> x \<in> set (rc_writers s)"
      using set_update_subset_insert [of "rc_writers s" k "Loop (Suc i)"] by auto
    then show "writer_ok (Suc (all_stores s)) x"
      using hold(1) assms(1) by (auto simp: rc_inv_def writer_ok_def [of _ "Loop (Suc i)"] intro: writer_ok_mono)
  qed
  have "2 \<le> v + 1" if "\<forall>w \<in> set ?ws. stores w = WRITES"
  proof -
    have "Loop (Suc i) \<in> set ?ws" using assms(2) by (simp add: set_update_memI)
    with that have "Suc i = WRITES" by (metis stores.simps(1))
    with hold(4) show ?thesis by simp
  qed
  moreover have "pc_ok pct (s\<lparr>rc_counter := v + 1, rc_writers := ?ws\<rparr>)"
    using assms by (auto simp: rc_inv_def pc_ok_def nth_list_update split: rc_main.splits)
  ultimately show ?thesis
    using hold ok sum by (simp add: rc_inv_def all_stores_def)
qed

lemma rc_inv_step: "rc_step pct s t \<Longrightarrow> rc_inv pct s \<Longrightarrow> rc_inv pct t"
proof (induction rule: rc_step.induct)
  case (create s i)
  then show ?case
    by (auto simp: rc_inv_def all_stores_def pc_ok_def writer_ok_def [of _ "Loop 0"])
next
  case (load k s i)
  then have "Loop i \<in> set (rc_writers s)" by (metis nth_mem)
  with load have "0 < i \<longrightarrow> 1 \<le> rc_counter s" unfolding rc_inv_def by force
  with load have "writer_ok (all_stores s) (Holding i (rc_counter s))"
    by (simp add: rc_inv_def writer_ok_def)
  with rc_inv_quiet [of pct s k "Holding i (rc_counter s)" "[]"] load show ?case by simp
next
  case (store k s i v)
  then show ?case by (blast intro: rc_inv_store)
next
  case (finish k s i)
  then have "Loop i \<in> set (rc_writers s)" by (metis nth_mem)
  with finish.prems have "writer_ok (all_stores s) (Loop i)" unfolding rc_inv_def by blast
  with finish.hyps have "i = WRITES" by (simp add: writer_ok_def)
  with rc_inv_quiet [of pct s k Finished] finish show ?case by (simp add: writer_ok_def)
next
  case (join s j)
  then show ?case by (auto simp: rc_inv_def all_stores_def pc_ok_def less_Suc_eq)
qed (auto simp: rc_inv_def all_stores_def pc_ok_def)

interpretation rc: step_system "rc_step pct" "rc_inv pct" for pct
  by unfold_locales (rule rc_inv_step)

lemma rc_inv_start: "rc_inv pct rc_start"
  by (simp add: rc_inv_def rc_start_def all_stores_def pc_ok_def)

text \<open>
  C12: how many increments the race can lose. Whatever the schedule, a run of \<open>race_counter\<close>
  that comes back reports a counter between 2 and 8000: no increment is made up, and at most 7998
  of the 8000 are lost.
\<close>

theorem race_counter_bounds:
  assumes "(rc_step pct)\<^sup>*\<^sup>* rc_start s" and "rc_result s = Some (evs, Returns 0)"
  shows "\<exists>pre c. evs = pre @ rc_report pct c \<and> 2 \<le> c \<and> c \<le> 8000"
proof -
  have inv: "rc_inv pct s" using rc.inv_reaches [OF assms(1) rc_inv_start] .
  from assms(2) have pc: "rc_pc s = Back 0" and evs: "evs = rc_out s"
    by (auto simp: rc_result_def split: rc_main.splits)
  with inv have len: "length (rc_writers s) = WRITERS" and fin: "\<forall>k < WRITERS. rc_writers s ! k = Finished"
    and out: "\<exists>pre. rc_out s = pre @ rc_report pct (rc_counter s)"
    by (auto simp: rc_inv_def pc_ok_def)
  have ws: "rc_writers s = replicate WRITERS Finished"
    using len fin by (simp add: list_eq_iff_nth_eq)
  then have "all_stores s = 8000" by (simp add: all_stores_def sum_list_replicate)
  with inv ws have "2 \<le> rc_counter s" "rc_counter s \<le> 8000" by (auto simp: rc_inv_def)
  with out evs show ?thesis by blast
qed

section \<open>The bounds are reached\<close>

text \<open>The states with a given counter, writers and main thread, whatever has been emitted.\<close>

fun rc_at :: "int \<times> writer list \<times> rc_main \<Rightarrow> rc_state \<Rightarrow> bool" where
  "rc_at (c, ws, pc) s \<longleftrightarrow> rc_counter s = c \<and> rc_writers s = ws \<and> rc_pc s = pc"

definition leads ::
    "(int \<Rightarrow> int \<Rightarrow> string) \<Rightarrow> int \<times> writer list \<times> rc_main \<Rightarrow> int \<times> writer list \<times> rc_main \<Rightarrow> bool" where
  "leads pct a b \<longleftrightarrow> leads_to (rc_step pct) (rc_at a) (rc_at b)"

lemma leads_refl: "leads pct a a"
  by (simp add: leads_def leads_to_refl)

lemma leads_trans [trans]: "leads pct a b \<Longrightarrow> leads pct b c \<Longrightarrow> leads pct a c"
  unfolding leads_def by (rule leads_to_trans)

lemma leads_step:
  assumes "\<And>s. rc_at a s \<Longrightarrow> \<exists>t. rc_step pct s t \<and> rc_at b t"
  shows "leads pct a b"
  unfolding leads_def using assms by (rule leads_to_step)

lemma leads_load: "k < length ws \<Longrightarrow> ws ! k = Loop i \<Longrightarrow> i < WRITES
    \<Longrightarrow> leads pct (c, ws, pc) (c, ws[k := Holding i c], pc)"
  by (rule leads_step) (auto intro!: exI rc_step.load)

lemma leads_store: "k < length ws \<Longrightarrow> ws ! k = Holding i v
    \<Longrightarrow> leads pct (c, ws, pc) (v + 1, ws[k := Loop (Suc i)], pc)"
  by (rule leads_step) (auto intro!: exI rc_step.store)

lemma leads_finish: "k < length ws \<Longrightarrow> ws ! k = Loop WRITES
    \<Longrightarrow> leads pct (c, ws, pc) (c, ws[k := Finished], pc)"
  by (rule leads_step) (auto intro!: exI rc_step.finish)

text \<open>A writer that runs alone counts every one of its increments.\<close>

lemma leads_alone:
  assumes "k < length ws" and "ws ! k = Loop i" and "i + m \<le> WRITES"
  shows "leads pct (c, ws, pc) (c + int m, ws[k := Loop (i + m)], pc)"
  using assms(3)
proof (induction m)
  case 0
  then show ?case using assms(1,2) by (simp add: leads_refl list_update_same_conv [THEN iffD2])
next
  case (Suc m)
  let ?ws = "ws[k := Loop (i + m)]"
  have "leads pct (c, ws, pc) (c + int m, ?ws, pc)" using Suc by simp
  also have "leads pct (c + int m, ?ws, pc) (c + int m, ?ws[k := Holding (i + m) (c + int m)], pc)"
    using Suc.prems assms(1) by (intro leads_load) simp_all
  also have "leads pct (c + int m, ?ws[k := Holding (i + m) (c + int m)], pc)
      (c + int m + 1, ?ws[k := Holding (i + m) (c + int m), k := Loop (Suc (i + m))], pc)"
    using assms(1) by (intro leads_store) simp_all
  finally show ?case by (simp add: ac_simps)
qed

lemma leads_spawn:
  assumes "i \<le> WRITERS"
  shows "leads pct (0, [], Spawning 0) (0, replicate i (Loop 0), Spawning i)"
  using assms
proof (induction i)
  case 0
  show ?case by (simp add: leads_refl)
next
  case (Suc i)
  have "leads pct (0, [], Spawning 0) (0, replicate i (Loop 0), Spawning i)" using Suc by simp
  also have "leads pct (0, replicate i (Loop 0), Spawning i) (0, replicate i (Loop 0) @ [Loop 0], Spawned i)"
    using Suc.prems by (intro leads_step) (auto intro!: exI rc_step.create)
  also have "leads pct (0, replicate i (Loop 0) @ [Loop 0], Spawned i)
      (0, replicate i (Loop 0) @ [Loop 0], Spawning (Suc i))"
    by (rule leads_step) (auto intro!: exI rc_step.announce)
  finally show ?case by (simp add: replicate_append_same)
qed

lemma leads_join:
  assumes "j \<le> WRITERS"
  shows "leads pct (c, replicate WRITERS Finished, Joining 0) (c, replicate WRITERS Finished, Joining j)"
  using assms
proof (induction j)
  case 0
  show ?case by (simp add: leads_refl)
next
  case (Suc j)
  have "leads pct (c, replicate WRITERS Finished, Joining 0) (c, replicate WRITERS Finished, Joining j)"
    using Suc by simp
  also have "leads pct (c, replicate WRITERS Finished, Joining j) (c, replicate WRITERS Finished, Joining (Suc j))"
    using Suc.prems by (intro leads_step) (auto intro!: exI rc_step.join)
  finally show ?case .
qed

lemma replicate_next:
  "n < N \<Longrightarrow> (replicate n a @ replicate (N - n) b)[n := a] = replicate (Suc n) a @ replicate (N - Suc n) b"
  by (auto dest!: less_imp_Suc_add simp: list_update_append replicate_app_Cons_same)

lemma leads_finish_all:
  assumes "n \<le> WRITERS"
  shows "leads pct (c, replicate WRITERS (Loop WRITES), pc)
      (c, replicate n Finished @ replicate (WRITERS - n) (Loop WRITES), pc)"
  using assms
proof (induction n)
  case 0
  show ?case by (simp add: leads_refl)
next
  case (Suc n)
  let ?ws = "replicate n Finished @ replicate (WRITERS - n) (Loop WRITES)"
  have "leads pct (c, replicate WRITERS (Loop WRITES), pc) (c, ?ws, pc)" using Suc by simp
  also have "leads pct (c, ?ws, pc) (c, ?ws[n := Finished], pc)"
    using Suc.prems by (intro leads_finish) (simp_all add: nth_append)
  also have "?ws[n := Finished] = replicate (Suc n) Finished @ replicate (WRITERS - Suc n) (Loop WRITES)"
    using Suc.prems by (intro replicate_next) simp
  finally show ?case .
qed

lemma leads_end:
  assumes "leads pct (0, replicate WRITERS (Loop 0), Joining 0) (c, replicate WRITERS (Loop WRITES), Joining 0)"
  shows "\<exists>s. (rc_step pct)\<^sup>*\<^sup>* rc_start s \<and> rc_counter s = c \<and> rc_pc s = Back 0"
proof -
  have "leads pct (0, [], Spawning 0) (0, replicate WRITERS (Loop 0), Spawning WRITERS)"
    by (rule leads_spawn) simp
  also have "leads pct (0, replicate WRITERS (Loop 0), Spawning WRITERS) (0, replicate WRITERS (Loop 0), Joining 0)"
    by (rule leads_step) (auto intro!: exI rc_step.all_spawned)
  also note assms
  also have "leads pct (c, replicate WRITERS (Loop WRITES), Joining 0) (c, replicate WRITERS Finished, Joining 0)"
    using leads_finish_all [of WRITERS pct c "Joining 0"] by simp
  also have "leads pct (c, replicate WRITERS Finished, Joining 0) (c, replicate WRITERS Finished, Joining WRITERS)"
    by (rule leads_join) simp
  also have "leads pct (c, replicate WRITERS Finished, Joining WRITERS) (c, replicate WRITERS Finished, Back 0)"
    by (rule leads_step) (auto intro!: exI rc_step.report)
  finally have "leads pct (0, [], Spawning 0) (c, replicate WRITERS Finished, Back 0)" .
  moreover have "rc_at (0, [], Spawning 0) rc_start" by (simp add: rc_start_def)
  ultimately show ?thesis by (auto simp: leads_def leads_to_def)
qed

lemma eight: "replicate WRITERS x = [x, x, x, x, x, x, x, x]"
  by (simp add: numeral_eq_Suc)

text \<open>One after the other: nothing is lost.\<close>

lemma leads_in_turn:
  "leads pct (0, replicate WRITERS (Loop 0), pc) (8000, replicate WRITERS (Loop WRITES), pc)"
proof -
  have step: "k < 8 \<Longrightarrow> leads pct (c, replicate k (Loop WRITES) @ replicate (8 - k) (Loop 0), pc)
      (c + 1000, replicate (Suc k) (Loop WRITES) @ replicate (8 - Suc k) (Loop 0), pc)" for k c
    using leads_alone [of k "replicate k (Loop WRITES) @ replicate (8 - k) (Loop 0)" 0 WRITES pct c pc]
    by (simp add: nth_append replicate_next del: replicate_Suc)
  have "k \<le> 8 \<Longrightarrow> leads pct (0, replicate WRITERS (Loop 0), pc)
      (1000 * int k, replicate k (Loop WRITES) @ replicate (8 - k) (Loop 0), pc)" for k
  proof (induction k)
    case 0
    show ?case by (simp add: leads_refl)
  next
    case (Suc k)
    then have "leads pct (0, replicate WRITERS (Loop 0), pc)
      (1000 * int k, replicate k (Loop WRITES) @ replicate (8 - k) (Loop 0), pc)" by simp
    also have "leads pct (1000 * int k, replicate k (Loop WRITES) @ replicate (8 - k) (Loop 0), pc)
      (1000 * int k + 1000, replicate (Suc k) (Loop WRITES) @ replicate (8 - Suc k) (Loop 0), pc)"
      using Suc.prems by (intro step) simp
    finally show ?case by (simp only: of_nat_Suc distrib_left) (simp add: add.commute)
  qed
  from this [of 8] show ?thesis by simp
qed

text \<open>
  The worst schedule: the first writer reads 0 and waits until the others are almost done, then
  throws their work away; the last one keeps what it reads then until the first is done.
\<close>

lemma leads_minimal:
  "leads pct (0, replicate WRITERS (Loop 0), pc) (2, replicate WRITERS (Loop WRITES), pc)"
proof -
  let ?d = "Loop WRITES" and ?n = "Loop 0"
  have "leads pct (0, [?n, ?n, ?n, ?n, ?n, ?n, ?n, ?n], pc) (0, [Holding 0 0, ?n, ?n, ?n, ?n, ?n, ?n, ?n], pc)"
    using leads_load [of 0 "[?n, ?n, ?n, ?n, ?n, ?n, ?n, ?n]" 0 pct 0 pc] by simp
  also have "leads pct \<dots> (1000, [Holding 0 0, ?d, ?n, ?n, ?n, ?n, ?n, ?n], pc)"
    using leads_alone [of 1 "[Holding 0 0, ?n, ?n, ?n, ?n, ?n, ?n, ?n]" 0 1000 pct 0 pc] by simp
  also have "leads pct \<dots> (2000, [Holding 0 0, ?d, ?d, ?n, ?n, ?n, ?n, ?n], pc)"
    using leads_alone [of 2 "[Holding 0 0, ?d, ?n, ?n, ?n, ?n, ?n, ?n]" 0 1000 pct 1000 pc] by simp
  also have "leads pct \<dots> (3000, [Holding 0 0, ?d, ?d, ?d, ?n, ?n, ?n, ?n], pc)"
    using leads_alone [of 3 "[Holding 0 0, ?d, ?d, ?n, ?n, ?n, ?n, ?n]" 0 1000 pct 2000 pc] by simp
  also have "leads pct \<dots> (4000, [Holding 0 0, ?d, ?d, ?d, ?d, ?n, ?n, ?n], pc)"
    using leads_alone [of 4 "[Holding 0 0, ?d, ?d, ?d, ?n, ?n, ?n, ?n]" 0 1000 pct 3000 pc] by simp
  also have "leads pct \<dots> (5000, [Holding 0 0, ?d, ?d, ?d, ?d, ?d, ?n, ?n], pc)"
    using leads_alone [of 5 "[Holding 0 0, ?d, ?d, ?d, ?d, ?n, ?n, ?n]" 0 1000 pct 4000 pc] by simp
  also have "leads pct \<dots> (6000, [Holding 0 0, ?d, ?d, ?d, ?d, ?d, ?d, ?n], pc)"
    using leads_alone [of 6 "[Holding 0 0, ?d, ?d, ?d, ?d, ?d, ?n, ?n]" 0 1000 pct 5000 pc] by simp
  also have "leads pct \<dots> (6999, [Holding 0 0, ?d, ?d, ?d, ?d, ?d, ?d, Loop 999], pc)"
    using leads_alone [of 7 "[Holding 0 0, ?d, ?d, ?d, ?d, ?d, ?d, ?n]" 0 999 pct 6000 pc] by simp
  also have "leads pct \<dots> (1, [Loop 1, ?d, ?d, ?d, ?d, ?d, ?d, Loop 999], pc)"
    using leads_store [of 0 "[Holding 0 0, ?d, ?d, ?d, ?d, ?d, ?d, Loop 999]" 0 0 pct 6999 pc] by simp
  also have "leads pct \<dots> (1, [Loop 1, ?d, ?d, ?d, ?d, ?d, ?d, Holding 999 1], pc)"
    using leads_load [of 7 "[Loop 1, ?d, ?d, ?d, ?d, ?d, ?d, Loop 999]" 999 pct 1 pc] by simp
  also have "leads pct \<dots> (1000, [?d, ?d, ?d, ?d, ?d, ?d, ?d, Holding 999 1], pc)"
    using leads_alone [of 0 "[Loop 1, ?d, ?d, ?d, ?d, ?d, ?d, Holding 999 1]" 1 999 pct 1 pc] by simp
  also have "leads pct \<dots> (2, [?d, ?d, ?d, ?d, ?d, ?d, ?d, ?d], pc)"
    using leads_store [of 7 "[?d, ?d, ?d, ?d, ?d, ?d, ?d, Holding 999 1]" 999 1 pct 1000 pc] by simp
  finally show ?thesis by (simp only: eight)
qed

text \<open>
  the bounds are exact. There is a schedule in which no increment is lost and the counter ends
  at 8000, and there is one in which 7998 of the 8000 increments are lost and it ends at 2.
\<close>

theorem race_counter_extremes:
  "(\<exists>s. (rc_step pct)\<^sup>*\<^sup>* rc_start s \<and> rc_counter s = 8000 \<and> rc_pc s = Back 0)
    \<and> (\<exists>s. (rc_step pct)\<^sup>*\<^sup>* rc_start s \<and> rc_counter s = 2 \<and> rc_pc s = Back 0)"
  using leads_end [OF leads_in_turn] leads_end [OF leads_minimal] by blast

theorem race_counter_bounds_witness:
  "\<exists>s pre c. (rc_step (\<lambda>a b. ''0.0''))\<^sup>*\<^sup>* rc_start s
    \<and> rc_result s = Some (pre @ rc_report (\<lambda>a b. ''0.0'') c, Returns 0) \<and> 2 \<le> c \<and> c \<le> 8000"
proof -
  from leads_end [OF leads_in_turn] obtain s where
    s: "(rc_step (\<lambda>a b. ''0.0''))\<^sup>*\<^sup>* rc_start s" "rc_pc s = Back 0" by blast
  then have r: "rc_result s = Some (rc_out s, Returns 0)" by (simp add: rc_result_def)
  from race_counter_bounds [OF s(1) this] obtain pre c where
    "rc_out s = pre @ rc_report (\<lambda>a b. ''0.0'') c" "2 \<le> c" "c \<le> 8000" by blast
  with r s(1) show ?thesis by (intro exI [of _ s] exI [of _ pre] exI [of _ c]) simp
qed

section \<open>Mutual exclusion and deadlock\<close>

text \<open>The mutexes a locker holds, by where it is.\<close>

fun holds :: "locker_arg_t \<Rightarrow> locker \<Rightarrow> mutex set" where
  "holds a SaysFirst = {}"
| "holds a WantsFirst = {}"
| "holds a SaysGot = {first a}"
| "holds a Sleeping = {first a}"
| "holds a WantsSecond = {first a}"
| "holds a SaysBoth = {first a, second a}"
| "holds a FreesSecond = {first a, second a}"
| "holds a FreesFirst = {first a}"
| "holds a Gone = {}"

definition two_orders :: "locker_arg_t list \<Rightarrow> bool" where
  "two_orders args \<longleftrightarrow> (\<forall>a \<in> set args. first a \<noteq> second a)"

text \<open>A mutex is owned by exactly the locker that holds it.\<close>

definition dl_inv :: "locker_arg_t list \<Rightarrow> dl_state \<Rightarrow> bool" where
  "dl_inv args s \<longleftrightarrow> length (lockers s) = length args
     \<and> (\<forall>m k. owner s m = Some k \<longleftrightarrow> k < length args \<and> m \<in> holds (args ! k) (lockers s ! k))"

inductive_simps dl_watchdog_iff: "dl_watchdog s t"

text \<open>The two steps together are what \<open>watchdog_fn\<close> does in the child.\<close>

lemma watchdog_steps:
  "g_runctx c = TheCtx \<Longrightarrow> play ([watchdog_record], Exits 2) c = watchdog_fn (the the_watchdog) c"
  by (simp add: play_def watchdog_fn_def pg_watchdog_def watchdog_record_def pg_emit_def split: option.splits)

text \<open>A step that changes neither the mutexes nor what a locker holds.\<close>

lemma dl_inv_quiet:
  assumes "dl_inv args s" and "k < length (lockers s)" and "holds (args ! k) l = holds (args ! k) (lockers s ! k)"
  shows "dl_inv args (advance s k l evs)"
  using assms by (auto simp: dl_inv_def advance_def nth_list_update)

lemma dl_inv_lock:
  assumes "dl_inv args s" and "k < length (lockers s)" and "owner s m = None"
    and "holds (args ! k) l = insert m (holds (args ! k) (lockers s ! k))"
  shows "dl_inv args ((advance s k l evs)\<lparr>owner := (owner s)(m \<mapsto> k)\<rparr>)"
  unfolding dl_inv_def
proof (intro conjI allI)
  show "length (lockers ((advance s k l evs)\<lparr>owner := (owner s)(m \<mapsto> k)\<rparr>)) = length args"
    using assms(1) by (simp add: dl_inv_def advance_def)
  fix m' k'
  have own: "owner s x = Some y \<longleftrightarrow> y < length args \<and> x \<in> holds (args ! y) (lockers s ! y)" for x y
    using assms(1) by (simp add: dl_inv_def)
  have "\<not> (k' < length args \<and> m \<in> holds (args ! k') (lockers s ! k'))" using own [of m k'] assms(3) by simp
  then show "owner ((advance s k l evs)\<lparr>owner := (owner s)(m \<mapsto> k)\<rparr>) m' = Some k' \<longleftrightarrow>
      k' < length args \<and> m' \<in> holds (args ! k') (lockers ((advance s k l evs)\<lparr>owner := (owner s)(m \<mapsto> k)\<rparr>) ! k')"
    using own [of m' k'] assms(1,2,4) by (auto simp: advance_def nth_list_update dl_inv_def)
qed

lemma dl_inv_unlock:
  assumes "dl_inv args s" and "k < length (lockers s)" and "m \<in> holds (args ! k) (lockers s ! k)"
    and "holds (args ! k) l = holds (args ! k) (lockers s ! k) - {m}"
  shows "dl_inv args ((advance s k l evs)\<lparr>owner := (owner s)(m := None)\<rparr>)"
  unfolding dl_inv_def
proof (intro conjI allI)
  show "length (lockers ((advance s k l evs)\<lparr>owner := (owner s)(m := None)\<rparr>)) = length args"
    using assms(1) by (simp add: dl_inv_def advance_def)
  fix m' k'
  have own: "owner s x = Some y \<longleftrightarrow> y < length args \<and> x \<in> holds (args ! y) (lockers s ! y)" for x y
    using assms(1) by (simp add: dl_inv_def)
  have "owner s m = Some k" using own assms(1-3) by (simp add: dl_inv_def)
  then have "k' < length args \<and> m \<in> holds (args ! k') (lockers s ! k') \<longleftrightarrow> k' = k" using own [of m k'] by auto
  then show "owner ((advance s k l evs)\<lparr>owner := (owner s)(m := None)\<rparr>) m' = Some k' \<longleftrightarrow>
      k' < length args \<and> m' \<in> holds (args ! k') (lockers ((advance s k l evs)\<lparr>owner := (owner s)(m := None)\<rparr>) ! k')"
    using own [of m' k'] assms(1,2,4) by (auto simp: advance_def nth_list_update dl_inv_def)
qed

lemma dl_inv_step:
  assumes "dl_step args addr s t" and "dl_inv args s" and "two_orders args"
  shows "dl_inv args t"
  using assms(1)
proof cases
  case (unlock_second k)
  have "args ! k \<in> set args" using assms(2) unlock_second by (simp add: dl_inv_def)
  then have "first (args ! k) \<noteq> second (args ! k)" using assms(3) by (simp add: two_orders_def)
  with unlock_second assms(2) show ?thesis by (auto intro!: dl_inv_unlock)
qed (use assms(2) in \<open>auto intro!: dl_inv_quiet dl_inv_lock dl_inv_unlock simp: dl_inv_def [of _ "_\<lparr>dl_pc := _\<rparr>"]\<close>,
     auto simp: dl_inv_def)

lemma dl_inv_start: "dl_inv dl_args (dl_start okw ok1 ok2)"
  by (auto simp: dl_inv_def dl_start_def dl_args_def less_Suc_eq nth_Cons')

lemma two_orders_args: "two_orders dl_args"
  by (simp add: two_orders_def dl_args_def)

lemma dl_inv_turn:
  assumes "dl_turn args addr s t" and "dl_inv args s" and "two_orders args"
  shows "dl_inv args t"
  using assms(1)
proof cases
  case walk
  then show ?thesis using assms(2,3) by (rule dl_inv_step)
next
  case bark
  then show ?thesis using assms(2) by (auto simp: dl_inv_def dl_watchdog_iff)
qed

interpretation dl: step_system "dl_turn args addr" "\<lambda>s. dl_inv args s \<and> two_orders args" for args addr
  by unfold_locales (auto intro: dl_inv_turn)

text \<open>Both lockers have their first mutex and not their second.\<close>

definition crossed :: "dl_state \<Rightarrow> bool" where
  "crossed s \<longleftrightarrow> list_all (\<lambda>l. l \<in> {SaysGot, Sleeping, WantsSecond}) (lockers s)"

lemma crossed_advance:
  "crossed s \<Longrightarrow> l \<in> {SaysGot, Sleeping, WantsSecond} \<Longrightarrow> crossed (advance s k l evs)"
  by (auto simp: crossed_def advance_def list_all_iff dest!: set_update_subset_insert [THEN subsetD])

lemma crossed_nth: "crossed s \<Longrightarrow> k < length (lockers s) \<Longrightarrow> lockers s ! k \<in> {SaysGot, Sleeping, WantsSecond}"
  by (auto simp: crossed_def list_all_length)

lemma running_fields [simp]:
  "running (advance s k l evs) = running s" "running (s\<lparr>owner := f\<rparr>) = running s"
  by (simp_all add: running_def advance_def)

lemma crossed_owner [simp]: "crossed (s\<lparr>owner := f\<rparr>) = crossed s"
  by (simp add: crossed_def)

lemma crossed_step:
  assumes "dl_step dl_args addr s t" and "dl_inv dl_args s" and "crossed s"
  shows "crossed t \<and> (running s \<longrightarrow> running t)"
proof -
  have len: "length (lockers s) = 2" using assms(2) by (simp add: dl_inv_def dl_args_def)
  have held: "\<exists>j. owner s (first (dl_args ! k)) = Some j \<and> owner s (second (dl_args ! k)) \<noteq> None" if "k < 2" for k
  proof -
    have own: "owner s m = Some j" if "j < 2" "m \<in> holds (dl_args ! j) (lockers s ! j)" for m j
      using assms(2) that by (simp add: dl_inv_def dl_args_def)
    have "owner s MutexA = Some 0" "owner s MutexB = Some 1"
      using own [of 0 MutexA] own [of 1 MutexB] crossed_nth [OF assms(3), of 0] crossed_nth [OF assms(3), of 1] len
      by (auto simp: dl_args_def)
    then show ?thesis using that by (auto simp: dl_args_def less_Suc_eq numeral_2_eq_2 nth_Cons')
  qed
  have at: "lockers s ! k \<in> {SaysGot, Sleeping, WantsSecond}" if "k < length (lockers s)" for k
    using crossed_nth [OF assms(3) that] .
  from assms(1) show ?thesis
  proof cases
    case (lock_second k)
    then show ?thesis using held [of k] len by simp
  next
    case (say_got k)
    then show ?thesis using assms(3) by (simp add: crossed_advance)
  next
    case (say_second k)
    then show ?thesis using assms(3) by (simp add: crossed_advance)
  next
    case join_t1
    then show ?thesis using at [of 0] len by simp
  next
    case join_t2
    then show ?thesis using at [of 1] len by simp
  qed (use at in force)+
qed

text \<open>The lines a locker can still log.\<close>

fun lines_left :: "locker \<Rightarrow> nat" where
  "lines_left SaysFirst = 4" | "lines_left WantsFirst = 3" | "lines_left SaysGot = 3"
| "lines_left Sleeping = 2" | "lines_left WantsSecond = 1" | "lines_left SaysBoth = 1"
| "lines_left FreesSecond = 0" | "lines_left FreesFirst = 0" | "lines_left Gone = 0"

text \<open>After its record and until the end of the run there are only log lines, at most eight.\<close>

definition dl_said :: "dl_state \<Rightarrow> bool" where
  "dl_said s \<longleftrightarrow> (dl_wd s = WdSaid \<longrightarrow> dl_pc s \<noteq> Ended (Returns 0) \<longrightarrow>
     (\<exists>pre texts. dl_out s = pre @ watchdog_record # map ev_log texts
        \<and> length texts + sum_list (map lines_left (lockers s)) \<le> 8))"

lemma dl_said_advance:
  assumes "dl_said s" and "running s" and "k < length (lockers s)"
    and "lines_left l + length ts \<le> lines_left (lockers s ! k)"
  shows "dl_said (advance s k l (map ev_log ts))"
proof (cases "dl_wd s = WdSaid")
  case True
  with assms(1,2) obtain pre texts where o: "dl_out s = pre @ watchdog_record # map ev_log texts"
    "length texts + sum_list (map lines_left (lockers s)) \<le> 8"
    by (auto simp: dl_said_def running_def)
  have "lines_left (lockers s ! k) \<le> sum_list (map lines_left (lockers s))"
    using assms(3) elem_le_sum_list [of k "map lines_left (lockers s)"] by simp
  then have "sum_list (map lines_left ((lockers s)[k := l])) + length ts \<le> sum_list (map lines_left (lockers s))"
    using assms(3,4) by (simp add: map_update sum_list_update)
  with o show ?thesis
    by (auto simp: dl_said_def advance_def intro!: exI [of _ pre] exI [of _ "texts @ ts"])
qed (simp add: dl_said_def advance_def)

lemma dl_said_owner [simp]: "dl_said (s\<lparr>owner := f\<rparr>) = dl_said s"
  by (simp add: dl_said_def)

lemma dl_said_step: "dl_step args addr s t \<Longrightarrow> dl_said s \<Longrightarrow> dl_said t"
proof (induction rule: dl_step.induct)
  case (say_first s k)
  then show ?case using dl_said_advance [of s k WantsFirst "[_]"] by simp
next
  case (lock_first s k)
  then show ?case using dl_said_advance [of s k SaysGot "[]"] by simp
next
  case (say_got s k)
  then show ?case using dl_said_advance [of s k Sleeping "[_]"] by simp
next
  case (say_second s k)
  then show ?case using dl_said_advance [of s k WantsSecond "[_]"] by simp
next
  case (lock_second s k)
  then show ?case using dl_said_advance [of s k SaysBoth "[]"] by simp
next
  case (say_both s k)
  then show ?case using dl_said_advance [of s k FreesSecond "[_]"] by simp
next
  case (unlock_second s k)
  then show ?case using dl_said_advance [of s k FreesFirst "[]"] by simp
next
  case (unlock_first s k)
  then show ?case using dl_said_advance [of s k Gone "[]"] by simp
qed (auto simp: dl_said_def)

lemma dl_said_turn:
  assumes "dl_turn dl_args addr s t" and "dl_inv dl_args s" and "dl_said s"
  shows "dl_said t"
  using assms(1)
proof cases
  case walk
  then show ?thesis using assms(3) by (rule dl_said_step)
next
  case bark
  have "length (lockers s) = 2" using assms(2) by (simp add: dl_inv_def dl_args_def)
  then obtain a b where "lockers s = [a, b]" by (auto simp: numeral_2_eq_2 length_Suc_conv)
  moreover have "lines_left l \<le> 4" for l by (cases l) simp_all
  then have "lines_left a + lines_left b \<le> 8" by (metis add_mono numeral_Bit0)
  ultimately have "sum_list (map lines_left (lockers s)) \<le> 8" by simp
  with bark assms(3) show ?thesis
  proof (cases rule: dl_watchdog.cases)
    case barks
    then have "dl_out t = dl_out s @ watchdog_record # map ev_log []
        \<and> length ([] :: string list) + sum_list (map lines_left (lockers t)) \<le> 8"
      using \<open>sum_list (map lines_left (lockers s)) \<le> 8\<close> by simp
    then show ?thesis unfolding dl_said_def by blast
  next
    case exits
    then show ?thesis using assms(3) by (auto simp: dl_said_def running_def)
  qed
qed

text \<open>What no turn leads out of: both wait, or the watchdog has ended the run.\<close>

definition locked_up :: "dl_state \<Rightarrow> bool" where
  "locked_up s \<longleftrightarrow> crossed s \<and> (running s \<or> dl_pc s = Ended (Exits 2) \<and> dl_wd s = WdSaid)"

lemma dl_step_running: "dl_step args addr s t \<Longrightarrow> running s"
  by (induction rule: dl_step.induct) (simp_all add: running_def)

lemma locked_up_turn:
  assumes "dl_turn dl_args addr s t" and "dl_inv dl_args s" and "locked_up s"
  shows "locked_up t"
  using assms(1)
proof cases
  case walk
  then have "running s" by (rule dl_step_running)
  with assms(3) have "crossed s" "running s" by (auto simp: locked_up_def)
  with crossed_step [OF walk assms(2)] show ?thesis by (simp add: locked_up_def)
next
  case bark
  then show ?thesis using assms(3) by (auto simp: locked_up_def dl_watchdog_iff running_def crossed_def)
qed

lemma crossed_quiet: "crossed s \<Longrightarrow> length (lockers s) = 2 \<Longrightarrow> 2 \<le> sum_list (map lines_left (lockers s))"
  by (auto simp: crossed_def numeral_2_eq_2 length_Suc_conv)

lemma watchdog_made: "dl_turn args addr s t \<Longrightarrow> dl_wd s \<noteq> WdOff \<Longrightarrow> dl_wd t \<noteq> WdOff"
proof (induction rule: dl_turn.induct)
  case (walk s t)
  then show ?case by (cases rule: dl_step.cases) (simp_all add: advance_def)
qed (auto simp: dl_watchdog_iff)

lemma watchdog_ends:
  assumes "running s" and "dl_wd s \<noteq> WdOff"
  shows "\<exists>t evs. (dl_turn args addr)\<^sup>*\<^sup>* s t \<and> dl_result t = Some (evs, Exits 2)"
proof -
  have leave: "dl_turn args addr u (u\<lparr>dl_pc := Ended (Exits 2)\<rparr>)" if "running u" "dl_wd u = WdSaid" for u
    by (rule bark [OF exits [OF that]])
  have ended: "dl_result (u\<lparr>dl_pc := Ended (Exits 2)\<rparr>) = Some (dl_out u, Exits 2)" for u
    by (simp add: dl_result_def)
  show ?thesis
  proof (cases "dl_wd s")
    case WdAsleep
    let ?u = "s\<lparr>dl_wd := WdSaid, dl_out := dl_out s @ [watchdog_record]\<rparr>"
    have su: "dl_turn args addr s ?u" by (rule bark [OF barks [OF assms(1) WdAsleep]])
    have "dl_turn args addr ?u (?u\<lparr>dl_pc := Ended (Exits 2)\<rparr>)"
      using assms(1) by (intro leave) (simp_all add: running_def)
    from rtranclp.rtrancl_into_rtrancl [OF r_into_rtranclp [of "dl_turn args addr", OF su] this] ended [of ?u]
    show ?thesis by blast
  next
    case WdSaid
    from r_into_rtranclp [of "dl_turn args addr", OF leave [OF assms(1) this]] ended [of s]
    show ?thesis by blast
  qed (use assms(2) in simp)
qed

text \<open>
  C10: the deadlock is real and final. Once each of the two lockers of \<open>deadlock_classic\<close> has its
  first mutex and neither has its second, no schedule lets either of them go on: a run that ends
  at all ends through the watchdog, with its record and status 2; and what can still come between
  the record and the exit is only log lines of the two lockers, at most six. If the watchdog could
  be made, such an end is always ahead.
\<close>

theorem opposite_order_deadlocks:
  assumes "(dl_turn dl_args addr)\<^sup>*\<^sup>* (dl_start okw True True) s" and "running s" and "crossed s"
  shows "((dl_turn dl_args addr)\<^sup>*\<^sup>* s t \<longrightarrow> dl_result t = Some (evs, r) \<longrightarrow>
      r = Exits 2 \<and> (\<exists>pre texts. evs = pre @ watchdog_record # map ev_log texts \<and> length texts \<le> 6))
    \<and> (okw \<longrightarrow> (\<exists>t evs. (dl_turn dl_args addr)\<^sup>*\<^sup>* s t \<and> dl_result t = Some (evs, Exits 2)))"
proof (intro conjI impI)
  have inv: "dl_inv dl_args s \<and> two_orders dl_args"
    using dl.inv_reaches [OF assms(1)] dl_inv_start two_orders_args by blast
  have start: "dl_inv dl_args (dl_start okw True True) \<and> two_orders dl_args"
    using dl_inv_start two_orders_args by blast
  assume st: "(dl_turn dl_args addr)\<^sup>*\<^sup>* s t" and res: "dl_result t = Some (evs, r)"
  from st inv have "locked_up t"
    by (rule dl.keeps_reaches) (use assms(2,3) locked_up_turn in \<open>auto simp: locked_up_def\<close>)
  with res have t: "dl_pc t = Ended (Exits 2)" "r = Exits 2" "evs = dl_out t" "dl_wd t = WdSaid" "crossed t"
    by (auto simp: locked_up_def dl_result_def running_def split: dl_main.splits)
  have reach: "(dl_turn dl_args addr)\<^sup>*\<^sup>* (dl_start okw True True) t" using assms(1) st by (rule rtranclp_trans)
  from this start have "dl_said t"
    by (rule dl.keeps_reaches) (use dl_said_turn in \<open>auto simp: dl_said_def dl_start_def\<close>)
  then obtain pre texts where o: "dl_out t = pre @ watchdog_record # map ev_log texts"
    "length texts + sum_list (map lines_left (lockers t)) \<le> 8"
    using t(1,4) by (auto simp: dl_said_def)
  have "length (lockers t) = 2"
    using dl.inv_reaches [OF reach start] by (simp add: dl_inv_def dl_args_def)
  from crossed_quiet [OF t(5) this] o(2) have "length texts \<le> 6" by simp
  with o(1) t(2,3)
  show "r = Exits 2" "\<exists>pre texts. evs = pre @ watchdog_record # map ev_log texts \<and> length texts \<le> 6"
    by auto
next
  assume okw
  have start: "dl_inv dl_args (dl_start okw True True) \<and> two_orders dl_args"
    using dl_inv_start two_orders_args by blast
  from assms(1) start have "dl_wd s \<noteq> WdOff"
    by (rule dl.keeps_reaches) (use \<open>okw\<close> watchdog_made in \<open>auto simp: dl_start_def\<close>)
  then show "\<exists>t evs. (dl_turn dl_args addr)\<^sup>*\<^sup>* s t \<and> dl_result t = Some (evs, Exits 2)"
    using watchdog_ends assms(2) by blast
qed

text \<open>The schedule that leads there: both threads take their first lock before either sleeps.\<close>

lemma crossed_reachable:
  "\<exists>s. (dl_turn dl_args addr)\<^sup>*\<^sup>* (dl_start True True True) s \<and> running s \<and> crossed s"
proof -
  let ?s0 = "dl_start True True True"
  define s1 where "s1 = advance ?s0 0 WantsFirst [ev_log (''lock first  ('' @ show_ptr (addr (first (dl_args ! 0))) @ '')'')]"
  define s2 where "s2 = (advance s1 0 SaysGot [])\<lparr>owner := (owner s1)(first (dl_args ! 0) \<mapsto> 0)\<rparr>"
  define s3 where "s3 = advance s2 1 WantsFirst [ev_log (''lock first  ('' @ show_ptr (addr (first (dl_args ! 1))) @ '')'')]"
  define s4 where "s4 = (advance s3 1 SaysGot [])\<lparr>owner := (owner s3)(first (dl_args ! 1) \<mapsto> 1)\<rparr>"
  note d = s1_def s2_def s3_def s4_def advance_def dl_start_def running_def dl_args_def
  have "dl_turn dl_args addr ?s0 s1" unfolding s1_def by (rule walk [OF say_first]) (simp_all add: d)
  moreover have "dl_turn dl_args addr s1 s2" unfolding s2_def by (rule walk [OF lock_first]) (simp_all add: d)
  moreover have "dl_turn dl_args addr s2 s3" unfolding s3_def by (rule walk [OF say_first]) (simp_all add: d)
  moreover have "dl_turn dl_args addr s3 s4" unfolding s4_def by (rule walk [OF lock_first]) (simp_all add: d)
  ultimately have "(dl_turn dl_args addr)\<^sup>*\<^sup>* ?s0 s4" by simp
  moreover have "running s4" "crossed s4" by (simp_all add: d crossed_def)
  ultimately show ?thesis by blast
qed

theorem opposite_order_deadlocks_witness:
  "\<exists>t evs pre texts. (dl_turn dl_args (\<lambda>m. 0))\<^sup>*\<^sup>* (dl_start True True True) t
    \<and> dl_result t = Some (evs, Exits 2) \<and> evs = pre @ watchdog_record # map ev_log texts \<and> length texts \<le> 6"
proof -
  from crossed_reachable obtain s where
    s: "(dl_turn dl_args (\<lambda>m. 0))\<^sup>*\<^sup>* (dl_start True True True) s" "running s" "crossed s" by blast
  note d = opposite_order_deadlocks [OF s]
  from conjunct2 [OF d] obtain t evs where
    t: "(dl_turn dl_args (\<lambda>m. 0))\<^sup>*\<^sup>* s t" "dl_result t = Some (evs, Exits 2)" by blast
  have "\<exists>pre texts. evs = pre @ watchdog_record # map ev_log texts \<and> length texts \<le> 6"
    using conjunct1 [OF d] t by blast
  with rtranclp_trans [OF s(1) t(1)] t(2) show ?thesis by blast
qed

text \<open>With one order for all lockers some step is always possible.\<close>

lemma common_order_progress:
  assumes "dl_inv [a, b] s" and "running s" and "first a \<noteq> second a"
    and "first b = first a" and "second b = second a"
  shows "\<exists>t. dl_step [a, b] addr s t"
proof (rule ccontr)
  assume stuck: "\<nexists>t. dl_step [a, b] addr s t"
  have len: "length (lockers s) = 2" using assms(1) by (simp add: dl_inv_def)
  have arg: "first ([a, b] ! k) = first a" "second ([a, b] ! k) = second a" if "k < 2" for k
    using that assms(4,5) by (auto simp: less_Suc_eq numeral_2_eq_2)
  have own: "owner s m = Some j \<longleftrightarrow> j < 2 \<and> m \<in> holds ([a, b] ! j) (lockers s ! j)" for m j
    using assms(1) by (simp add: dl_inv_def numeral_2_eq_2)
  have waits: "lockers s ! k \<in> {WantsFirst, WantsSecond, Gone}" if "k < 2" for k
    using stuck len that say_first [OF assms(2), of k "[a, b]" addr] say_got [OF assms(2), of k "[a, b]" addr]
      say_second [OF assms(2), of k "[a, b]" addr] say_both [OF assms(2), of k "[a, b]" addr]
      unlock_second [OF assms(2), of k "[a, b]" addr] unlock_first [OF assms(2), of k "[a, b]" addr]
    by (cases "lockers s ! k") auto
  have no_second: "lockers s ! k \<noteq> WantsSecond" if k: "k < 2" for k
  proof
    assume w: "lockers s ! k = WantsSecond"
    have "owner s (second a) \<noteq> None"
      using stuck lock_second [OF assms(2) _ w, of "[a, b]" addr] len k arg(2) [OF k] by auto
    then obtain j where "owner s (second a) = Some j" by auto
    then have "j < 2" "second a \<in> holds ([a, b] ! j) (lockers s ! j)" using own by simp_all
    with waits [of j] arg [of j] assms(3) show False by auto
  qed
  have "lockers s ! k = Gone" if k: "k < 2" for k
  proof (rule ccontr)
    assume "lockers s ! k \<noteq> Gone"
    then have w: "lockers s ! k = WantsFirst" using waits [OF k] no_second [OF k] by auto
    have "owner s (first a) \<noteq> None"
      using stuck lock_first [OF assms(2) _ w, of "[a, b]" addr] len k arg(1) [OF k] by auto
    then obtain j where "owner s (first a) = Some j" by auto
    then have "j < 2" "first a \<in> holds ([a, b] ! j) (lockers s ! j)" using own by simp_all
    with waits [of j] no_second [of j] show False by auto
  qed
  then have "lockers s ! 0 = Gone" "lockers s ! 1 = Gone" by simp_all
  with stuck assms(2) show False
    using join_t1 [of s "[a, b]" addr] join_t2 [of s "[a, b]" addr]
    by (cases "dl_pc s") (auto simp: running_def)
qed

text \<open>Every step brings the run nearer to its end.\<close>

fun to_go :: "locker \<Rightarrow> nat" where
  "to_go SaysFirst = 8" | "to_go WantsFirst = 7" | "to_go SaysGot = 6" | "to_go Sleeping = 5"
| "to_go WantsSecond = 4" | "to_go SaysBoth = 3" | "to_go FreesSecond = 2" | "to_go FreesFirst = 1"
| "to_go Gone = 0"

definition dl_left :: "dl_state \<Rightarrow> nat" where
  "dl_left s = sum_list (map to_go (lockers s)) + (case dl_pc s of JoinT1 \<Rightarrow> 2 | JoinT2 \<Rightarrow> 1 | Ended r \<Rightarrow> 0)"

lemma dl_left_advance:
  "k < length (lockers s) \<Longrightarrow> to_go l < to_go (lockers s ! k) \<Longrightarrow> dl_left (advance s k l evs) < dl_left s"
  using elem_le_sum_list [of k "map to_go (lockers s)"]
  by (auto simp: dl_left_def advance_def map_update sum_list_update)

lemma dl_step_left: "dl_step args addr s t \<Longrightarrow> dl_left t < dl_left s"
proof (induction rule: dl_step.induct)
  case (lock_first s k)
  then show ?case using dl_left_advance [of k s SaysGot "[]"] by (simp add: dl_left_def)
next
  case (lock_second s k)
  then show ?case using dl_left_advance [of k s SaysBoth "[]"] by (simp add: dl_left_def)
next
  case (unlock_second s k)
  then show ?case using dl_left_advance [of k s FreesFirst "[]"] by (simp add: dl_left_def)
next
  case (unlock_first s k)
  then show ?case using dl_left_advance [of k s Gone "[]"] by (simp add: dl_left_def)
qed (auto intro!: dl_left_advance simp: dl_left_def [of "_\<lparr>dl_pc := _\<rparr>"], auto simp: dl_left_def)

lemma dl_step_returns:
  "dl_step args addr s t \<Longrightarrow> running t \<or> (\<exists>evs. dl_result t = Some (evs, Returns 0))"
  by (induction rule: dl_step.induct) (auto simp: running_def advance_def dl_result_def split: dl_main.splits)

text \<open>Two lockers that take the same two mutexes in the same order.\<close>

definition common_order :: "locker_arg_t \<Rightarrow> locker_arg_t \<Rightarrow> bool" where
  "common_order a b \<longleftrightarrow> first a \<noteq> second a \<and> first b = first a \<and> second b = second a"

interpretation common: ending_system "dl_step [a, b] addr" "\<lambda>s. dl_inv [a, b] s \<and> common_order a b"
    "dl_step [a, b] addr" "\<lambda>s. \<not> running s" dl_left for a b addr
proof unfold_locales
  fix s t assume "dl_step [a, b] addr s t" "dl_inv [a, b] s \<and> common_order a b"
  moreover from this have "two_orders [a, b]" by (simp add: two_orders_def common_order_def)
  ultimately show "dl_inv [a, b] t \<and> common_order a b" by (blast intro: dl_inv_step)
next
  fix s assume "dl_inv [a, b] s \<and> common_order a b" "\<not> \<not> running s"
  then show "\<exists>t. dl_step [a, b] addr s t" using common_order_progress by (simp add: common_order_def)
qed (simp_all add: dl_step_left)

text \<open>
  C11: the fix the lesson recommends is one. When both lockers take the two mutexes in the same
  order, every state the run can be in can be driven to the end by the threads alone, without
  the watchdog, and the run then returns 0; and no schedule of the threads is infinite, since every
  step makes the remaining work smaller.
\<close>

theorem common_order_returns:
  assumes "(dl_turn [a, b] addr)\<^sup>*\<^sup>* (dl_start okw ok1 ok2) s" and "running s" and "first a \<noteq> second a"
    and "first b = first a" and "second b = second a"
  shows "(\<exists>t evs. (dl_step [a, b] addr)\<^sup>*\<^sup>* s t \<and> dl_result t = Some (evs, Returns 0))
    \<and> wf {(t, s). dl_step [a, b] addr s t}"
proof
  have "dl_inv [a, b] (dl_start okw ok1 ok2)" "two_orders [a, b]"
    using assms(3-5) by (auto simp: dl_inv_def dl_start_def two_orders_def less_Suc_eq nth_Cons')
  then have "dl_inv [a, b] s \<and> common_order a b"
    using dl.inv_reaches [OF assms(1)] assms(3-5) by (simp add: common_order_def)
  then have "\<exists>t. (dl_step [a, b] addr)\<^sup>*\<^sup>* s t \<and> \<not> running t \<and> (running t \<or> (\<exists>evs. dl_result t = Some (evs, Returns 0)))"
    by (rule common.driven_keeping) (use assms(2) dl_step_returns in blast)+
  then show "\<exists>t evs. (dl_step [a, b] addr)\<^sup>*\<^sup>* s t \<and> dl_result t = Some (evs, Returns 0)" by blast
  have "{(t, s). dl_step [a, b] addr s t} \<subseteq> measure dl_left" by (auto dest: dl_step_left)
  then show "wf {(t, s). dl_step [a, b] addr s t}" by (rule wf_subset [OF wf_measure])
qed

theorem common_order_returns_witness:
  "\<exists>t evs. (dl_step [dl_args ! 0, dl_args ! 0] (\<lambda>m. 0))\<^sup>*\<^sup>* (dl_start True True True) t
    \<and> dl_result t = Some (evs, Returns 0)"
  using common_order_returns [OF rtranclp.rtrancl_refl, of True True True "dl_args ! 0" "dl_args ! 0" "\<lambda>m. 0"]
  by (simp add: running_def dl_start_def dl_args_def)

section \<open>The torn record\<close>

lemma copier_fields:
  "field_list (copier_fn n zero_record) =
    map (\<lambda>i. if i < n then 11 * (int i + 1) else 0) [0..<8]"
proof (induction n)
  case 0
  show ?case by (simp add: field_list_def zero_record_def upt_rec)
next
  case (Suc n)
  define r where "r = copier_fn n zero_record"
  have IH: "field_list r = map (\<lambda>i. if i < n then 11 * (int i + 1) else 0) [0..<8]" using Suc by (simp add: r_def)
  have "n mod 8 \<in> {0, 1, 2, 3, 4, 5, 6, 7}" using mod_less_divisor [of 8 n] by auto
  then have step: "field_list ((copier_body ! (n mod 8)) r) = (field_list r)[n mod 8 := 11 * (int (n mod 8) + 1)]"
    by (auto simp: copier_body_def field_list_def)
  have "(field_list r)[n mod 8 := 11 * (int (n mod 8) + 1)] = map (\<lambda>i. if i < Suc n then 11 * (int i + 1) else 0) [0..<8]"
    unfolding IH
    by (rule nth_equalityI) (auto simp: nth_list_update less_Suc_eq mod_less intro: ccontr)
  with step show ?case by (simp add: r_def)
qed

text \<open>
  cancellation tears the record exactly when it comes in the first round. A copier that is
  cancelled after its \<open>n\<close>-th assignment, \<open>n\<close> at least 1, leaves the first \<open>n\<close> fields set
  and the others zero; the scenario counts \<open>min n 8\<close> of them, so the reader sees a torn record
  if and only if the cancellation came before the eighth assignment.
\<close>

theorem cancelled_copy_is_prefix:
  "\<exists>evs. tcm_run True True n = Some (evs, Returns 0) \<and> length evs = 13
    \<and> map (\<lambda>ev. sint (ev_num ev)) (take 8 (tl evs)) =
        map (\<lambda>i. if i < Suc n then 11 * (int i + 1) else 0) [0..<8]
    \<and> golden (evs ! 10) = line ''actual'' ''fields_set'' (int (min (Suc n) 8)) []"
proof -
  define r where "r = copier_fn (Suc n) zero_record"
  have f: "field_list r = map (\<lambda>i. if i < Suc n then 11 * (int i + 1) else 0) [0..<8]"
    unfolding r_def by (rule copier_fields)
  have "length (filter (\<lambda>v. v \<noteq> 0) (field_list r)) = length (filter (\<lambda>i. i < Suc n) [0..<8])"
    unfolding f by (simp add: filter_map comp_def)
  also have "\<dots> = min (Suc n) 8"
    by (cases "n < 8") (auto simp: less_Suc_eq upt_rec)
  finally have num: "length (filter (\<lambda>v. v \<noteq> 0) (field_list r)) = min (Suc n) 8" .
  have small: "sint (of_int x :: i64) = x" if "0 \<le> x" "x \<le> 88" for x
    using that by (simp add: int_word_sint)
  have vals: "map (\<lambda>x. sint (of_int x :: i64)) (field_list r) = field_list r"
    unfolding f by (auto simp: small)
  define m where "m = min (Suc n) 8"
  have "sint (of_nat m :: i64) = int m" using small [of "int m"] by (simp add: m_def)
  then have g: "golden (ev_actual ''fields_set'' (of_nat m)) = line ''actual'' ''fields_set'' (int m) []"
    by (simp add: golden_events plain_def)
  have n: "ev_num (ev_actual k v) = v" for k v by (simp add: event_helper_defs)
  show ?thesis
    unfolding tcm_run_def simp_thms if_True if_False r_def [symmetric] Let_def num m_def [symmetric] f [symmetric]
    by (rule exI, rule conjI, rule refl) (use vals in \<open>simp add: n field_list_def g\<close>)
qed

end
