(* ===== verification/Scen_Split.thy ===== *)
theory Scen_Split
  imports Net_Link
begin

text \<open>
  The scenario of \<open>src/scenarios/compound/split_brain.c\<close> as a step relation: the two replica
  threads, the two forwarders of the pair of \<open>Chaos_Net\<close> between them and the main thread that
  heals the partition make their accesses in any order. A message is a count: the sockets move the
  eight bytes of one together, and with \<open>max_chunk_bytes\<close> 8 every chunk is one message. Sleeps
  have no duration. \<open>last_heard_ns\<close> is written and never read, and left out.
\<close>

section \<open>Replicas and the link\<close>

definition ITERS :: nat where "ITERS = 30"

text \<open>The user's ends of the pair.\<close>

datatype endpoint = FdA | FdB

fun far :: "endpoint \<Rightarrow> endpoint" where
  "far FdA = FdB"
| "far FdB = FdA"

record replica_t =
  send_fd :: endpoint
  recv_fd :: endpoint
  local_count :: int
  last_peer_count :: int

text \<open>Where \<open>replica_fn\<close> is in its turn \<open>i\<close>, by what it does next.\<close>

datatype replica_pc = Counting nat | Publishing nat | Listening nat | Gone

text \<open>A forwarder before its \<open>read\<close>, before it copies the knobs, and in its loop over the buffer.\<close>

datatype mover = Reading | Holding "int list" | Moving chaos_net_knobs_t "int list"

datatype sb_main = Napping | Joining nat | Over int

text \<open>
  \<open>sent_in e\<close> is what has been written at \<open>e\<close> and not read by the forwarder \<open>movers s e\<close>,
  \<open>ready e\<close> what can be read at \<open>e\<close>.
\<close>

record sb_state =
  sb_knobs :: chaos_net_knobs_t
  rngs :: "endpoint \<Rightarrow> pg_xosh_t"
  sent_in :: "endpoint \<Rightarrow> int list"
  movers :: "endpoint \<Rightarrow> mover"
  ready :: "endpoint \<Rightarrow> int list"
  replicas :: "replica_t list"
  pcs :: "replica_pc list"
  sb_pc :: sb_main
  sb_out :: "pg_event_t list"

definition partitioned :: chaos_net_knobs_t where
  "partitioned = \<lparr>loss_prob = 1, delay_min_ns = 0, delay_max_ns = 0, max_chunk_bytes = 8\<rparr>"

definition healed :: chaos_net_knobs_t where
  "healed = \<lparr>loss_prob = 0, delay_min_ns = 0, delay_max_ns = 0, max_chunk_bytes = 8\<rparr>"

definition sb_opening :: "pg_event_t list" where
  "sb_opening =
     [ev_phase ''Two replicas, 30 ticks each. First half: network partition.'',
      ev_log ''Each replica increments a local counter every 20ms and tries to tell the peer.'',
      ev_log ''During partition (first ~300ms), NO messages get through.'',
      ev_log ''Mid-scenario the partition heals. Observe what each replica believes.'',
      ev_expect ''last_peer_count_r1'' (of_nat ITERS),
      ev_expect ''last_peer_count_r2'' (of_nat ITERS)]"

definition healed_event :: pg_event_t where
  "healed_event = ev_phase ''partition HEALED -- replicas can now hear each other''"

text \<open>Both replicas have been made.\<close>

definition sb_start :: "pair_internal \<Rightarrow> sb_state" where
  "sb_start I =
     \<lparr>sb_knobs = knobs I, rngs = (\<lambda>e. case e of FdA \<Rightarrow> rng_a I | FdB \<Rightarrow> rng_b I),
      sent_in = (\<lambda>e. []), movers = (\<lambda>e. Reading), ready = (\<lambda>e. []),
      replicas =
        [\<lparr>send_fd = FdA, recv_fd = FdB, local_count = 0, last_peer_count = 0\<rparr>,
         \<lparr>send_fd = FdB, recv_fd = FdA, local_count = 0, last_peer_count = 0\<rparr>],
      pcs = [Counting 0, Counting 0], sb_pc = Napping, sb_out = sb_opening\<rparr>"

text \<open>The end of \<open>run\<close>; \<open>ms\<close> is the elapsed time it measures.\<close>

definition sb_report :: "int \<Rightarrow> replica_t \<Rightarrow> replica_t \<Rightarrow> pg_event_t list" where
  "sb_report ms r1 r2 =
     [ev_actual ''last_peer_count_r1'' (of_int (last_peer_count r1)),
      ev_actual ''last_peer_count_r2'' (of_int (last_peer_count r2)),
      ev_gauge ''local_count_r1'' (of_int (local_count r1)),
      ev_gauge ''local_count_r2'' (of_int (local_count r2)),
      ev_gauge ''elapsed_ms'' (of_int ms),
      ev_log (''replica 1: local='' @ show_int (local_count r1) @ ''  last heard from peer='' @ show_int (last_peer_count r1)),
      ev_log (''replica 2: local='' @ show_int (local_count r2) @ ''  last heard from peer='' @ show_int (last_peer_count r2)),
      ev_log [],
      ev_log (''at the heal boundary (~'' @ show_nat (ITERS * 20 div 2) @ '' ms), each replica saw:''),
      ev_log (''  replica 1: local '' @ [CHR 0xE2, CHR 0x89, CHR 0x88] @ '' '' @ show_nat (ITERS div 2)
        @ '', peer '' @ [CHR 0xE2, CHR 0x89, CHR 0x88] @ '' 0  (divergent)''),
      ev_log (''  replica 2: local '' @ [CHR 0xE2, CHR 0x89, CHR 0x88] @ '' '' @ show_nat (ITERS div 2)
        @ '', peer '' @ [CHR 0xE2, CHR 0x89, CHR 0x88] @ '' 0  (divergent)''),
      ev_log ''they RECONCILED only because the payload was an idempotent counter.'',
      ev_log ''in prod, writes during a partition are payments, orders, user actions --'',
      ev_log (''NOT idempotent. '' @ [CHR 0x27] @ ''Just merge what you have'' @ [CHR 0x27] @ '' corrupts state.'')]
     @ (if local_count r1 \<noteq> last_peer_count r1 \<or> local_count r2 \<noteq> last_peer_count r2
        then [ev_fault ''post-heal divergence: replicas still disagree''] else [])"

section \<open>The steps\<close>

definition with_replica :: "nat \<Rightarrow> replica_t \<Rightarrow> replica_pc \<Rightarrow> sb_state \<Rightarrow> sb_state" where
  "with_replica k r pc s = s\<lparr>replicas := (replicas s)[k := r], pcs := (pcs s)[k := pc]\<rparr>"

text \<open>
  A \<open>write\<close> of a replica may fail, as its descriptor does not block; a forwarder's \<open>read\<close>
  gets any part of what is there, up to the 512 messages of its buffer.
\<close>

inductive sb_step :: "int \<Rightarrow> sb_state \<Rightarrow> sb_state \<Rightarrow> bool" for ms where
  count: "k < length (pcs s) \<Longrightarrow> pcs s ! k = Counting i \<Longrightarrow> i < ITERS \<Longrightarrow> r = replicas s ! k
    \<Longrightarrow> sb_step ms s (with_replica k (r\<lparr>local_count := local_count r + 1\<rparr>) (Publishing i) s)"
| publish: "k < length (pcs s) \<Longrightarrow> pcs s ! k = Publishing i \<Longrightarrow> r = replicas s ! k
    \<Longrightarrow> sb_step ms s ((with_replica k r (Listening i) s)
          \<lparr>sent_in := (sent_in s)(send_fd r := sent_in s (send_fd r) @ [local_count r])\<rparr>)"
| publish_fails: "k < length (pcs s) \<Longrightarrow> pcs s ! k = Publishing i \<Longrightarrow> r = replicas s ! k
    \<Longrightarrow> sb_step ms s (with_replica k r (Listening i) s)"
| hear: "k < length (pcs s) \<Longrightarrow> pcs s ! k = Listening i \<Longrightarrow> r = replicas s ! k \<Longrightarrow> ready s (recv_fd r) = peer # rest
    \<Longrightarrow> sb_step ms s ((with_replica k (r\<lparr>last_peer_count := peer\<rparr>) (Listening i) s)
          \<lparr>ready := (ready s)(recv_fd r := rest)\<rparr>)"
| quiet: "k < length (pcs s) \<Longrightarrow> pcs s ! k = Listening i \<Longrightarrow> r = replicas s ! k \<Longrightarrow> ready s (recv_fd r) = []
    \<Longrightarrow> sb_step ms s (with_replica k r (Counting (Suc i)) s)"
| leave: "k < length (pcs s) \<Longrightarrow> pcs s ! k = Counting i \<Longrightarrow> \<not> i < ITERS \<Longrightarrow> r = replicas s ! k
    \<Longrightarrow> sb_step ms s (with_replica k r Gone s)"
| forward_read: "movers s e = Reading \<Longrightarrow> 0 < n \<Longrightarrow> n \<le> length (sent_in s e) \<Longrightarrow> n \<le> 512
    \<Longrightarrow> sb_step ms s (s\<lparr>movers := (movers s)(e := Holding (take n (sent_in s e))),
          sent_in := (sent_in s)(e := drop n (sent_in s e))\<rparr>)"
| snapshot: "movers s e = Holding msgs
    \<Longrightarrow> sb_step ms s (s\<lparr>movers := (movers s)(e := Moving (sb_knobs s) msgs)\<rparr>)"
| lose: "movers s e = Moving k (m # msgs) \<Longrightarrow> draw_loss k (rngs s e) = (True, g)
    \<Longrightarrow> sb_step ms s (s\<lparr>movers := (movers s)(e := Moving k msgs), rngs := (rngs s)(e := g)\<rparr>)"
| forward: "movers s e = Moving k (m # msgs) \<Longrightarrow> draw_loss k (rngs s e) = (False, g)
    \<Longrightarrow> sb_step ms s (s\<lparr>movers := (movers s)(e := Moving k msgs), rngs := (rngs s)(e := g),
          ready := (ready s)(far e := ready s (far e) @ [m])\<rparr>)"
| emptied: "movers s e = Moving k [] \<Longrightarrow> sb_step ms s (s\<lparr>movers := (movers s)(e := Reading)\<rparr>)"
| heal: "sb_pc s = Napping
    \<Longrightarrow> sb_step ms s (s\<lparr>sb_knobs := healed, sb_pc := Joining 0, sb_out := sb_out s @ [healed_event]\<rparr>)"
| join: "sb_pc s = Joining j \<Longrightarrow> j < length (pcs s) \<Longrightarrow> pcs s ! j = Gone
    \<Longrightarrow> sb_step ms s (s\<lparr>sb_pc := Joining (Suc j)\<rparr>)"
| report: "sb_pc s = Joining j \<Longrightarrow> \<not> j < length (pcs s)
    \<Longrightarrow> sb_step ms s (s\<lparr>sb_pc := Over 0, sb_out := sb_out s @ sb_report ms (replicas s ! 0) (replicas s ! 1)\<rparr>)"

text \<open>
  \<open>run\<close>: \<open>ends I\<close> is the state a schedule has led to from \<open>sb_start I\<close>. When a thread
  cannot be made (\<open>th\<close>) nothing is defined, as its handle is joined all the same.
\<close>

definition sb_run :: "u64 \<Rightarrow> link_world \<Rightarrow> bool \<Rightarrow> (pair_internal \<Rightarrow> sb_state) \<Rightarrow> run_result" where
  "sb_run seed w th ends =
     (case open_link partitioned seed w of
        None \<Rightarrow> Some ([ev_fault ''chaos_net_pair failed''], Returns 1)
      | Some I \<Rightarrow>
          if \<not> th then None
          else (case sb_pc (ends I) of Over r \<Rightarrow> Some (sb_out (ends I), Returns r) | _ \<Rightarrow> None))"

section \<open>The descriptor\<close>

definition split_brain_scen :: "link_world \<Rightarrow> bool \<Rightarrow> (pair_internal \<Rightarrow> sb_state) \<Rightarrow> unit pg_scenario_t" where
  "split_brain_scen w th ends =
    \<lparr>sc_id = ''split_brain'',
      sc_title = ''Split-brain: partition then heal'',
      sc_one_liner = ''2 replicas, 100% loss half the run, then 0%'',
      sc_description = ''Two replica threads each maintain a local counter. A mid-run partition (via chaos_net_set_knobs) causes divergent state; healing doesn't reconcile.'',
      sc_expected = ''replicas disagree on the counter even after the network recovers'',
      sc_lesson = Some (join_lines
       [''Why partitions are dangerous: during a partition, each side'',
        ''thinks it's the authoritative source. Both accept writes. When'',
        ''the partition heals, they have divergent state. There is no'',
        (''automatic way to merge '' @ [CHR 0xE2, CHR 0x80, CHR 0x94] @ '' the data itself doesn't tell you which''),
        ''write 'should' have won.'',
        [],
        ''Fixes:'',
        ''  - Use consensus (Raft, Paxos) for any state that MUST stay'',
        ''    consistent across replicas.'',
        ''  - Or: accept eventual consistency with explicit conflict'',
        ''    resolution (CRDTs, vector clocks, last-write-wins with'',
        ''    a reliable clock).'',
        ''  - Or: sacrifice availability during partitions (the CP side'',
        (''    of CAP '' @ [CHR 0xE2, CHR 0x80, CHR 0x94] @ '' refuse writes on the minority side).''),
        ''  - NEVER: silently merge and hope.'']),
      sc_category = PG_CAT_COMPOUND,
      sc_init = None,
      sc_run = (\<lambda>st c. play_run (sb_run (pg_runctx_seed TheCtx c) w th ends) c),
      sc_teardown = None,
      sc_explain = None\<rparr>"

section \<open>What is on its way\<close>

fun in_hand :: "mover \<Rightarrow> int list" where
  "in_hand Reading = []"
| "in_hand (Holding ms) = ms"
| "in_hand (Moving k ms) = ms"

text \<open>The messages written at \<open>e\<close> and neither lost nor read, oldest first.\<close>

definition under_way :: "sb_state \<Rightarrow> endpoint \<Rightarrow> int list" where
  "under_way s e = ready s (far e) @ in_hand (movers s e) @ sent_in s e"

text \<open>The replica that writes at an end.\<close>

fun writer_of :: "endpoint \<Rightarrow> nat" where
  "writer_of FdA = 0"
| "writer_of FdB = 1"

text \<open>How many counts a replica has made and how many it has tried to publish.\<close>

fun counted :: "replica_pc \<Rightarrow> nat" where
  "counted (Counting i) = i"
| "counted (Publishing i) = Suc i"
| "counted (Listening i) = Suc i"
| "counted Gone = ITERS"

fun published :: "replica_pc \<Rightarrow> nat" where
  "published (Publishing i) = i"
| "published pc = counted pc"

definition replica_ok :: "replica_t \<Rightarrow> replica_pc \<Rightarrow> int list \<Rightarrow> bool" where
  "replica_ok r pc msgs \<longleftrightarrow> local_count r = int (counted pc) \<and> counted pc \<le> ITERS
     \<and> (case pc of Publishing i \<Rightarrow> i < ITERS | Listening i \<Rightarrow> i < ITERS | _ \<Rightarrow> True)
     \<and> 0 \<le> last_peer_count r \<and> sorted_wrt (<) (last_peer_count r # msgs)
     \<and> (\<forall>m \<in> set (last_peer_count r # msgs). m \<le> int (published pc))"

definition sb_inv :: "sb_state \<Rightarrow> bool" where
  "sb_inv s \<longleftrightarrow> map (\<lambda>r. (send_fd r, recv_fd r)) (replicas s) = [(FdA, FdB), (FdB, FdA)] \<and> length (pcs s) = 2
     \<and> (\<forall>e. replica_ok (replicas s ! writer_of e) (pcs s ! writer_of e) (under_way s e))"

instantiation endpoint :: enum
begin

definition enum_endpoint :: "endpoint list" where
  "enum_endpoint = [FdA, FdB]"

definition enum_all_endpoint :: "(endpoint \<Rightarrow> bool) \<Rightarrow> bool" where
  "enum_all_endpoint P \<longleftrightarrow> P FdA \<and> P FdB"

definition enum_ex_endpoint :: "(endpoint \<Rightarrow> bool) \<Rightarrow> bool" where
  "enum_ex_endpoint P \<longleftrightarrow> P FdA \<or> P FdB"

instance
proof
  show u: "(UNIV :: endpoint set) = set enum_class.enum"
    by (auto simp: enum_endpoint_def intro: endpoint.exhaust)
qed (auto simp: enum_endpoint_def enum_all_endpoint_def enum_ex_endpoint_def, (metis endpoint.exhaust)+)

end

lemma endpoint_all: "(\<forall>e. P e) \<longleftrightarrow> P FdA \<and> P FdB"
  by (simp add: enum_all_endpoint_def flip: enum_all)

lemma far_far [simp]: "far (far e) = e"
  by (cases e) simp_all

lemma far_eq [simp]: "far e = far e' \<longleftrightarrow> e = e'"
  by (cases e; cases e') simp_all

lemma far_neq [simp]: "far e \<noteq> e" "e \<noteq> far e"
  by (cases e; simp)+

lemma sb_inv_start: "sb_inv (sb_start I)"
  by (simp add: sb_inv_def sb_start_def endpoint_all replica_ok_def under_way_def)

text \<open>Both replicas, with their places, from the invariant of the wiring.\<close>

lemma sb_wired:
  assumes "sb_inv s"
  obtains r1 r2 p1 p2 where "replicas s = [r1, r2]" and "pcs s = [p1, p2]"
    and "send_fd r1 = FdA" and "recv_fd r1 = FdB" and "send_fd r2 = FdB" and "recv_fd r2 = FdA"
  using assms by (auto simp: sb_inv_def length_Suc_conv numeral_2_eq_2 map_eq_Cons_conv)

lemma sb_lengths: "sb_inv s \<Longrightarrow> length (replicas s) = 2 \<and> length (pcs s) = 2"
  by (auto elim: sb_wired)

lemmas sb_inv_simps = sb_inv_def endpoint_all under_way_def with_replica_def
lemmas at_replica = sb_inv_simps less_2_cases_iff numeral_2_eq_2 less_Suc_eq

lemma replica_ok_moves:
  "replica_ok r (Counting i) ms \<Longrightarrow> i < ITERS \<Longrightarrow> replica_ok (r\<lparr>local_count := local_count r + 1\<rparr>) (Publishing i) ms"
  "replica_ok r (Publishing i) ms \<Longrightarrow> replica_ok r (Listening i) (ms @ [local_count r])"
  "replica_ok r (Publishing i) ms \<Longrightarrow> replica_ok r (Listening i) ms"
  "replica_ok r (Listening i) (m # ms) \<Longrightarrow> replica_ok (r\<lparr>last_peer_count := m\<rparr>) (Listening i) ms"
  "replica_ok r (Listening i) ms \<Longrightarrow> replica_ok r (Counting (Suc i)) ms"
  "replica_ok r (Counting i) ms \<Longrightarrow> \<not> i < ITERS \<Longrightarrow> replica_ok r Gone ms"
  "replica_ok r pc (as @ m # bs) \<Longrightarrow> replica_ok r pc (as @ bs)"
  by (auto simp: replica_ok_def sorted_wrt_append le_Suc_eq dest: less_imp_le less_trans)

lemma sb_inv_step:
  assumes "sb_step ms s t" and "sb_inv s"
  shows "sb_inv t"
proof -
  from assms(2) obtain r1 r2 p1 p2 where
    lists: "replicas s = [r1, r2]" "pcs s = [p1, p2]"
    and fds: "send_fd r1 = FdA" "recv_fd r1 = FdB" "send_fd r2 = FdB" "recv_fd r2 = FdA" by (rule sb_wired)
  note ok = assms(2) [unfolded sb_inv_simps lists]
  from assms(1) show ?thesis
  proof cases
    case (publish k i r)
    with ok fds lists replica_ok_moves(2) [of _ i] show ?thesis by (fastforce simp: at_replica)
  next
    case (forward_read e n)
    with ok fds lists show ?thesis by (cases e) (auto simp: at_replica)
  next
    case (snapshot e msgs)
    with ok fds lists show ?thesis by (cases e) (auto simp: at_replica)
  next
    case (lose e k m msgs g)
    with ok fds lists show ?thesis by (cases e) (auto simp: at_replica intro: replica_ok_moves)
  next
    case (forward e k m msgs g)
    with ok fds lists show ?thesis by (cases e) (auto simp: at_replica)
  next
    case (emptied e k)
    with ok fds lists show ?thesis by (cases e) (auto simp: at_replica)
  qed (use ok fds lists in \<open>auto simp: at_replica intro: replica_ok_moves\<close>)
qed

section \<open>One replica alone\<close>

text \<open>
  A state with everything that belongs to the other end put back to the start: only the replica
  that writes at \<open>e\<close>, what it has written, the forwarder that reads it and the knobs are kept.
\<close>

definition alone :: "pair_internal \<Rightarrow> endpoint \<Rightarrow> sb_state \<Rightarrow> sb_state" where
  "alone I e s =
     (let s0 = sb_start I; w = writer_of e
      in \<lparr>sb_knobs = sb_knobs s,
          rngs = (rngs s0)(e := rngs s e), sent_in = (sent_in s0)(e := sent_in s e),
          movers = (movers s0)(e := movers s e), ready = (ready s0)(far e := ready s (far e)),
          replicas = (replicas s0)[w := replicas s ! w], pcs = (pcs s0)[w := pcs s ! w],
          sb_pc = (if sb_pc s = Napping then Napping else Joining 0),
          sb_out = (if sb_pc s = Napping then sb_opening else sb_opening @ [healed_event])\<rparr>)"

lemma alone_start: "alone I e (sb_start I) = sb_start I"
  by (cases e) (auto simp: alone_def sb_start_def Let_def)

text \<open>A step of the kept part is one of the rest of the machine put back, and another changes nothing of it.\<close>

lemma sb_step_alone:
  assumes "sb_step ms s t" and "sb_inv s"
  shows "alone I e t = alone I e s \<or> sb_step ms (alone I e s) (alone I e t)"
proof -
  from assms(2) obtain r1 r2 p1 p2 where
    lists: "replicas s = [r1, r2]" "pcs s = [p1, p2]"
    and fds: "send_fd r1 = FdA" "recv_fd r1 = FdB" "send_fd r2 = FdB" "recv_fd r2 = FdA" by (rule sb_wired)
  let ?s = "alone I e s"
  have two: "k < length (pcs s) \<Longrightarrow> k = 0 \<or> k = Suc 0" for k using lists by auto
  note simps = alone_def sb_start_def Let_def with_replica_def lists fds
  from assms(1) show ?thesis
  proof cases
    case (count k i r)
    with sb_step.count [of k ?s i r ms] two [of k] show ?thesis by (cases e) (auto simp: simps)
  next
    case (publish k i r)
    with sb_step.publish [of k ?s i r ms] two [of k] show ?thesis by (cases e) (auto simp: simps)
  next
    case (publish_fails k i r)
    with sb_step.publish_fails [of k ?s i r ms] two [of k] show ?thesis by (cases e) (auto simp: simps)
  next
    case (hear k i r peer rest)
    with sb_step.hear [of k ?s i r peer rest ms] two [of k] show ?thesis by (cases e) (auto simp: simps)
  next
    case (quiet k i r)
    with sb_step.quiet [of k ?s i r ms] two [of k] show ?thesis by (cases e) (auto simp: simps)
  next
    case (leave k i r)
    with sb_step.leave [of k ?s i r ms] two [of k] show ?thesis by (cases e) (auto simp: simps)
  next
    case (forward_read x n)
    with sb_step.forward_read [of ?s e n ms] show ?thesis by (cases "x = e") (auto simp: simps)
  next
    case (snapshot x msgs)
    with sb_step.snapshot [of ?s e msgs ms] show ?thesis by (cases "x = e") (auto simp: simps)
  next
    case (lose x k m msgs g)
    with sb_step.lose [of ?s e k m msgs g ms] show ?thesis by (cases "x = e") (auto simp: simps)
  next
    case (forward x k m msgs g)
    with sb_step.forward [of ?s e k m msgs g ms] show ?thesis by (cases "x = e") (auto simp: simps)
  next
    case (emptied x k)
    with sb_step.emptied [of ?s e k ms] show ?thesis by (cases "x = e") (auto simp: simps)
  next
    case heal
    with sb_step.heal [of ?s ms] show ?thesis by (auto simp: simps)
  qed (auto simp: simps)
qed

interpretation sb: projected_system "sb_step ms" sb_inv "alone I e" for ms I e
  by unfold_locales (use sb_inv_step sb_step_alone in blast)+

text \<open>So every run has a run of one replica alone inside it.\<close>

lemma sb_reach_alone: "(sb_step ms)\<^sup>*\<^sup>* (sb_start I) s \<Longrightarrow> (sb_step ms)\<^sup>*\<^sup>* (sb_start I) (alone I e s)"
  using sb.reaches_proj [OF _ sb_inv_start, of ms I s I e] by (simp add: alone_start)

section \<open>The partition\<close>

lemma partition_loses: "draw_loss partitioned r = (b, g) \<Longrightarrow> b"
  using rand_unit_bounds [of r] by (auto simp: draw_loss_def partitioned_def split: prod.splits)

definition split_up :: "sb_state \<Rightarrow> bool" where
  "split_up s \<longleftrightarrow> (sb_pc s = Napping \<longrightarrow> sb_knobs s = partitioned
     \<and> (\<forall>e. ready s e = [] \<and> (\<forall>k ms. movers s e = Moving k ms \<longrightarrow> k = partitioned))
     \<and> (\<forall>r \<in> set (replicas s). last_peer_count r = 0))"

lemma split_up_step:
  assumes "sb_step ms s t" and "split_up s" and "length (replicas s) = length (pcs s)"
  shows "split_up t"
  using assms(1)
proof cases
  case (lose e k m msgs g)
  with assms(2) show ?thesis by (auto simp: split_up_def)
next
  case (forward e k m msgs g)
  with assms(2) show ?thesis by (auto simp: split_up_def dest: partition_loses)
next
  case (hear k i r peer rest)
  with assms(2,3) show ?thesis by (auto simp: split_up_def with_replica_def)
qed (use assms(2,3) in \<open>auto simp: split_up_def with_replica_def dest: set_update_subset_insert [THEN subsetD]\<close>)

section \<open>The end of a run\<close>

definition main_ok :: "sb_state \<Rightarrow> bool" where
  "main_ok s \<longleftrightarrow>
     (case sb_pc s of
        Napping \<Rightarrow> sb_out s = sb_opening
      | Joining j \<Rightarrow> sb_out s = sb_opening @ [healed_event] \<and> j \<le> 2 \<and> (\<forall>k < j. pcs s ! k = Gone)
      | Over r \<Rightarrow> r = 0 \<and> pcs s = [Gone, Gone]
          \<and> (\<exists>ms. sb_out s = sb_opening @ [healed_event] @ sb_report ms (replicas s ! 0) (replicas s ! 1)))"

lemma main_ok_step:
  assumes "sb_inv s" and "main_ok s" and "sb_step ms s t"
  shows "main_ok t"
proof -
  from assms(1) obtain r1 r2 p1 p2 where lists: "replicas s = [r1, r2]" "pcs s = [p1, p2]" by (rule sb_wired)
  have two: "k < length (pcs s) \<Longrightarrow> k = 0 \<or> k = Suc 0" for k using lists by auto
  note simps = main_ok_def with_replica_def lists
  from assms(3) show ?thesis
  proof cases
    case (join j)
    with assms(2) two [of j] show ?thesis by (auto simp: simps less_Suc_eq)
  next
    case (report j)
    with assms(2) show ?thesis by (auto simp: simps numeral_2_eq_2 less_Suc_eq_0_disj le_Suc_eq)
  qed (use assms(2) two in \<open>fastforce simp: simps nth_Cons less_Suc_eq split: sb_main.splits nat.splits\<close>)+
qed

section \<open>Properties\<close>

text \<open>
  C9: a replica hears only itself. Whatever one replica has heard in a reachable state, it also
  hears, with the same counts, in a run in which the other replica has not taken a single step:
  each replica reads from the end that the forwarder of its own messages writes to, so that nothing
  it believes about its peer depends on the peer, before the partition heals and after.
\<close>

theorem replica_hears_only_itself:
  assumes "(sb_step ms)\<^sup>*\<^sup>* (sb_start I) s" and "k < 2"
  shows "\<exists>t. (sb_step ms)\<^sup>*\<^sup>* (sb_start I) t \<and> replicas t ! k = replicas s ! k
    \<and> replicas t ! (1 - k) = replicas (sb_start I) ! (1 - k) \<and> pcs t ! (1 - k) = Counting 0
    \<and> 0 \<le> last_peer_count (replicas s ! k) \<and> last_peer_count (replicas s ! k) \<le> local_count (replicas s ! k)"
proof -
  obtain e where e: "k = writer_of e"
    using assms(2) that [of FdA] that [of FdB] by (auto simp: less_2_cases_iff)
  have "sb_inv s" by (rule sb.inv_reaches [OF assms(1) sb_inv_start])
  then have "replica_ok (replicas s ! k) (pcs s ! k) (under_way s e)" by (simp add: sb_inv_def e)
  then have "0 \<le> last_peer_count (replicas s ! k)" "last_peer_count (replicas s ! k) \<le> local_count (replicas s ! k)"
    by (cases "pcs s ! k"; simp add: replica_ok_def)+
  moreover have "replicas (alone I e s) ! k = replicas s ! k"
    "replicas (alone I e s) ! (1 - k) = replicas (sb_start I) ! (1 - k)" "pcs (alone I e s) ! (1 - k) = Counting 0"
    by (cases e; simp add: e alone_def sb_start_def Let_def)+
  ultimately show ?thesis using sb_reach_alone [OF assms(1), of e] by blast
qed

text \<open>A run in which replica 1 hears what replica 2 never said.\<close>

definition sb_demo :: pair_internal where
  "sb_demo = \<lparr>proxy_a = 4, proxy_b = 5, knobs = partitioned, rng_a = pg_xosh_seed 1, rng_b = pg_xosh_seed 2\<rparr>"

lemma hears_what_nobody_said:
  "\<exists>s. (sb_step ms)\<^sup>*\<^sup>* (sb_start sb_demo) s \<and> last_peer_count (replicas s ! 0) = 1 \<and> local_count (replicas s ! 1) = 0"
proof -
  let ?s = "sb_start sb_demo"
  let ?r = "\<lparr>send_fd = FdA, recv_fd = FdB, local_count = 1, last_peer_count = 0\<rparr>"
  let ?s1 = "?s\<lparr>sb_knobs := healed, sb_pc := Joining 0, sb_out := sb_out ?s @ [healed_event]\<rparr>"
  let ?s2 = "with_replica 0 ?r (Publishing 0) ?s1"
  let ?s3 = "(with_replica 0 ?r (Listening 0) ?s2)\<lparr>sent_in := (sent_in ?s2)(FdA := [1])\<rparr>"
  let ?s4 = "?s3\<lparr>movers := (movers ?s3)(FdA := Holding [1]), sent_in := (sent_in ?s3)(FdA := [])\<rparr>"
  let ?s5 = "?s4\<lparr>movers := (movers ?s4)(FdA := Moving healed [1])\<rparr>"
  let ?s6 = "?s5\<lparr>movers := (movers ?s5)(FdA := Moving healed []), rngs := (rngs ?s5)(FdA := rngs ?s5 FdA),
    ready := (ready ?s5)(FdB := [1])\<rparr>"
  let ?s7 = "(with_replica 0 (?r\<lparr>last_peer_count := 1\<rparr>) (Listening 0) ?s6)\<lparr>ready := (ready ?s6)(FdB := [])\<rparr>"
  note simps = sb_start_def with_replica_def ITERS_def
  have st1: "sb_step ms ?s ?s1" using sb_step.heal [of ?s ms] by (simp add: simps)
  have st2: "sb_step ms ?s1 ?s2" using sb_step.count [of 0 ?s1 0 _ ms] by (simp add: simps)
  have st3: "sb_step ms ?s2 ?s3" using sb_step.publish [of 0 ?s2 0 _ ms] by (simp add: simps)
  have st4: "sb_step ms ?s3 ?s4" using sb_step.forward_read [of ?s3 FdA 1 ms] by (simp add: simps)
  have st5: "sb_step ms ?s4 ?s5" using sb_step.snapshot [of ?s4 FdA "[1]" ms] by (simp add: simps)
  have st6: "sb_step ms ?s5 ?s6"
    using sb_step.forward [of ?s5 FdA healed 1 "[]" "rngs ?s5 FdA" ms] by (simp add: simps draw_loss_def healed_def)
  have st7: "sb_step ms ?s6 ?s7" using sb_step.hear [of 0 ?s6 0 _ 1 "[]" ms] by (simp add: simps)
  have "(sb_step ms)\<^sup>*\<^sup>* ?s ?s7"
    using st1 st2 st3 st4 st5 st6 st7 by (meson rtranclp.intros)
  then show ?thesis by (rule exI [of _ ?s7, OF conjI]) (simp add: simps)
qed

theorem replica_hears_only_itself_witness:
  "\<exists>s t. (sb_step 600)\<^sup>*\<^sup>* (sb_start sb_demo) s \<and> last_peer_count (replicas s ! 0) = 1 \<and> local_count (replicas s ! 1) = 0
    \<and> (sb_step 600)\<^sup>*\<^sup>* (sb_start sb_demo) t \<and> replicas t ! 0 = replicas s ! 0 \<and> pcs t ! 1 = Counting 0"
proof -
  obtain s where "(sb_step 600)\<^sup>*\<^sup>* (sb_start sb_demo) s" "last_peer_count (replicas s ! 0) = 1" "local_count (replicas s ! 1) = 0"
    using hears_what_nobody_said by blast
  with replica_hears_only_itself [OF this(1), of 0] show ?thesis by auto
qed

text \<open>
  the partition is total. Until the main thread heals it nothing comes out of the link,
  whatever the generators draw, and no replica has heard anything.
\<close>

theorem partition_is_total:
  assumes "knobs I = partitioned" and "(sb_step ms)\<^sup>*\<^sup>* (sb_start I) s" and "sb_pc s = Napping"
  shows "ready s e = [] \<and> (k < 2 \<longrightarrow> last_peer_count (replicas s ! k) = 0)"
proof -
  from assms(2) sb_inv_start have "split_up s"
  proof (rule sb.keeps_reaches)
    show "split_up (sb_start I)" by (simp add: split_up_def sb_start_def assms(1))
  next
    fix s t assume "sb_inv s" "split_up s" "sb_step ms s t"
    then show "split_up t" using split_up_step sb_lengths by metis
  qed
  moreover have "length (replicas s) = 2" using sb.inv_reaches [OF assms(2) sb_inv_start] sb_lengths by blast
  ultimately show ?thesis using assms(3) by (auto simp: split_up_def)
qed

theorem partition_is_total_witness:
  "ready (with_replica 0 (\<lparr>send_fd = FdA, recv_fd = FdB, local_count = 1, last_peer_count = 0\<rparr>) (Publishing 0)
      (sb_start sb_demo)) FdB = []"
proof (rule partition_is_total [of sb_demo 600, THEN conjunct1])
  show "(sb_step 600)\<^sup>*\<^sup>* (sb_start sb_demo) (with_replica 0
      \<lparr>send_fd = FdA, recv_fd = FdB, local_count = 1, last_peer_count = 0\<rparr> (Publishing 0) (sb_start sb_demo))"
    by (rule r_into_rtranclp)
      (use sb_step.count [of 0 "sb_start sb_demo" 0 _ 600] in \<open>simp add: sb_start_def with_replica_def ITERS_def\<close>)
qed (simp_all add: sb_demo_def sb_start_def with_replica_def)

text \<open>
  C36: what a run reports. Every run over a pair that could be made, that comes back after its
  schedule, returns 0 with the two counts of 30 after the two counts heard, which lie between 0
  and 30; it ends with a fault of the system under test exactly when one of these is not 30.
\<close>

theorem split_brain_reports:
  assumes "lw_sp1 w = Some (u1, p1)" and "lw_sp2 w = Some (p2, u2)" and "lw_mem w" and "lw_t1 w" and "lw_t2 w"
    and "\<And>I. (sb_step ms)\<^sup>*\<^sup>* (sb_start I) (ends I)" and "sb_run seed w th ends = Some (evs, r)"
  shows "r = Returns 0 \<and> (\<exists>h1 h2. 0 \<le> h1 \<and> h1 \<le> 30 \<and> 0 \<le> h2 \<and> h2 \<le> 30
    \<and> evs ! 7 = ev_actual ''last_peer_count_r1'' (of_int h1) \<and> evs ! 8 = ev_actual ''last_peer_count_r2'' (of_int h2)
    \<and> evs ! 9 = ev_gauge ''local_count_r1'' 30 \<and> evs ! 10 = ev_gauge ''local_count_r2'' 30
    \<and> drop 21 evs = (if h1 = 30 \<and> h2 = 30 then [] else [ev_fault ''post-heal divergence: replicas still disagree'']))"
proof -
  obtain I where I: "open_link partitioned seed w = Some I" using open_link_ok [OF assms(1-5)] by metis
  let ?s = "ends I"
  from assms(7) I obtain x where over: "sb_pc ?s = Over x" "r = Returns x" "evs = sb_out ?s"
    by (auto simp: sb_run_def split: if_splits sb_main.splits)
  have inv: "sb_inv ?s" by (rule sb.inv_reaches [OF assms(6) sb_inv_start])
  from assms(6) sb_inv_start have "main_ok ?s"
    by (rule sb.keeps_reaches) (simp add: main_ok_def sb_start_def, rule main_ok_step)
  with over(1) obtain m where m: "x = 0" "pcs ?s = [Gone, Gone]"
    "sb_out ?s = sb_opening @ [healed_event] @ sb_report m (replicas ?s ! 0) (replicas ?s ! 1)"
    by (auto simp: main_ok_def)
  have "replica_ok (replicas ?s ! 0) Gone (under_way ?s FdA)" "replica_ok (replicas ?s ! 1) Gone (under_way ?s FdB)"
    using inv m(2) by (simp_all add: sb_inv_def endpoint_all)
  then have c: "local_count (replicas ?s ! 0) = 30" "local_count (replicas ?s ! 1) = 30"
    "0 \<le> last_peer_count (replicas ?s ! 0)" "last_peer_count (replicas ?s ! 0) \<le> 30"
    "0 \<le> last_peer_count (replicas ?s ! 1)" "last_peer_count (replicas ?s ! 1) \<le> 30"
    by (simp_all add: replica_ok_def ITERS_def)
  then show ?thesis
    using m over(2,3)
    by (intro conjI exI [of _ "last_peer_count (replicas ?s ! 0)"] exI [of _ "last_peer_count (replicas ?s ! 1)"])
      (auto simp: sb_opening_def sb_report_def)
qed

text \<open>A replica whose writes all fail and that never hears anything.\<close>

lemma deaf_turns:
  assumes "k < length (pcs s)" and "pcs s ! k = Counting 0" and "ready s (recv_fd (replicas s ! k)) = []"
    and "k < length (replicas s)" and "local_count (replicas s ! k) = 0" and "n \<le> ITERS"
  shows "(sb_step ms)\<^sup>*\<^sup>* s (with_replica k ((replicas s ! k)\<lparr>local_count := int n\<rparr>) (Counting n) s)"
  using assms(6)
proof (induction n)
  case 0
  have "(replicas s ! k)\<lparr>local_count := int 0\<rparr> = replicas s ! k" using assms(5) by simp
  then have "with_replica k ((replicas s ! k)\<lparr>local_count := int 0\<rparr>) (Counting 0) s = s"
    by (simp add: with_replica_def flip: assms(2))
  then show ?case by (metis rtranclp.rtrancl_refl)
next
  case (Suc n)
  let ?r = "replicas s ! k"
  let ?at = "\<lambda>m pc. with_replica k (?r\<lparr>local_count := m\<rparr>) pc s"
  have wr: "with_replica k r pc (?at m pc') = with_replica k r pc s" for r pc m pc'
    by (simp add: with_replica_def)
  have at: "k < length (pcs (?at m pc))" "pcs (?at m pc) ! k = pc" "replicas (?at m pc) ! k = ?r\<lparr>local_count := m\<rparr>"
    "ready (?at m pc) (recv_fd ?r) = []" for m pc
    using assms(1,3,4) by (simp_all add: with_replica_def)
  have st1: "sb_step ms (?at (int n) (Counting n)) (?at (int (Suc n)) (Publishing n))"
    using sb_step.count [of k "?at (int n) (Counting n)" n _ ms, OF at(1,2)] Suc.prems at(3) [of "int n" "Counting n"] by (simp add: wr add.commute)
  have st2: "sb_step ms (?at (int (Suc n)) (Publishing n)) (?at (int (Suc n)) (Listening n))"
    using sb_step.publish_fails [of k "?at (int (Suc n)) (Publishing n)" n _ ms, OF at(1,2)] at(3) [of "int (Suc n)" "Publishing n"] by (simp add: wr)
  have st3: "sb_step ms (?at (int (Suc n)) (Listening n)) (?at (int (Suc n)) (Counting (Suc n)))"
    using sb_step.quiet [of k "?at (int (Suc n)) (Listening n)" n _ ms, OF at(1,2)] at(3,4) [of "int (Suc n)" "Listening n"] by (simp add: wr)
  have "(sb_step ms)\<^sup>*\<^sup>* s (?at (int n) (Counting n))" using Suc by simp
  with st1 st2 st3 show ?case by (meson rtranclp.rtrancl_into_rtrancl)
qed

lemma deaf_leaves:
  assumes "k < length (pcs s)" and "pcs s ! k = Counting 0" and "ready s (recv_fd (replicas s ! k)) = []"
    and "k < length (replicas s)" and "local_count (replicas s ! k) = 0"
  shows "(sb_step ms)\<^sup>*\<^sup>* s (with_replica k ((replicas s ! k)\<lparr>local_count := 30\<rparr>) Gone s)"
proof -
  let ?t = "with_replica k ((replicas s ! k)\<lparr>local_count := int ITERS\<rparr>) (Counting ITERS) s"
  have "(sb_step ms)\<^sup>*\<^sup>* s ?t" by (rule deaf_turns [OF assms]) simp
  moreover have "sb_step ms ?t (with_replica k ((replicas s ! k)\<lparr>local_count := 30\<rparr>) Gone s)"
    using sb_step.leave [of k ?t ITERS _ ms] assms(1,4) by (simp add: with_replica_def ITERS_def)
  ultimately show ?thesis ..
qed

lemma sb_returns: "\<exists>s. (sb_step ms)\<^sup>*\<^sup>* (sb_start I) s \<and> sb_pc s = Over 0"
proof -
  let ?s = "sb_start I"
  let ?s1 = "with_replica 0 ((replicas ?s ! 0)\<lparr>local_count := 30\<rparr>) Gone ?s"
  let ?s2 = "with_replica 1 ((replicas ?s1 ! 1)\<lparr>local_count := 30\<rparr>) Gone ?s1"
  let ?s3 = "?s2\<lparr>sb_knobs := healed, sb_pc := Joining 0, sb_out := sb_out ?s2 @ [healed_event]\<rparr>"
  let ?s4 = "?s3\<lparr>sb_pc := Over 0, sb_out := sb_out ?s3 @ sb_report ms (replicas ?s3 ! 0) (replicas ?s3 ! 1)\<rparr>"
  have "(sb_step ms)\<^sup>*\<^sup>* ?s ?s1" by (rule deaf_leaves) (simp_all add: sb_start_def)
  moreover have "(sb_step ms)\<^sup>*\<^sup>* ?s1 ?s2" by (rule deaf_leaves) (simp_all add: sb_start_def with_replica_def)
  ultimately have "(sb_step ms)\<^sup>*\<^sup>* ?s ?s2" by (rule rtranclp_trans)
  moreover have "sb_step ms ?s2 ?s3" by (rule sb_step.heal) (simp add: sb_start_def with_replica_def)
  moreover have "sb_step ms ?s3 (?s3\<lparr>sb_pc := Joining 1\<rparr>)"
    using sb_step.join [of ?s3 0 ms] by (simp add: sb_start_def with_replica_def)
  moreover have "sb_step ms (?s3\<lparr>sb_pc := Joining 1\<rparr>) (?s3\<lparr>sb_pc := Joining 2\<rparr>)"
    using sb_step.join [of "?s3\<lparr>sb_pc := Joining 1\<rparr>" 1 ms] by (simp add: sb_start_def with_replica_def numeral_2_eq_2)
  moreover have "sb_step ms (?s3\<lparr>sb_pc := Joining 2\<rparr>) ?s4"
    using sb_step.report [of "?s3\<lparr>sb_pc := Joining 2\<rparr>" 2 ms] by (simp add: sb_start_def with_replica_def)
  ultimately have "(sb_step ms)\<^sup>*\<^sup>* ?s ?s4" by (meson rtranclp.rtrancl_into_rtrancl)
  moreover have "sb_pc ?s4 = Over 0" by simp
  ultimately show ?thesis by blast
qed

theorem split_brain_reports_witness:
  "\<exists>ends evs. sb_run 42 demo_link True ends = Some (evs, Returns 0) \<and> evs ! 9 = ev_gauge ''local_count_r1'' 30"
proof -
  have "\<forall>I. \<exists>s. (sb_step 600)\<^sup>*\<^sup>* (sb_start I) s \<and> sb_pc s = Over 0" using sb_returns by blast
  then obtain ends where ends: "\<And>I. (sb_step 600)\<^sup>*\<^sup>* (sb_start I) (ends I)" "\<And>I. sb_pc (ends I) = Over 0"
    by metis
  have link: "lw_sp1 demo_link = Some (3, 4)" "lw_sp2 demo_link = Some (5, 6)" "lw_mem demo_link" "lw_t1 demo_link" "lw_t2 demo_link"
    by (simp_all add: demo_link_def)
  obtain evs where run: "sb_run 42 demo_link True ends = Some (evs, Returns 0)"
    using ends(2) by (simp add: sb_run_def open_link_ok [OF link])
  from split_brain_reports [OF link ends(1) run] run show ?thesis by blast
qed

end
