(* ===== verification/Scen_TimeIO.thy ===== *)
theory Scen_TimeIO
  imports Script "HOL-Library.Signed_Division"
begin

text \<open>
  The scenarios of \<open>src/scenarios/timeio\<close>, over the descriptor table and the clock of
  \<open>Chaos_IO\<close>. Each run starts with the empty table of a fresh process and takes the decisions of
  the kernel as arguments: what \<open>mkstemp\<close> returns, the answer to the \<open>i\<close>-th transfer, the
  \<open>i\<close>-th reading of the monotonic clock. The local variables of a loop are a record. The
  closing \<open>chaos_io_close\<close> emits nothing and is not part of a script.
\<close>

section \<open>disk_full.c\<close>

record df_vars =
  df_slots :: slots
  df_total :: i64
  df_enospc :: int
  df_first :: int
  df_logs :: "pg_event_t list"

definition errno_value :: "errno option \<Rightarrow> int" where
  "errno_value e = (case e of None \<Rightarrow> 0 | Some e \<Rightarrow> errno_number e)"

definition disk_full_iter :: "(nat \<Rightarrow> answer) \<Rightarrow> int \<Rightarrow> nat \<Rightarrow> df_vars \<Rightarrow> df_vars" where
  "disk_full_iter kern d i v =
     (let (w, e, ss) = chaos_io_write (df_slots v) d 64 (kern i);
          v = v\<lparr>df_slots := ss\<rparr>
      in if w < 0
         then (if e = Some ENOSPC
               then (let v = (if df_first v < 0 then v\<lparr>df_first := int i\<rparr> else v)
                     in v\<lparr>df_enospc := df_enospc v + 1\<rparr>)
               else v\<lparr>df_logs := df_logs v @
                 [ev_log (''iter '' @ show_int (int i) @ '': write() failed errno='' @ show_int (errno_value e))]\<rparr>)
         else v\<lparr>df_total := df_total v + of_int w\<rparr>)"

definition disk_full_run :: "int \<Rightarrow> u8 list \<Rightarrow> (nat \<Rightarrow> answer) \<Rightarrow> run_result" where
  "disk_full_run mk tmpl kern =
     (let (d, e, ss, acts) = chaos_io_open mk tmpl init_slots
      in if d < 0 then Some ([ev_fault ''chaos_io_open failed''], Returns 1)
         else
           (let ss = chaos_io_set_quota ss d 1024;
                v = fold (disk_full_iter kern d) [0..<64]
                  \<lparr>df_slots = ss, df_total = 0, df_enospc = 0, df_first = -1, df_logs = []\<rparr>
            in Some
                 ([ev_phase ''writing 64 chunks of 64 bytes; quota is 1024 bytes'',
                   ev_expect ''bytes_written_ok'' 1024]
                  @ df_logs v
                  @ [ev_actual ''bytes_written_ok'' (df_total v),
                     ev_count ''enospc_errors'' (of_int (df_enospc v)),
                     ev_log (''first ENOSPC at iteration '' @ show_int (df_first v) @ ''; ''
                       @ show_int (df_enospc v) @ '' total ENOSPC errors''),
                     ev_log ''code that ignores the return value of write() silently loses data here.''],
                  Returns 0)))"

section \<open>partial_write.c\<close>

text \<open>A write never moves more than it was asked for, so the loop gets on.\<close>

lemma chaos_io_write_le: "chaos_io_write ss d n ans = (w, e, ss') \<Longrightarrow> w \<le> uint n"
proof (cases "policy_of ss d")
  case None
  assume "chaos_io_write ss d n ans = (w, e, ss')"
  with None have "fst (transfer ans (unat n)) = w"
    by (simp add: chaos_io_write_def io_write_want_eq split: prod.splits)
  then have "w \<le> int (unat n)" using transfer_bound [of ans "unat n" w] by (metis prod.collapse)
  then show ?thesis by simp
next
  case (Some p)
  assume wr: "chaos_io_write ss d n ans = (w, e, ss')"
  show ?thesis
  proof (cases "0 \<le> w")
    case True
    from chaos_io_write_bound [OF Some wr True] obtain m where "write_limit p n = Some m" "w \<le> uint m" .
    with write_limit_caps(1) [of p n m] show ?thesis by (simp add: word_le_def)
  next
    case False
    have "0 \<le> uint n" by simp
    with False show ?thesis by linarith
  qed
qed

text \<open>\<open>kern 0\<close> answers the naive call, \<open>kern (Suc i)\<close> the \<open>i\<close>-th call of the loop.\<close>

function pw_loop :: "(nat \<Rightarrow> answer) \<Rightarrow> int \<Rightarrow> slots \<Rightarrow> u64 \<Rightarrow> nat \<Rightarrow> i64 \<Rightarrow> slots \<times> nat \<times> i64" where
  "pw_loop kern d ss remaining calls tot =
     (if remaining > 0
      then (let (w, e, ss') = chaos_io_write ss d remaining (kern (Suc calls))
            in if w \<le> 0 then (ss', calls, tot)
               else pw_loop kern d ss' (remaining - of_int w) (Suc calls) (tot + of_int w))
      else (ss, calls, tot))"
  by pat_completeness auto

lemma remaining_shrinks:
  fixes n :: u64
  assumes "0 < w" and "w \<le> uint n"
  shows "unat (n - of_int w) = unat n - nat w" and "0 < nat w" and "nat w \<le> unat n"
proof -
  have r: "uint (of_int w :: u64) = w"
    using assms uint_lt_64 [of n] by (simp add: uint_word_of_int take_bit_int_eq_self flip: take_bit_eq_mod)
  then have le: "(of_int w :: u64) \<le> n" using assms(2) by (simp add: word_le_def)
  have "unat (of_int w :: u64) = nat (uint (of_int w :: u64))" by simp
  also have "\<dots> = nat w" by (simp only: r)
  finally have "unat (of_int w :: u64) = nat w" .
  with unat_sub [OF le] show "unat (n - of_int w) = unat n - nat w" by simp
  show "0 < nat w" "nat w \<le> unat n" using assms by (simp_all add: nat_le_iff)
qed

termination pw_loop
proof (relation "measure (\<lambda>(kern, d, ss, remaining, calls, tot). unat remaining)")
  fix kern d ss calls tot x w y e ss'
  fix remaining :: u64
  assume "x = chaos_io_write ss d remaining (kern (Suc calls))" "(w, y) = x" "(e, ss') = y" "\<not> w \<le> 0"
  then have "0 < w" "w \<le> uint remaining"
    using chaos_io_write_le [of ss d remaining "kern (Suc calls)" w e ss'] by auto
  from remaining_shrinks [OF this]
  show "((kern, d, ss', remaining - of_int w, Suc calls, tot + of_int w), kern, d, ss, remaining, calls, tot)
      \<in> measure (\<lambda>(kern, d, ss, remaining, calls, tot). unat remaining)"
    by simp
qed simp

declare pw_loop.simps [simp del]

definition pw_run :: "int \<Rightarrow> u8 list \<Rightarrow> (nat \<Rightarrow> answer) \<Rightarrow> run_result" where
  "pw_run mk tmpl kern =
     (let (d, e, ss, acts) = chaos_io_open mk tmpl init_slots
      in if d < 0 then Some ([ev_fault ''chaos_io_open failed''], Returns 1)
         else
           (let ss = chaos_io_set_partial ss d 137;
                (naive, e, ss) = chaos_io_write ss d 2048 (kern 0);
                (ss, calls, tot) = pw_loop kern d ss 2048 0 0
            in Some
                 ([ev_phase ''naive call: write(fd, buf, 2048) -- expect 2048 back'',
                   ev_expect ''naive_returned'' 2048,
                   ev_actual ''naive_returned'' (of_int naive),
                   ev_log (''naive write returned '' @ show_int naive
                     @ '' of 2048 bytes -- the other 1911 are LOST''),
                   ev_phase ''correct call: loop on partial writes'',
                   ev_expect ''looped_total'' 2048,
                   ev_actual ''looped_total'' tot,
                   ev_count ''loop_iterations'' (of_nat calls),
                   ev_log (''loop wrote '' @ show_int (sint tot) @ '' bytes in '' @ show_int (int calls) @ '' calls'')],
                  Returns 0)))"

section \<open>slow_fsync.c\<close>

text \<open>\<open>ts0\<close> and \<open>ts1\<close> are the readings of the monotonic clock around the call.\<close>

definition sf_run ::
    "int \<Rightarrow> u8 list \<Rightarrow> answer \<Rightarrow> clock_state \<Rightarrow> timespec \<Rightarrow> timespec \<Rightarrow> run_result \<times> sysact list" where
  "sf_run mk tmpl ans clk ts0 ts1 =
     (let (d, e, ss, acts) = chaos_io_open mk tmpl init_slots
      in if d < 0 then (Some ([ev_fault ''chaos_io_open failed''], Returns 1), [])
         else
           (let ss = chaos_io_set_fsync_delay ss d (1500 * 1000000);
                (w, e, ss) = chaos_io_write ss d 1024 ans;
                (t0, clk) = chaos_clock_now_ns ts0 clk;
                acts = chaos_io_fsync ss d;
                (t1, clk) = chaos_clock_now_ns ts1 clk;
                dt = t1 - t0;
                ms = dt div 1000000
            in (Some
                  ([ev_phase ''writing 1 KiB'',
                    ev_phase ''calling fsync (configured to take 1500 ms)'',
                    ev_expect ''fsync_ms'' 1500,
                    ev_actual ''fsync_ms'' ms,
                    ev_log (''fsync returned after '' @ show_int (sint ms) @ '' ms''),
                    ev_log (''if this were on the UI thread, the app would freeze for '' @ show_int (sint ms) @ '' ms.''),
                    ev_log ''real-world fsync latency on a busy disk routinely hits seconds.''],
                   Returns 0),
                acts)))"

section \<open>clock_jump.c\<close>

text \<open>
  \<open>readings 0\<close> is the reading for \<open>start\<close>, \<open>readings (Suc iters)\<close> the one of the loop
  test after \<open>iters\<close> turns. The safety net bounds the loop.
\<close>

function cj_loop ::
    "(nat \<Rightarrow> timespec) \<Rightarrow> u64 \<Rightarrow> nat \<Rightarrow> bool \<Rightarrow> clock_state \<Rightarrow> pg_event_t list
      \<Rightarrow> nat \<times> clock_state \<times> pg_event_t list"
where
  "cj_loop readings start iters bumped clk out =
     (let (now, clk) = chaos_clock_now_ns (readings (Suc iters)) clk
      in if now - start < 100 * 1000000
         then (let iters = iters + 1;
                   (bumped, clk, out) =
                     (if iters = 1000 \<and> \<not> bumped
                      then (True, chaos_clock_skew_set (- (30 * 1000000000)) clk,
                            out @ [ev_log ''  ...someone bumps the clock backward 30s mid-loop''])
                      else (bumped, clk, out))
               in if iters > 100000000 then (iters, clk, out)
                  else cj_loop readings start iters bumped clk out)
         else (iters, clk, out))"
  by pat_completeness auto

termination cj_loop
  by (relation "measure (\<lambda>(readings, start, iters, bumped, clk, out). 100000001 - iters)") auto

declare cj_loop.simps [simp del]

definition cj_run :: "(nat \<Rightarrow> timespec) \<Rightarrow> clock_state \<Rightarrow> run_result \<times> clock_state" where
  "cj_run readings clk =
     (let (start, clk) = chaos_clock_now_ns (readings 0) clk;
          (iters, clk, out) = cj_loop readings start 0 False clk [];
          terminated = (if iters \<le> 100000000 then 1 else 0)
      in (Some
            ([ev_phase ''naive timeout: while (now - start < 100ms)'',
              ev_log (''we'' @ [CHR 0x27] @ ''ll start the loop, then have someone jump the clock backward 30s.''),
              ev_expect ''loop_terminated'' 1]
             @ out
             @ [ev_actual ''loop_terminated'' terminated,
                ev_count ''iterations'' (of_nat iters)]
             @ (if terminated = 0
                then [ev_fault ''loop did NOT terminate -- skew broke the timeout math'',
                      ev_log ''the timeout used `now - start`. After the skew, now < start,'',
                      ev_log ''so the elapsed time is negative and the loop runs forever.'']
                else [ev_log (''loop terminated after '' @ show_int (int iters) @ '' iterations (safety net engaged)'')]),
             Returns 0),
          chaos_clock_skew_set 0 clk))"

section \<open>jittery_timer.c\<close>

text \<open>
  The signed 64-bit values are integers here, since an overflow would be undefined, and
  \<open>sdiv\<close> is the division of C. \<open>readings (2 * i)\<close> and \<open>readings (2 * i + 1)\<close> are the
  readings around the \<open>i\<close>-th sleep.
\<close>

definition jt_now_ns :: "timespec \<Rightarrow> int" where
  "jt_now_ns t = sint (tv_sec t) * 1000000000 + sint (tv_nsec t)"

record jt_vars =
  jt_total :: int
  jt_min :: int
  jt_max :: int

definition jt_iter :: "(nat \<Rightarrow> timespec) \<Rightarrow> nat \<Rightarrow> jt_vars \<Rightarrow> jt_vars" where
  "jt_iter readings i v =
     (let t0 = jt_now_ns (readings (2 * i));
          dt = jt_now_ns (readings (2 * i + 1)) - t0;
          v = v\<lparr>jt_total := jt_total v + dt\<rparr>;
          v = (if dt < jt_min v then v\<lparr>jt_min := dt\<rparr> else v)
      in if dt > jt_max v then v\<lparr>jt_max := dt\<rparr> else v)"

definition jt_loop :: "(nat \<Rightarrow> timespec) \<Rightarrow> jt_vars" where
  "jt_loop readings = fold (jt_iter readings) [0..<50] \<lparr>jt_total = 0, jt_min = 2 ^ 62, jt_max = 0\<rparr>"

definition jt_run :: "(nat \<Rightarrow> timespec) \<Rightarrow> run_result" where
  "jt_run readings =
     (let v = jt_loop readings;
          mean_us = jt_total v sdiv 50 sdiv 1000;
          min_us = jt_min v sdiv 1000;
          max_us = jt_max v sdiv 1000
      in Some
           ([ev_phase ''calling nanosleep(1 ms) 50 times; measuring actual delay'',
             ev_expect ''target_us'' 1000,
             ev_actual ''mean_us'' (of_int mean_us),
             ev_gauge ''min_us'' (of_int min_us),
             ev_gauge ''max_us'' (of_int max_us),
             ev_log (''asked for '' @ show_int 1000 @ '' us; got mean='' @ show_int mean_us @ '' us  min=''
               @ show_int min_us @ '' us  max='' @ show_int max_us @ '' us''),
             ev_log (''if your code assumes nanosleep(1ms) takes ~1ms, you'' @ [CHR 0x27] @ ''ll be wrong by ''
               @ show_int (max_us sdiv 1000) @ ''x in the worst case.'')],
            Returns 0))"

section \<open>The descriptors\<close>

definition disk_full_scen :: "int \<Rightarrow> u8 list \<Rightarrow> (nat \<Rightarrow> answer) \<Rightarrow> unit pg_scenario_t" where
  "disk_full_scen mk tmpl kern =
    \<lparr>sc_id = ''disk_full'',
      sc_title = ''Disk full: ENOSPC'',
      sc_one_liner = ''write past quota; observe ENOSPC handling'',
      sc_description = ''A wrapped fd reports ENOSPC after 1KiB has been written. Demonstrates silent data loss when write() returns are ignored.'',
      sc_expected = ''first 16 writes succeed (1024B), rest return -1/ENOSPC'',
      sc_lesson = Some (join_lines
       [''Why this loses data: write() returning -1 with ENOSPC means YOUR'',
        ''DATA DIDN'T MAKE IT. Code that ignores write()'s return value'',
        ''silently drops bytes and reports success. Logs, transactions,'',
        ''user data -- all gone, no warning.'',
        [],
        ''Fixes:'',
        ''  - Always check write()'s return value. -1 means failure.'',
        ''  - Loop on partial writes (write may return < n even on success).'',
        ''  - On ENOSPC, fail loudly. Don't continue as if nothing happened.'',
        ''  - For critical data: monitor free space proactively, alert before'',
        ''    you hit zero.'']),
      sc_category = PG_CAT_TIMEIO,
      sc_init = None,
      sc_run = (\<lambda>st. play_run (disk_full_run mk tmpl kern)),
      sc_teardown = None,
      sc_explain = None\<rparr>"

definition partial_write_scen :: "int \<Rightarrow> u8 list \<Rightarrow> (nat \<Rightarrow> answer) \<Rightarrow> unit pg_scenario_t" where
  "partial_write_scen mk tmpl kern =
    \<lparr>sc_id = ''partial_write'',
      sc_title = ''Short writes lose data'',
      sc_one_liner = ''write(2048) returns 137; lazy code drops 1911B'',
      sc_description = ''Compares naive vs looping write(). The naive call silently loses bytes; the loop succeeds.'',
      sc_expected = ''naive: 137 of 2048; looped: 2048 of 2048'',
      sc_lesson = Some (join_lines
       [''Why write() returns less than asked: signal interruption, kern'',
        ''buffer pressure, slow disks. POSIX guarantees write returns >= 1'',
        ''or -1, NOT that it writes the full request.'',
        [],
        ''ALWAYS loop on partial writes:'',
        ''  while (n > 0) {'',
        ''      ssize_t w = write(fd, buf, n);'',
        ''      if (w < 0) { if (errno == EINTR) continue; return -1; }'',
        ''      buf += w; n -= w;'',
        ''  }'',
        [],
        ''Same goes for send(2) and read(2)/recv(2).'']),
      sc_category = PG_CAT_TIMEIO,
      sc_init = None,
      sc_run = (\<lambda>st. play_run (pw_run mk tmpl kern)),
      sc_teardown = None,
      sc_explain = None\<rparr>"

definition slow_fsync_scen :: "int \<Rightarrow> u8 list \<Rightarrow> answer \<Rightarrow> clock_state \<Rightarrow> timespec \<Rightarrow> timespec \<Rightarrow> unit pg_scenario_t" where
  "slow_fsync_scen mk tmpl ans clk ts0 ts1 =
    \<lparr>sc_id = ''slow_fsync'',
      sc_title = ''Slow fsync: UI freeze'',
      sc_one_liner = ''fsync takes 1.5s; observe what blocks'',
      sc_description = ''A wrapped fd makes fsync(2) block for a configurable duration. Demonstrates UI freeze patterns.'',
      sc_expected = ''fsync_ms ~= 1500; observable wall-clock delay'',
      sc_lesson = Some (join_lines
       [''Why this matters: fsync waits for actual disk persistence. On a'',
        ''busy disk this is seconds. On a slow disk under load, it can be'',
        ''tens of seconds. Calling fsync on the UI thread freezes the app.'',
        ''Calling it inside a hot loop tanks throughput.'',
        [],
        ''Fixes:'',
        ''  - Move fsync to a background thread; don't block the UI on it.'',
        ''  - Batch writes between fsyncs (group commit pattern).'',
        ''  - Use O_DSYNC if you only need data persistence, not metadata.'',
        ''  - Use fdatasync() instead of fsync() to skip metadata sync.'',
        ''  - For some workloads (logs, caches), fsync is overkill -- the'',
        ''    cost of losing the last few seconds of data is acceptable.'']),
      sc_category = PG_CAT_TIMEIO,
      sc_init = None,
      sc_run = (\<lambda>st. play_run (fst (sf_run mk tmpl ans clk ts0 ts1))),
      sc_teardown = None,
      sc_explain = None\<rparr>"

definition clock_jump_scen :: "(nat \<Rightarrow> timespec) \<Rightarrow> clock_state \<Rightarrow> unit pg_scenario_t" where
  "clock_jump_scen readings clk =
    \<lparr>sc_id = ''clock_jump'',
      sc_title = ''Clock jumps backward'',
      sc_one_liner = ''skew the clock -30s; watch timeout math break'',
      sc_description = (''Mid-loop, the clock jumps backward 30s. The naive '' @ [CHR 0x60] @ ''now - start > timeout'' @ [CHR 0x60] @ '' check becomes false forever.''),
      sc_expected = ''loop runs past intended deadline (safety net stops it)'',
      sc_lesson = Some (join_lines
       [''Why CLOCK_REALTIME is dangerous for elapsed-time math: NTP, leap'',
        ''seconds, and admin changes can jump it backward at any moment.'',
        (''Code that does '' @ [CHR 0x60] @ ''now - start > timeout'' @ [CHR 0x60] @ '' either becomes false forever''),
        ''(loops infinitely) or fires immediately (false positive).'',
        [],
        ''Fix: use CLOCK_MONOTONIC for elapsed-time math. It only goes'',
        ''forward, never jumps. Save CLOCK_REALTIME for displayable wall-'',
        ''clock times you show to humans.'',
        [],
        ''On macOS: clock_gettime(CLOCK_MONOTONIC, &ts).'',
        ''On Linux: clock_gettime(CLOCK_MONOTONIC_RAW) is even better'',
        ''(immune to NTP slewing).'']),
      sc_category = PG_CAT_TIMEIO,
      sc_init = None,
      sc_run = (\<lambda>st. play_run (fst (cj_run readings clk))),
      sc_teardown = None,
      sc_explain = None\<rparr>"

definition jittery_timer_scen :: "(nat \<Rightarrow> timespec) \<Rightarrow> unit pg_scenario_t" where
  "jittery_timer_scen readings =
    \<lparr>sc_id = ''jittery_timer'',
      sc_title = ''Sleep isn't precise'',
      sc_one_liner = ''ask for 1ms; measure what you actually get'',
      sc_description = ''Calls nanosleep(1ms) repeatedly and records the actual elapsed time. Min/mean/max are usually wildly different.'',
      sc_expected = ''max delay 5-100x the requested value, depending on system load'',
      sc_lesson = Some (join_lines
       [''Why sleeps aren't precise: nanosleep / usleep guarantee that you'',
        ''sleep AT LEAST the requested time, plus scheduler latency. Under'',
        ''load, the actual delay can be many times the request.'',
        [],
        ''Fixes:'',
        ''  - Don't sleep for precise timing; compute an absolute deadline'',
        ''    (clock_gettime + offset) and compare against now in a loop.'',
        ''  - For real-time work, use clock_nanosleep with TIMER_ABSTIME, or'',
        ''    busy-wait the last few microseconds.'',
        ''  - Accept jitter as a fact of life; design protocols that tolerate'',
        ''    it (timeouts that are a multiple of the expected interval).'']),
      sc_category = PG_CAT_TIMEIO,
      sc_init = None,
      sc_run = (\<lambda>st. play_run (jt_run readings)),
      sc_teardown = None,
      sc_explain = None\<rparr>"

section \<open>Lemmas\<close>

lemma open_fresh:
  assumes "0 \<le> mk"
  obtains ss acts where "chaos_io_open mk tmpl init_slots = (mk, None, ss, acts)"
    and "policy_of ss mk = Some ((fresh_policy mk)\<lparr>path := cfield 256 tmpl\<rparr>)"
proof (rule chaos_io_open_cases [OF policy_of_init, of mk tmpl])
  assume "\<forall>s \<in> set init_slots. in_use s"
  then show thesis by (simp add: init_slots_def IO_SLOTS_MAX_def empty_slot_def)
qed (use assms that in auto)

text \<open>A write the kernel takes as far as the policy allows.\<close>

lemma chaos_io_write_full:
  assumes "policy_of ss d = Some p" and "write_limit p n = Some m" and "unat m \<le> gives ans" and "0 < m"
  obtains ss' where "chaos_io_write ss d n ans = (uint m, None, ss')"
    and "policy_of ss' d = Some (p\<lparr>bytes_written := bytes_written p + m\<rparr>)"
proof -
  have "0 < unat m" using assms(4) by (simp add: word_less_nat_alt)
  with assms(3) obtain k where "ans = Moves k" "unat m \<le> k" by (cases ans) auto
  then have wr: "chaos_io_write ss d n ans = (uint m, None, io_write_commit ss d (uint m))"
    using assms(1,2) by (simp add: chaos_io_write_def io_write_want_eq min_absorb2)
  from chaos_io_write_policy [OF assms(1) wr] have
    "policy_of (io_write_commit ss d (uint m)) d = Some (p\<lparr>bytes_written := bytes_written p + m\<rparr>)"
    by (simp add: max_def)
  with wr show thesis by (rule that)
qed

lemma quota_room:
  assumes "n < 16"
  shows "write_limit (p\<lparr>quota := 1024, partial_max := 0, bytes_written := of_nat (64 * n)\<rparr>) 64 = Some 64"
proof -
  have u: "unat (of_nat (64 * n) :: u64) = 64 * n" using assms by (simp only: unat_of_nat) simp
  have lt: "(of_nat (64 * n) :: u64) < 1024" using assms u by (simp only: word_less_nat_alt) simp
  have "64 \<le> 1024 - (of_nat (64 * n) :: u64)"
    using assms u by (simp only: word_le_nat_alt unat_sub [OF less_imp_le [OF lt]]) simp
  with lt show ?thesis by (simp add: write_limit_def min_def not_le)
qed

lemma quota_gone: "write_limit (p\<lparr>quota := 1024, bytes_written := 1024\<rparr>) 64 = None"
  by (simp add: write_limit_def)

text \<open>The state after \<open>n\<close> turns: sixteen writes fit, everything after is refused.\<close>

lemma disk_full_turns:
  assumes "policy_of (df_slots v0) d = Some p" "quota p = 1024" "partial_max p = 0" "bytes_written p = 0"
    and "\<And>i. 64 \<le> gives (kern i)"
    and "df_total v0 = 0" "df_enospc v0 = 0" "df_first v0 = -1" "df_logs v0 = []"
  defines "v \<equiv> \<lambda>n. fold (disk_full_iter kern d) [0..<n] v0"
  shows "policy_of (df_slots (v n)) d = Some (p\<lparr>bytes_written := of_nat (64 * min n 16)\<rparr>)
    \<and> df_total (v n) = of_nat (64 * min n 16) \<and> df_enospc (v n) = int (n - 16)
    \<and> df_first (v n) = (if n \<le> 16 then -1 else 16) \<and> df_logs (v n) = []"
proof (induction n)
  case 0
  have "p\<lparr>bytes_written := 0\<rparr> = p" using assms(4) by (cases p) simp
  with assms show ?case by simp
next
  case (Suc n)
  have step: "v (Suc n) = disk_full_iter kern d n (v n)" by (simp add: v_def)
  show ?case
  proof (cases "n < 16")
    case True
    let ?q = "p\<lparr>bytes_written := of_nat (64 * n)\<rparr>"
    have "?q = p\<lparr>quota := 1024, partial_max := 0, bytes_written := of_nat (64 * n)\<rparr>"
      using assms(2,3) by (cases p) simp
    with quota_room [OF True, of p] have lim: "write_limit ?q 64 = Some 64" by simp
    have pol: "policy_of (df_slots (v n)) d = Some ?q" using Suc True by simp
    from chaos_io_write_full [OF pol lim, of "kern n"] assms(5) [of n] obtain ss' where
      "chaos_io_write (df_slots (v n)) d 64 (kern n) = (64, None, ss')"
      "policy_of ss' d = Some (?q\<lparr>bytes_written := bytes_written ?q + 64\<rparr>)"
      by auto
    with step Suc True show ?thesis by (simp add: disk_full_iter_def algebra_simps)
  next
    case False
    let ?q = "p\<lparr>bytes_written := 1024\<rparr>"
    have pol: "policy_of (df_slots (v n)) d = Some ?q" using Suc False by simp
    have "?q = p\<lparr>quota := 1024, bytes_written := 1024\<rparr>" using assms(2) by (cases p) simp
    with quota_gone [of p] have "write_limit ?q 64 = None" by simp
    with pol have "chaos_io_write (df_slots (v n)) d 64 (kern n) = (-1, Some ENOSPC, df_slots (v n))"
      by (simp add: chaos_io_write_def io_write_want_eq)
    with step Suc False show ?thesis by (auto simp: disk_full_iter_def)
  qed
qed

section \<open>Properties\<close>

text \<open>
  a full disk is seen. When the kernel takes every request it gets, the first sixteen writes
  succeed, the other 48 fail with \<open>ENOSPC\<close>, the first of them at iteration 16, and the lines are
  those of the golden file.
\<close>

theorem disk_full_matches_golden:
  assumes "0 \<le> mk" and "\<And>i. 64 \<le> gives (kern i)"
  shows "\<exists>evs. disk_full_run mk tmpl kern = Some (evs, Returns 0)
    \<and> map golden evs =
      [line ''phase'' [] 0 ''writing 64 chunks of 64 bytes; quota is 1024 bytes'',
       line ''expect'' ''bytes_written_ok'' 1024 [],
       line ''actual'' ''bytes_written_ok'' 1024 [],
       line ''counter'' ''enospc_errors'' 48 [],
       line ''log'' [] 0 ''first ENOSPC at iteration 16; 48 total ENOSPC errors'',
       line ''log'' [] 0 ''code that ignores the return value of write() silently loses data here.'']"
proof -
  from open_fresh [OF assms(1)] obtain ss acts where op:
    "chaos_io_open mk tmpl init_slots = (mk, None, ss, acts)"
    "policy_of ss mk = Some ((fresh_policy mk)\<lparr>path := cfield 256 tmpl\<rparr>)" .
  let ?st = "\<lparr>df_slots = chaos_io_set_quota ss mk 1024, df_total = 0, df_enospc = 0, df_first = -1, df_logs = []\<rparr>"
  let ?v = "fold (disk_full_iter kern mk) [0..<64] ?st"
  have "policy_of (df_slots ?st) mk = Some ((fresh_policy mk)\<lparr>path := cfield 256 tmpl, quota := 1024\<rparr>)"
    using op(2) by (simp add: chaos_io_set_quota_def policy_with_slot)
  from disk_full_turns [OF this, of kern 64] assms(2)
  have v: "df_total ?v = 1024" "df_enospc ?v = 48" "df_first ?v = 16" "df_logs ?v = []" by simp_all
  have run: "disk_full_run mk tmpl kern =
     Some
       ([ev_phase ''writing 64 chunks of 64 bytes; quota is 1024 bytes'',
         ev_expect ''bytes_written_ok'' 1024]
        @ df_logs ?v
        @ [ev_actual ''bytes_written_ok'' (df_total ?v), ev_count ''enospc_errors'' (of_int (df_enospc ?v)),
           ev_log (''first ENOSPC at iteration '' @ show_int (df_first ?v) @ ''; ''
             @ show_int (df_enospc ?v) @ '' total ENOSPC errors''),
           ev_log ''code that ignores the return value of write() silently loses data here.''],
        Returns 0)"
    unfolding disk_full_run_def op(1) Let_def prod.case using assms(1) by (simp only: not_less [symmetric] if_False)
  have nums: "show_int 16 = ''16''" "show_int 48 = ''48''"
    by (simp_all add: show_int_def show_nat_def show_base.simps digit_char_def char_of_def bit_Suc_0_iff)
  show ?thesis
    unfolding run v by (simp add: nums golden_events plain_def)
qed

theorem disk_full_matches_golden_witness:
  "\<exists>evs. disk_full_run 7 (bytes ''/tmp/scratch'') (\<lambda>i. Moves 4096) = Some (evs, Returns 0) \<and> length evs = 6"
proof -
  from disk_full_matches_golden [of 7 "\<lambda>i. Moves 4096" "bytes ''/tmp/scratch''"] obtain evs where
    "disk_full_run 7 (bytes ''/tmp/scratch'') (\<lambda>i. Moves 4096) = Some (evs, Returns 0)"
    "length (map golden evs) = 6"
    by fastforce
  then show ?thesis by auto
qed

text \<open>The loop on short writes: one turn, and all of them.\<close>

lemma pw_loop_step:
  assumes "0 < n" and "chaos_io_write ss d n (kern (Suc calls)) = (w, e, ss')" and "0 < w"
  shows "pw_loop kern d ss n calls tot = pw_loop kern d ss' (n - of_int w) (Suc calls) (tot + of_int w)"
  using assms by (simp add: pw_loop.simps [of kern d ss n])

lemma pw_loop_stop: "pw_loop kern d ss 0 calls tot = (ss, calls, tot)"
  by (simp add: pw_loop.simps [of kern d ss 0])

lemma write_moves_some:
  assumes "policy_of ss d = Some p" and "quota p = 0" and "0 < n" and "1 \<le> gives a"
  obtains w ss' where "chaos_io_write ss d n a = (w, None, ss')" and "0 < w" and "w \<le> uint n"
    and "partial_max p \<noteq> 0 \<Longrightarrow> w \<le> uint (partial_max p)"
    and "policy_of ss' d = Some (p\<lparr>bytes_written := bytes_written p + of_int w\<rparr>)"
proof -
  obtain k where a: "a = Moves k" "1 \<le> k" using assms(4) by (cases a) auto
  define m where "m = min n (if partial_max p = 0 then n else partial_max p)"
  have lim: "write_limit p n = Some m" using assms(2) by (simp add: write_limit_def m_def)
  have m: "m \<le> n" "0 < m" "partial_max p \<noteq> 0 \<Longrightarrow> m \<le> partial_max p"
    using assms(3) by (auto simp: m_def min_def word_neq_0_conv)
  let ?w = "int (min k (unat m))"
  have wr: "chaos_io_write ss d n a = (?w, None, io_write_commit ss d ?w)"
    using lim assms(1) a by (simp add: chaos_io_write_def io_write_want_eq)
  have "unat m \<le> unat n" "0 < unat m" using m by (simp_all add: word_le_nat_alt word_less_nat_alt)
  then have "0 < ?w" "?w \<le> int (unat n)" using a by linarith+
  moreover have "?w \<le> int (unat (partial_max p))" if "partial_max p \<noteq> 0"
  proof -
    have "unat m \<le> unat (partial_max p)" using m(3) [OF that] by (simp only: word_le_nat_alt)
    then show ?thesis by linarith
  qed
  ultimately show thesis
    using that [OF wr] chaos_io_write_policy [OF assms(1) wr] by (simp add: max_def)
qed

lemma pw_loop_runs:
  assumes "policy_of ss d = Some p" and "quota p = 0" and "\<And>i. 1 \<le> gives (kern i)"
  shows "\<exists>ss' k. pw_loop kern d ss n calls tot = (ss', calls + k, tot + n) \<and> k \<le> unat n
    \<and> (partial_max p \<noteq> 0 \<longrightarrow> unat n \<le> k * unat (partial_max p))
    \<and> policy_of ss' d = Some (p\<lparr>bytes_written := bytes_written p + n\<rparr>)"
  using assms(1,2)
proof (induction "unat n" arbitrary: n ss p calls tot rule: less_induct)
  case less
  show ?case
  proof (cases "n = 0")
    case True
    have "p\<lparr>bytes_written := bytes_written p\<rparr> = p" by (cases p) simp
    with True less.prems show ?thesis by (simp add: pw_loop_stop)
  next
    case False
    then have pos: "0 < n" by (simp add: word_neq_0_conv)
    obtain w ss1 where w: "chaos_io_write ss d n (kern (Suc calls)) = (w, None, ss1)" "0 < w" "w \<le> uint n"
        "partial_max p \<noteq> 0 \<Longrightarrow> w \<le> uint (partial_max p)"
        "policy_of ss1 d = Some (p\<lparr>bytes_written := bytes_written p + of_int w\<rparr>)"
      by (rule write_moves_some [OF less.prems pos assms(3) [of "Suc calls"]]) blast
    note r = remaining_shrinks [OF w(2,3)]
    have "unat (n - of_int w) < unat n" using r by linarith
    from less.hyps [OF this w(5), of "Suc calls" "tot + of_int w"] less.prems(2) obtain ss' k where
      k: "pw_loop kern d ss1 (n - of_int w) (Suc calls) (tot + of_int w) =
        (ss', Suc calls + k, tot + of_int w + (n - of_int w))" "k \<le> unat (n - of_int w)"
      "partial_max p \<noteq> 0 \<Longrightarrow> unat (n - of_int w) \<le> k * unat (partial_max p)"
      "policy_of ss' d = Some (p\<lparr>bytes_written := bytes_written p + of_int w + (n - of_int w)\<rparr>)"
      by auto
    have "unat n \<le> Suc k * unat (partial_max p)" if "partial_max p \<noteq> 0"
    proof -
      have "nat w \<le> unat (partial_max p)" using w(4) [OF that] by (simp add: nat_le_iff)
      with k(3) [OF that] r show ?thesis by simp
    qed
    with k r pw_loop_step [of n ss d kern calls w None ss1 tot, OF pos w(1,2)] show ?thesis
      by (intro exI [of _ ss'] exI [of _ "Suc k"]) auto
  qed
qed

text \<open>With a kernel that takes every request the number of calls is the number of chunks.\<close>

lemma pw_loop_chunks:
  assumes "policy_of ss d = Some p" and "quota p = 0" and "partial_max p = l" and "0 < l"
    and "\<And>i. unat l \<le> gives (kern i)"
  shows "\<exists>ss'. pw_loop kern d ss n calls tot
    = (ss', calls + (unat n + unat l - 1) div unat l, tot + n)"
  using assms(1-3)
proof (induction "unat n" arbitrary: n ss p calls tot rule: less_induct)
  case less
  have l: "0 < unat l" using assms(4) by (simp add: word_less_nat_alt)
  show ?case
  proof (cases "n = 0")
    case True
    with l show ?thesis by (simp add: pw_loop_stop)
  next
    case False
    then have pos: "0 < n" by (simp add: word_neq_0_conv)
    have lim: "write_limit p n = Some (min n l)"
      using less.prems assms(4) by (simp add: write_limit_def word_neq_0_conv)
    have "unat (min n l) \<le> unat l" by (simp add: min_def word_le_nat_alt)
    with assms(5) [of "Suc calls"] have "unat (min n l) \<le> gives (kern (Suc calls))" by linarith
    moreover have m0: "0 < min n l" using pos assms(4) by simp
    ultimately obtain ss1 where wr: "chaos_io_write ss d n (kern (Suc calls)) = (uint (min n l), None, ss1)"
        "policy_of ss1 d = Some (p\<lparr>bytes_written := bytes_written p + min n l\<rparr>)"
      by (rule chaos_io_write_full [OF less.prems(1) lim])
    have w: "0 < uint (min n l)" using m0 by (simp add: word_less_def)
    have sub: "unat (n - min n l) = unat n - unat (min n l)" by (rule unat_sub) simp
    have m1: "unat (min n l) = min (unat n) (unat l)" by (simp add: min_def word_le_nat_alt)
    have "unat (n - min n l) < unat n" using sub m1 l pos by (simp add: word_less_nat_alt)
    from less.hyps [OF this wr(2), of "Suc calls" "tot + min n l"] less.prems obtain ss' where
      "pw_loop kern d ss1 (n - min n l) (Suc calls) (tot + min n l) =
        (ss', Suc calls + (unat (n - min n l) + unat l - 1) div unat l, tot + min n l + (n - min n l))"
      by auto
    moreover have "Suc ((unat (n - min n l) + unat l - 1) div unat l) = (unat n + unat l - 1) div unat l"
    proof (cases "unat l \<le> unat n")
      case True
      with sub m1 have "unat (n - min n l) + unat l - 1 = unat n - 1" by (simp add: min_absorb2)
      moreover have "unat n + unat l - 1 = unat n - 1 + unat l" using True l by simp
      ultimately show ?thesis using l by (simp only: div_add_self2)
    next
      case False
      then have "(unat n + unat l - 1) div unat l = 1"
        using pos by (intro div_nat_eqI) (auto simp: word_less_nat_alt)
      with l sub m1 False show ?thesis by (simp add: min_absorb1)
    qed
    ultimately show ?thesis
      using pw_loop_step [of n ss d kern calls "uint (min n l)" None ss1 tot, OF pos wr(1) w] by auto
  qed
qed

text \<open>
  C28: looping on short writes is as good as one full write. As long as the kernel takes at least one
  byte per call, the loop of \<open>partial_write.c\<close> ends after at most as many calls as there are
  bytes, at least as many as the chunk limit demands, and the total and the byte count of the
  descriptor are those of a single write on a descriptor without a limit.
\<close>

theorem write_loop_is_one_write:
  assumes "policy_of ss d = Some p" and "quota p = 0" and "\<And>i. 1 \<le> gives (kern i)"
    and "policy_of ss0 d = Some (p\<lparr>partial_max := 0\<rparr>)" and "unat n \<le> k"
  shows "\<exists>ss' calls ss0'. pw_loop kern d ss n 0 0 = (ss', calls, n)
    \<and> chaos_io_write ss0 d n (Moves k) = (uint n, None, ss0')
    \<and> map_option bytes_written (policy_of ss' d) = map_option bytes_written (policy_of ss0' d)
    \<and> calls \<le> unat n \<and> (partial_max p \<noteq> 0 \<longrightarrow> unat n \<le> calls * unat (partial_max p))"
proof -
  from pw_loop_runs [OF assms(1,2), of kern n 0 0] assms(3) obtain ss' calls where
    c: "pw_loop kern d ss n 0 0 = (ss', calls, n)" "calls \<le> unat n"
      "partial_max p \<noteq> 0 \<longrightarrow> unat n \<le> calls * unat (partial_max p)"
      "policy_of ss' d = Some (p\<lparr>bytes_written := bytes_written p + n\<rparr>)"
    by auto
  have wr: "chaos_io_write ss0 d n (Moves k) = (uint n, None, io_write_commit ss0 d (uint n))"
    using assms(2,4,5) by (simp add: chaos_io_write_def io_write_want_eq write_limit_def min_absorb2)
  from chaos_io_write_policy [OF assms(4) wr] have
    "map_option bytes_written (policy_of (io_write_commit ss0 d (uint n)) d) = Some (bytes_written p + n)"
    by (simp add: max_def)
  with c wr show ?thesis by auto
qed

theorem write_loop_is_one_write_witness:
  "\<exists>ss' calls. pw_loop (\<lambda>i. Moves (Suc i)) 7 [fresh_policy 7\<lparr>partial_max := 3\<rparr>] 10 0 0 = (ss', calls, 10)
    \<and> 4 \<le> calls \<and> calls \<le> 10"
proof -
  have "policy_of [fresh_policy 7\<lparr>partial_max := 3\<rparr>] 7 = Some (fresh_policy 7\<lparr>partial_max := 3\<rparr>)"
    "policy_of [fresh_policy 7] 7 = Some (fresh_policy 7\<lparr>partial_max := 3, partial_max := 0\<rparr>)"
    by (simp_all add: policy_of_def fresh_policy_def empty_slot_def)
  from write_loop_is_one_write [OF this(1) _ _ this(2), of "\<lambda>i. Moves (Suc i)" 10 10] show ?thesis
    by (auto simp: gives_def)
qed

text \<open>
  the short write and its cure. With a chunk limit of 137 the naive call moves 137 of the 2048
  bytes, the loop moves all of them in 15 calls, and the lines are those of the golden file.
\<close>

theorem partial_write_matches_golden:
  assumes "0 \<le> mk" and "\<And>i. 137 \<le> gives (kern i)"
  shows "\<exists>evs. pw_run mk tmpl kern = Some (evs, Returns 0)
    \<and> map golden evs =
      [line ''phase'' [] 0 ''naive call: write(fd, buf, 2048) -- expect 2048 back'',
       line ''expect'' ''naive_returned'' 2048 [],
       line ''actual'' ''naive_returned'' 137 [],
       line ''log'' [] 0 ''naive write returned 137 of 2048 bytes -- the other 1911 are LOST'',
       line ''phase'' [] 0 ''correct call: loop on partial writes'',
       line ''expect'' ''looped_total'' 2048 [],
       line ''actual'' ''looped_total'' 2048 [],
       line ''counter'' ''loop_iterations'' 15 [],
       line ''log'' [] 0 ''loop wrote 2048 bytes in 15 calls'']"
proof -
  from open_fresh [OF assms(1)] obtain ss acts where op:
    "chaos_io_open mk tmpl init_slots = (mk, None, ss, acts)"
    "policy_of ss mk = Some ((fresh_policy mk)\<lparr>path := cfield 256 tmpl\<rparr>)" .
  let ?p = "(fresh_policy mk)\<lparr>path := cfield 256 tmpl, partial_max := 137\<rparr>"
  have p: "policy_of (chaos_io_set_partial ss mk 137) mk = Some ?p"
    using op(2) by (simp add: chaos_io_set_partial_def policy_with_slot)
  have "write_limit ?p 2048 = Some 137" by (simp add: write_limit_def)
  from chaos_io_write_full [OF p this, of "kern 0"] assms(2) [of 0] obtain ss1 where
    naive: "chaos_io_write (chaos_io_set_partial ss mk 137) mk 2048 (kern 0) = (137, None, ss1)"
    "policy_of ss1 mk = Some (?p\<lparr>bytes_written := bytes_written ?p + 137\<rparr>)" by auto
  from pw_loop_chunks [OF naive(2), of 137 kern 2048 0 0] assms(2) obtain ss2 where
    loop: "pw_loop kern mk ss1 2048 0 0 = (ss2, 15, 2048)" by auto
  have nums: "show_int 137 = ''137''" "show_int 2048 = ''2048''" "show_int 15 = ''15''"
    by (simp_all add: show_int_def show_nat_def show_base.simps digit_char_def char_of_def bit_Suc_0_iff)
  show ?thesis
    using assms(1) by (simp add: pw_run_def op(1) naive(1) loop nums golden_events plain_def)
qed

theorem partial_write_matches_golden_witness:
  "\<exists>evs. pw_run 7 (bytes ''/tmp/scratch'') (\<lambda>i. Moves 4096) = Some (evs, Returns 0) \<and> length evs = 9"
proof -
  from partial_write_matches_golden [of 7 "\<lambda>i. Moves 4096" "bytes ''/tmp/scratch''"] obtain evs where
    "pw_run 7 (bytes ''/tmp/scratch'') (\<lambda>i. Moves 4096) = Some (evs, Returns 0)"
    "length (map golden evs) = 9"
    by fastforce
  then show ?thesis by auto
qed

text \<open>The nanoseconds a list of calls asks to sleep.\<close>

definition slept :: "sysact list \<Rightarrow> nat" where
  "slept acts = (\<Sum>a \<leftarrow> acts. case a of SysSleep t \<Rightarrow> unat (ns_of_timespec t) | _ \<Rightarrow> 0)"

lemma sf_run_shape:
  assumes "0 \<le> mk" and "g_clock_jitter_max_ns clk = 0"
  shows "\<exists>evs. sf_run mk tmpl ans clk ts0 ts1 =
      (Some (evs, Returns 0), [SysSleep (timespec_of_ns 1500000000), SysFsync mk])
    \<and> length evs = 7
    \<and> evs ! 3 = ev_actual ''fsync_ms'' ((ns_of_timespec ts1 - ns_of_timespec ts0) div 1000000)"
proof -
  from open_fresh [OF assms(1)] obtain ss acts0 where op:
    "chaos_io_open mk tmpl init_slots = (mk, None, ss, acts0)"
    "policy_of ss mk = Some ((fresh_policy mk)\<lparr>path := cfield 256 tmpl\<rparr>)" .
  let ?ss = "chaos_io_set_fsync_delay ss mk 1500000000"
  obtain w e ss1 where wr: "chaos_io_write ?ss mk 1024 ans = (w, e, ss1)"
    by (cases "chaos_io_write ?ss mk 1024 ans")
  have "policy_of ?ss mk = Some ((fresh_policy mk)\<lparr>path := cfield 256 tmpl, fsync_delay_ns := 1500000000\<rparr>)"
    using op(2) by (simp add: chaos_io_set_fsync_delay_def policy_with_slot)
  from chaos_io_write_policy [OF this wr] obtain i where
    "find_locked ss1 mk = Some i" "fsync_delay_ns (ss1 ! i) = 1500000000"
    by (auto simp: policy_of_def fun_eq_iff dest!: spec [of _ mk])
  then have fs: "chaos_io_fsync ss1 mk = [SysSleep (timespec_of_ns 1500000000), SysFsync mk]"
    by (simp add: chaos_io_fsync_def)
  have readings: "chaos_clock_now_ns ts clk = (ns_of_timespec ts + g_clock_skew_ns clk, clk)" for ts
    using assms(2) by (simp add: chaos_clock_now_ns_def ns_of_timespec_def)
  show ?thesis
    using assms(1) by (simp add: sf_run_def op(1) wr fs readings Let_def)
qed

text \<open>
  the slow \<open>fsync\<close> is measured. The call asks for one sleep of 1.5 s and then one
  \<open>fsync\<close>, and when the monotonic clock has advanced by at least the time slept, the scenario
  reports at least 1500 ms, whatever the skew of its clock.
\<close>

theorem slow_fsync_measured:
  assumes "0 \<le> mk" and "g_clock_jitter_max_ns clk = 0"
    and "sf_run mk tmpl ans clk ts0 ts1 = (Some (evs, r), acts)"
    and "slept acts \<le> unat (ns_of_timespec ts1 - ns_of_timespec ts0)"
  shows "acts = [SysSleep (timespec_of_ns 1500000000), SysFsync mk] \<and> r = Returns 0 \<and> length evs = 7
    \<and> (\<exists>ms. evs ! 3 = ev_actual ''fsync_ms'' ms \<and> 1500 \<le> unat ms
          \<and> unat ms = unat (ns_of_timespec ts1 - ns_of_timespec ts0) div 1000000)"
proof -
  define dt where "dt = ns_of_timespec ts1 - ns_of_timespec ts0"
  have run: "acts = [SysSleep (timespec_of_ns 1500000000), SysFsync mk] \<and> r = Returns 0 \<and> length evs = 7
    \<and> evs ! 3 = ev_actual ''fsync_ms'' (dt div 1000000)"
    using sf_run_shape [OF assms(1,2), of tmpl ans ts0 ts1] assms(3) by (auto simp: dt_def)
  then have "1500000000 \<le> unat dt"
    using assms(4) by (simp add: slept_def dt_def)
  then have "1500 \<le> unat (dt div 1000000)" by (simp add: unat_div)
  with run show ?thesis by (auto simp: unat_div dt_def)
qed

theorem slow_fsync_measured_witness:
  "\<exists>evs ms. fst (sf_run 7 (bytes ''/tmp/scratch'') (Moves 1024) init_clock (timespec_of_ns 5)
        (timespec_of_ns 1500000123)) = Some (evs, Returns 0)
    \<and> evs ! 3 = ev_actual ''fsync_ms'' ms \<and> 1500 \<le> unat ms"
proof -
  have clk: "g_clock_jitter_max_ns init_clock = 0" by (simp add: init_clock_def)
  from sf_run_shape [of 7, OF _ clk] obtain evs where
    r: "sf_run 7 (bytes ''/tmp/scratch'') (Moves 1024) init_clock (timespec_of_ns 5) (timespec_of_ns 1500000123)
      = (Some (evs, Returns 0), [SysSleep (timespec_of_ns 1500000000), SysFsync 7])" by fastforce
  have "slept [SysSleep (timespec_of_ns 1500000000), SysFsync 7]
      \<le> unat (ns_of_timespec (timespec_of_ns 1500000123) - ns_of_timespec (timespec_of_ns 5))"
    by (simp add: slept_def)
  from slow_fsync_measured [OF _ clk r this] r show ?thesis by auto
qed

text \<open>The clock without skew and jitter, and after the jump.\<close>

lemma cj_loop_turn:
  assumes "g_clock_jitter_max_ns clk = 0"
    and "ns_of_timespec (readings (Suc i)) + g_clock_skew_ns clk - start < 100000000" and "i < 100000000"
  shows "cj_loop readings start i b clk out =
    (if Suc i = 1000 \<and> \<not> b
     then cj_loop readings start (Suc i) True (chaos_clock_skew_set (- 30000000000) clk)
            (out @ [ev_log ''  ...someone bumps the clock backward 30s mid-loop''])
     else cj_loop readings start (Suc i) b clk out)"
  using assms
  by (subst cj_loop.simps) (simp add: chaos_clock_now_ns_def ns_of_timespec_def Let_def)

lemma cj_loop_until_jump:
  assumes "g_clock_jitter_max_ns clk = 0" and "g_clock_skew_ns clk = 0"
    and "\<And>i. i < 1000 \<Longrightarrow> ns_of_timespec (readings (Suc i)) - start < 100000000"
  shows "i < 1000 \<Longrightarrow> cj_loop readings start i False clk [] =
    cj_loop readings start 1000 True (chaos_clock_skew_set (- 30000000000) clk)
      [ev_log ''  ...someone bumps the clock backward 30s mid-loop'']"
proof (induction "999 - i" arbitrary: i)
  case 0
  then have "i = 999" by simp
  with cj_loop_turn [of clk readings 999 start False "[]"] assms(1,2) assms(3) [of 999]
  show ?case by simp
next
  case (Suc k)
  then have i: "i < 999" "k = 999 - Suc i" by auto
  with Suc.hyps(1) [of "Suc i"] cj_loop_turn [of clk readings i start False "[]"] assms(1,2) assms(3) [of i]
  show ?case by simp
qed

lemma jump_back_wraps:
  fixes e :: u64
  assumes "e < 30000000000"
  shows "\<not> e - 30000000000 < 100000000"
proof -
  have e: "unat e < 30000000000" using assms by (simp add: word_less_nat_alt)
  then have "unat (e - 30000000000) = unat e + 2 ^ 64 - 30000000000"
    by (simp add: unat_sub_if_size word_size)
  then show ?thesis by (simp add: word_less_nat_alt)
qed

text \<open>
  C29: the timeout that fires instead of hanging. When a thousand turns take less than 100 ms, the
  clock then jumps 30 s back and fewer than 30 s have passed, the difference of the unsigned
  readings wraps around to a huge value: the loop ends at the very next test, after exactly 1000
  turns, and the lines are those of the golden file.
\<close>

theorem clock_jump_matches_golden:
  assumes "g_clock_jitter_max_ns clk = 0" and "g_clock_skew_ns clk = 0"
    and "\<And>i. i < 1000 \<Longrightarrow> ns_of_timespec (readings (Suc i)) - ns_of_timespec (readings 0) < 100000000"
    and "ns_of_timespec (readings 1001) - ns_of_timespec (readings 0) < 30000000000"
  shows "\<exists>evs. cj_run readings clk = (Some (evs, Returns 0), clk)
    \<and> map golden evs =
      [line ''phase'' [] 0 ''naive timeout: while (now - start < 100ms)'',
       line ''log'' [] 0 (''we'' @ [CHR 0x27] @ ''ll start the loop, then have someone jump the clock backward 30s.''),
       line ''expect'' ''loop_terminated'' 1 [],
       line ''log'' [] 0 ''  ...someone bumps the clock backward 30s mid-loop'',
       line ''actual'' ''loop_terminated'' 1 [],
       line ''counter'' ''iterations'' 1000 [],
       line ''log'' [] 0 ''loop terminated after 1000 iterations (safety net engaged)'']"
proof -
  let ?start = "ns_of_timespec (readings 0)" and ?clk = "chaos_clock_skew_set (- 30000000000) clk"
  have start: "chaos_clock_now_ns (readings 0) clk = (?start, clk)"
    using assms(1,2) by (simp add: chaos_clock_now_ns_def ns_of_timespec_def)
  have "\<not> ns_of_timespec (readings 1001) - ?start - 30000000000 < 100000000"
    by (rule jump_back_wraps [OF assms(4)])
  then have last: "\<not> ns_of_timespec (readings 1001) - 30000000000 - ?start < 100000000"
    by (simp add: diff_diff_eq add.commute)
  have now: "chaos_clock_now_ns (readings 1001) ?clk = (ns_of_timespec (readings 1001) - 30000000000, ?clk)"
    using assms(1) by (simp add: chaos_clock_now_ns_def ns_of_timespec_def chaos_clock_skew_set_def)
  have "cj_loop readings ?start 1000 True ?clk out = (1000, ?clk, out)" for out
    by (subst cj_loop.simps) (simp add: now last)
  with cj_loop_until_jump [of clk readings ?start 0, OF assms(1-3)]
  have loop: "cj_loop readings ?start 0 False clk [] =
      (1000, ?clk, [ev_log ''  ...someone bumps the clock backward 30s mid-loop''])" by simp
  have reset: "chaos_clock_skew_set 0 ?clk = clk" using assms(2) by (simp add: chaos_clock_skew_set_def)
  have nums: "show_int 1000 = ''1000''"
    by (simp add: show_int_def show_nat_def show_base.simps digit_char_def char_of_def bit_Suc_0_iff)
  show ?thesis
    by (simp add: cj_run_def start loop reset nums golden_events plain_def)
qed

theorem clock_jump_matches_golden_witness:
  "\<exists>evs. fst (cj_run (\<lambda>i. timespec_of_ns (7 + of_nat i)) init_clock) = Some (evs, Returns 0) \<and> length evs = 7"
proof -
  have "g_clock_jitter_max_ns init_clock = 0" "g_clock_skew_ns init_clock = 0" by (simp_all add: init_clock_def)
  moreover have "ns_of_timespec (timespec_of_ns (7 + of_nat (Suc i))) - ns_of_timespec (timespec_of_ns (7 + of_nat 0))
      < 100000000" if "i < 1000" for i
    using that by (simp add: word_less_nat_alt unat_of_nat flip: of_nat_Suc)
  moreover have "ns_of_timespec (timespec_of_ns (7 + of_nat 1001)) - ns_of_timespec (timespec_of_ns (7 + of_nat 0))
      < 30000000000" by simp
  ultimately obtain evs where
    "cj_run (\<lambda>i. timespec_of_ns (7 + of_nat i)) init_clock = (Some (evs, Returns 0), init_clock)"
    "length (map golden evs) = 7"
    using clock_jump_matches_golden [of init_clock "\<lambda>i. timespec_of_ns (7 + of_nat i)"] by fastforce
  then show ?thesis by auto
qed

text \<open>The averages of the timer loop.\<close>

lemma jt_turns:
  assumes "\<And>i. 1000000 \<le> dt i \<and> dt i < 2 ^ 62"
    and "\<And>i. dt i = jt_now_ns (readings (2 * i + 1)) - jt_now_ns (readings (2 * i))"
  defines "v \<equiv> \<lambda>n. fold (jt_iter readings) [0..<n] \<lparr>jt_total = 0, jt_min = 2 ^ 62, jt_max = 0\<rparr>"
  shows "1000000 \<le> jt_min (v (Suc n)) \<and> int (Suc n) * jt_min (v (Suc n)) \<le> jt_total (v (Suc n))
    \<and> jt_total (v (Suc n)) \<le> int (Suc n) * jt_max (v (Suc n))"
proof (induction n)
  case 0
  show ?case using assms(1) [of 0] assms(2) [of 0] by (simp add: v_def jt_iter_def Let_def)
next
  case (Suc n)
  define a where "a = v (Suc n)"
  define d where "d = dt (Suc n)"
  have step: "v (Suc (Suc n)) = a\<lparr>jt_total := jt_total a + d, jt_min := min (jt_min a) d, jt_max := max (jt_max a) d\<rparr>"
    using assms(2) [of "Suc n"] by (simp add: a_def d_def v_def jt_iter_def Let_def min_def max_def)
  have d: "1000000 \<le> d" using assms(1) by (simp add: d_def)
  define N where "N = int (Suc n)"
  have N: "0 \<le> N" "int (Suc (Suc n)) = N + 1" by (simp_all add: N_def)
  have "N * min (jt_min a) d \<le> N * jt_min a" "N * jt_max a \<le> N * max (jt_max a) d"
    using N(1) by (intro mult_left_mono; simp)+
  moreover have "min (jt_min a) d \<le> d" "d \<le> max (jt_max a) d" by simp_all
  moreover have "1000000 \<le> jt_min a" "N * jt_min a \<le> jt_total a" "jt_total a \<le> N * jt_max a"
    using Suc.IH by (simp_all only: a_def N_def)
  ultimately have "1000000 \<le> min (jt_min a) d" "(N + 1) * min (jt_min a) d \<le> jt_total a + d"
    "jt_total a + d \<le> (N + 1) * max (jt_max a) d"
    using d by (simp, simp only: distrib_right mult_1_left, simp only: distrib_right mult_1_left)
  then show ?case unfolding step N(2) by simp
qed

text \<open>
  what the timer loop reports is in order. When every sleep of one millisecond takes at least
  that long, the smallest delay reported is at least 1000 us, the mean lies between the smallest
  and the largest, and the mean and the extremes are reported with these values.
\<close>

theorem jittery_timer_bounds:
  assumes "\<And>i. 1000000 \<le> jt_now_ns (readings (2 * i + 1)) - jt_now_ns (readings (2 * i))
      \<and> jt_now_ns (readings (2 * i + 1)) - jt_now_ns (readings (2 * i)) < 2 ^ 62"
  shows "\<exists>evs mean_us min_us max_us. jt_run readings = Some (evs, Returns 0) \<and> length evs = 7
    \<and> evs ! 2 = ev_actual ''mean_us'' (of_int mean_us) \<and> evs ! 3 = ev_gauge ''min_us'' (of_int min_us)
    \<and> evs ! 4 = ev_gauge ''max_us'' (of_int max_us)
    \<and> 1000 \<le> min_us \<and> min_us \<le> mean_us \<and> mean_us \<le> max_us"
proof -
  define v where "v = jt_loop readings"
  have v: "1000000 \<le> jt_min v" "50 * jt_min v \<le> jt_total v" "jt_total v \<le> 50 * jt_max v"
    using jt_turns [of "\<lambda>i. jt_now_ns (readings (2 * i + 1)) - jt_now_ns (readings (2 * i))" readings 49] assms
    by (simp_all add: v_def jt_loop_def del: upt_rec_numeral upt_Suc)
  have "0 \<le> jt_total v" "0 \<le> jt_max v" using v by linarith+
  then have sdivs: "jt_total v sdiv 50 sdiv 1000 = jt_total v div 50 div 1000"
    "jt_min v sdiv 1000 = jt_min v div 1000" "jt_max v sdiv 1000 = jt_max v div 1000"
    using v(1) by (simp_all add: signed_divide_int_def sgn_if pos_imp_zdiv_nonneg_iff)
  define lo mean hi where "lo = jt_min v div 1000" and "mean = jt_total v div 50 div 1000"
    and "hi = jt_max v div 1000"
  have "lo \<le> mean" unfolding lo_def mean_def using v(2) by (intro zdiv_mono1) simp_all
  moreover have "mean \<le> hi" unfolding mean_def hi_def using v(3) by (intro zdiv_mono1) simp_all
  moreover have "1000 \<le> lo" using v(1) by (simp add: lo_def)
  ultimately show ?thesis
    unfolding jt_run_def Let_def v_def [symmetric] sdivs lo_def [symmetric] mean_def [symmetric] hi_def [symmetric]
    by (rule_tac exI, rule_tac exI [of _ mean], rule_tac exI [of _ lo], rule_tac exI [of _ hi],
        rule_tac conjI, rule_tac refl) simp
qed

theorem jittery_timer_bounds_witness:
  "\<exists>evs. jt_run (\<lambda>i. timespec_of_ns (of_nat (i mod 2) * 1250000)) = Some (evs, Returns 0) \<and> length evs = 7"
  using jittery_timer_bounds [of "\<lambda>i. timespec_of_ns (of_nat (i mod 2) * 1250000)"]
  by (fastforce simp: jt_now_ns_def timespec_of_ns_def)

end
