(* ===== verification/Scen_Compound.thy ===== *)
theory Scen_Compound
  imports Net_Link Scen_TimeIO
begin

text \<open>
  Two of the scenarios of \<open>src/scenarios/compound\<close>: \<open>cascading_failure.c\<close>, a lossy link in
  front of a receiver that persists with slow \<open>fsync\<close>s, and \<open>flaky_environment.c\<close>, a heartbeat
  under jitter. Arguments are what the kernel decides, as in the theories imported; the last
  \<open>chaos_io_close\<close> and \<open>chaos_net_close\<close> emit nothing and are left out. Quantities that stay
  far below \<open>2 ^ 63\<close> are integers.
\<close>

section \<open>cascading\_failure.c\<close>

definition CHUNKS :: nat where "CHUNKS = 50"
definition CHUNK_BYTES :: nat where "CHUNK_BYTES = 256"
definition FSYNC_DELAY :: u64 where "FSYNC_DELAY = 50 * 1000000"

text \<open>\<open>rv_slots\<close> and \<open>rv_acts\<close>: the descriptor table and the calls of the thread.\<close>

record receiver_state_t =
  bytes_received :: int
  bytes_persisted :: int
  fsync_count :: int
  rv_slots :: slots
  rv_acts :: "sysact list"

text \<open>
  Every turn has the answers to \<open>read\<close> and to the \<open>write\<close> inside \<open>chaos_io_write\<close>. \<open>None\<close> is
  a thread that is still reading.
\<close>

fun receiver_fn :: "int \<Rightarrow> (answer \<times> answer) list \<Rightarrow> u8 list \<Rightarrow> receiver_state_t \<Rightarrow> receiver_state_t option" where
  "receiver_fn io_fd [] inp s = None"
| "receiver_fn io_fd ((a, aw) # turns) inp s =
     (case a of
        Fails e \<Rightarrow> Some s
      | Moves k \<Rightarrow>
          (let n = read_count k 4096 inp
           in if n = 0 then Some s
              else
                (let s = s\<lparr>bytes_received := bytes_received s + int n\<rparr>;
                     (w, e, ss) = chaos_io_write (rv_slots s) io_fd (of_nat n) aw;
                     s = s\<lparr>rv_slots := ss\<rparr>;
                     s = (if w > 0 then s\<lparr>bytes_persisted := bytes_persisted s + w\<rparr> else s);
                     s = s\<lparr>rv_acts := rv_acts s @ chaos_io_fsync ss io_fd, fsync_count := fsync_count s + 1\<rparr>
                 in receiver_fn io_fd turns (drop n inp) s)))"

text \<open>The loss is the double next to 0.20.\<close>

definition cf_knobs :: chaos_net_knobs_t where
  "cf_knobs = \<lparr>loss_prob = 3602879701896397 / 2 ^ 54, delay_min_ns = 0, delay_max_ns = 0, max_chunk_bytes = 64\<rparr>"

definition cf_sent :: "(nat \<Rightarrow> answer) \<Rightarrow> nat" where
  "cf_sent kern =
     fold (\<lambda>i sent. case kern i of Moves m \<Rightarrow> sent + min m CHUNK_BYTES | Fails e \<Rightarrow> sent) [0..<CHUNKS] 0"

definition arrow :: string where "arrow = [CHR 0xE2, CHR 0x86, CHR 0x92]"
definition approx :: string where "approx = [CHR 0xE2, CHR 0x89, CHR 0x88]"

text \<open>
  \<open>mk\<close> is what \<open>mkstemp\<close> returns, \<open>th\<close> whether the thread was made; joining a thread that was
  not has no defined result. The second component are the receiver's calls.
\<close>

definition cf_run ::
    "u64 \<Rightarrow> int \<Rightarrow> u8 list \<Rightarrow> link_world \<Rightarrow> bool \<Rightarrow> (nat \<Rightarrow> answer) \<Rightarrow> (answer \<times> answer) list
      \<Rightarrow> clock_state \<Rightarrow> timespec \<Rightarrow> timespec \<Rightarrow> run_result \<times> sysact list"
where
  "cf_run seed mk tmpl w th kern turns clk ts0 ts1 =
     (case open_link cf_knobs seed w of
        None \<Rightarrow> (Some ([ev_fault ''chaos_net_pair failed''], Returns 1), [])
      | Some I \<Rightarrow>
         (let (io_fd, e, ss, acts) = chaos_io_open mk tmpl init_slots
          in if io_fd < 0 then (Some ([ev_fault ''chaos_io_open failed''], Returns 1), [])
             else if \<not> th then (None, [])
             else
               (let ss = chaos_io_set_fsync_delay ss io_fd FSYNC_DELAY;
                    (t0, clk) = chaos_clock_now_ns ts0 clk;
                    sent = int (cf_sent kern)
                in case do {
                     got \<leftarrow> forwarded I w (replicate (cf_sent kern) (of_char CHR ''C''));
                     receiver_fn io_fd turns got
                       \<lparr>bytes_received = 0, bytes_persisted = 0, fsync_count = 0, rv_slots = ss, rv_acts = []\<rparr>
                   } of
                     None \<Rightarrow> (None, [])
                   | Some s \<Rightarrow>
                      (let (t1, clk) = chaos_clock_now_ns ts1 clk;
                           dt = t1 - t0;
                           ms = int (unat (dt div 1000000));
                           lost = sent - bytes_received s;
                           lost_pct = (100 * lost) sdiv (int CHUNKS * int CHUNK_BYTES)
                       in (Some
                             ([ev_phase (''sending through 20% loss '' @ arrow @ '' persisting with 50ms fsync''),
                               ev_expect ''bytes_persisted'' (of_nat (CHUNKS * CHUNK_BYTES)),
                               ev_count ''bytes_sent'' (of_int sent),
                               ev_count ''bytes_received'' (of_int (bytes_received s)),
                               ev_actual ''bytes_persisted'' (of_int (bytes_persisted s)),
                               ev_count ''fsync_count'' (of_int (fsync_count s)),
                               ev_gauge ''elapsed_ms'' (of_int ms),
                               ev_log (''sent='' @ show_int sent @ '' received='' @ show_int (bytes_received s)
                                 @ '' persisted='' @ show_int (bytes_persisted s) @ ''  (lost '' @ show_int lost
                                 @ '' B = '' @ show_int lost_pct @ ''%)''),
                               ev_log (''elapsed='' @ show_int ms @ '' ms across '' @ show_int (fsync_count s)
                                 @ '' fsyncs ('' @ approx @ '' ''
                                 @ show_int (if fsync_count s \<noteq> 0 then ms sdiv fsync_count s else 0) @ '' ms/fsync)'')],
                              Returns 0),
                           rv_acts s)))))"

section \<open>flaky\_environment.c\<close>

definition TICKS :: nat where "TICKS = 20"
definition TARGET_MS :: nat where "TARGET_MS = 100"

definition fe_knobs :: chaos_net_knobs_t where
  "fe_knobs = \<lparr>loss_prob = 0, delay_min_ns = (3 - 1) * 1000000, delay_max_ns = (3 + 2) * 1000000, max_chunk_bytes = 32\<rparr>"

text \<open>
  Time in nanoseconds: \<open>fe_time\<close> is the monotonic clock. A sleep moves it by what was asked for,
  and before every reading any time may pass, the next of \<open>fe_lats\<close>. The byte each tick writes
  into the link is read by a thread that throws it away: nothing the scenario reports depends on
  it, and that \<open>write\<close>, whose duration is part of the time that may pass, and the
  \<open>pthread_create\<close> of the reader, whose result the code does not look at, are left out.
\<close>

record fe_world =
  fe_time :: nat
  fe_lats :: "nat list"
  fe_clk :: clock_state
  fe_slots :: slots
  fe_acts :: "sysact list"

definition fe_now :: "fe_world \<Rightarrow> (u64 \<times> fe_world) option" where
  "fe_now w =
     (case fe_lats w of
        [] \<Rightarrow> None
      | l # ls \<Rightarrow>
          (let t = fe_time w + l;
               (v, clk) = chaos_clock_now_ns (timespec_of_ns (of_nat t)) (fe_clk w)
           in Some (v, w\<lparr>fe_time := t, fe_lats := ls, fe_clk := clk\<rparr>)))"

definition fe_does :: "sysact list \<Rightarrow> fe_world \<Rightarrow> fe_world" where
  "fe_does acts w = w\<lparr>fe_time := fe_time w + slept acts, fe_acts := fe_acts w @ acts\<rparr>"

text \<open>The cadence loop: sleep until the deadline.\<close>

lemma fe_now_lats: "fe_now w = Some (v, w') \<Longrightarrow> length (fe_lats w') < length (fe_lats w)"
  by (auto simp: fe_now_def split: list.splits prod.splits)

function fe_wait :: "u64 \<Rightarrow> fe_world \<Rightarrow> fe_world option" where
  "fe_wait deadline w =
     (case fe_now w of
        None \<Rightarrow> None
      | Some (now, w) \<Rightarrow>
          if now \<ge> deadline then Some w
          else fe_wait deadline (fe_does [SysSleep (timespec_of_ns (deadline - now))] w))"
  by pat_completeness auto
termination
  by (relation "measure (\<lambda>(deadline, w). length (fe_lats w))") (auto simp: fe_does_def dest: fe_now_lats)

declare fe_wait.simps [simp del]

record fe_vars =
  fe_min :: int
  fe_max :: int
  fe_sum :: int
  fe_prev :: u64

definition fe_tick :: "(nat \<Rightarrow> answer) \<Rightarrow> int \<Rightarrow> u64 \<Rightarrow> nat \<Rightarrow> fe_vars \<times> fe_world \<Rightarrow> (fe_vars \<times> fe_world) option" where
  "fe_tick kern io_fd start i = (\<lambda>(v, w).
     let (n, e, ss) = chaos_io_write (fe_slots w) io_fd 64 (kern i);
         w = fe_does (chaos_io_fsync ss io_fd) (w\<lparr>fe_slots := ss\<rparr>);
         deadline = start + of_nat i * of_nat TARGET_MS * 1000000
     in do {
       w \<leftarrow> fe_wait deadline w;
       (now, w) \<leftarrow> fe_now w;
       let dt = int (unat ((now - fe_prev v) div 1000000));
       Some (\<lparr>fe_min = (if dt < fe_min v then dt else fe_min v),
              fe_max = (if dt > fe_max v then dt else fe_max v),
              fe_sum = fe_sum v + dt, fe_prev = now\<rparr>, w)
     })"

fun fe_ticks :: "(nat \<Rightarrow> answer) \<Rightarrow> int \<Rightarrow> u64 \<Rightarrow> nat list \<Rightarrow> fe_vars \<times> fe_world \<Rightarrow> (fe_vars \<times> fe_world) option" where
  "fe_ticks kern io_fd start [] s = Some s"
| "fe_ticks kern io_fd start (i # is) s = Option.bind (fe_tick kern io_fd start i s) (fe_ticks kern io_fd start is)"

definition fe_run ::
    "u64 \<Rightarrow> int \<Rightarrow> u8 list \<Rightarrow> link_world \<Rightarrow> (nat \<Rightarrow> answer) \<Rightarrow> clock_state \<Rightarrow> nat \<Rightarrow> nat list \<Rightarrow> run_result \<times> sysact list"
where
  "fe_run seed mk tmpl w kern clk t lats =
     (case open_link fe_knobs seed w of
        None \<Rightarrow> (Some ([ev_fault ''chaos_net_pair failed''], Returns 1), [])
      | Some I \<Rightarrow>
         (let (io_fd, e, ss, acts) = chaos_io_open mk tmpl init_slots
          in if io_fd < 0 then (Some ([ev_fault ''chaos_io_open failed''], Returns 1), [])
             else
               (let ss = chaos_io_set_fsync_delay ss io_fd (15 * 1000000);
                    clk = chaos_clock_jitter_set (2 * 1000000) clk
                in case do {
                     (start, fw) \<leftarrow> fe_now \<lparr>fe_time = t, fe_lats = lats, fe_clk = clk, fe_slots = ss, fe_acts = []\<rparr>;
                     fe_ticks kern io_fd start [1..<TICKS + 1]
                       (\<lparr>fe_min = 2 ^ 62, fe_max = 0, fe_sum = 0, fe_prev = start\<rparr>, fw)
                   } of
                     None \<Rightarrow> (None, [])
                   | Some (v, fw) \<Rightarrow>
                      (let mean = fe_sum v sdiv int TICKS
                       in (Some
                             ([ev_phase (''20 '' @ [CHR 0x27] @ ''heartbeats'' @ [CHR 0x27] @ '' supposed to fire every 100ms''),
                               ev_log ''each tick: net write (~3ms delay) + fsync (~15ms) + sleep to deadline'',
                               ev_expect ''max_tick_ms'' (of_nat TARGET_MS),
                               ev_actual ''max_tick_ms'' (of_int (fe_max v)),
                               ev_gauge ''min_tick_ms'' (of_int (fe_min v)),
                               ev_gauge ''max_tick_ms'' (of_int (fe_max v)),
                               ev_gauge ''mean_tick_ms'' (of_int mean),
                               ev_log (''target='' @ show_nat TARGET_MS @ '' ms  min='' @ show_int (fe_min v)
                                 @ ''  mean='' @ show_int mean @ ''  max='' @ show_int (fe_max v)),
                               ev_log ''naive heartbeat code assumes jitter <= budget; in prod the outliers will timeout you.''],
                              Returns 0),
                           fe_acts fw)))))"


section \<open>The descriptors\<close>

definition cascading_failure_scen :: "int \<Rightarrow> u8 list \<Rightarrow> link_world \<Rightarrow> bool \<Rightarrow> (nat \<Rightarrow> answer) \<Rightarrow> (answer \<times> answer) list \<Rightarrow> clock_state \<Rightarrow> timespec \<Rightarrow> timespec \<Rightarrow> unit pg_scenario_t" where
  "cascading_failure_scen mk tmpl w th kern turns clk ts0 ts1 =
    \<lparr>sc_id = ''cascading_failure'',
      sc_title = ''Cascade: loss + slow fsync'',
      sc_one_liner = ''20% net loss, 50ms fsyncs, concurrent receiver'',
      sc_description = ''A lossy network feeds a receiver that persists each chunk via slow fsync. Individually each primitive is tolerable; compounded they tank throughput.'',
      sc_expected = ''bytes_persisted < bytes_sent (some lost), wall-time >> single-primitive case'',
      sc_lesson = Some (join_lines
       [''Why compounding failures are worse than they look:'',
        [],
        ''Individually, each chaos source is routine:'',
        (''  - 20% packet loss '' @ [CHR 0xE2, CHR 0x86, CHR 0x92] @ '' TCP retransmits invisibly.''),
        (''  - 50ms fsync      '' @ [CHR 0xE2, CHR 0x86, CHR 0x92] @ '' ~20 ops/sec per thread.''),
        (''  - 1 receiver thread '' @ [CHR 0xE2, CHR 0x86, CHR 0x92] @ '' naive serial processing.''),
        [],
        ''Combined they compound:'',
        ''  - Lost chunks lengthen the tail (retries not modeled here;'',
        ''    in prod they'd arrive out of order too).'',
        ''  - Every fsync serializes the receiver; when the sender'',
        ''    sprints, the queue grows and tail latency follows.'',
        ''  - If the sender had a timeout, it would start firing.'',
        [],
        ''Fixes:'',
        ''  - Batch writes between fsyncs (group commit).'',
        ''  - Separate thread pools per stage with explicit queues.'',
        ''  - Apply backpressure BEFORE the timeout tier.'',
        ''  - Test the compound scenario; individual-component SLOs'',
        ''    never predict compound-failure behavior.'']),
      sc_category = PG_CAT_COMPOUND,
      sc_init = None,
      sc_run = (\<lambda>st c. play_run (fst (cf_run (pg_runctx_seed TheCtx c) mk tmpl w th kern turns clk ts0 ts1)) c),
      sc_teardown = None,
      sc_explain = None\<rparr>"

definition flaky_environment_scen :: "int \<Rightarrow> u8 list \<Rightarrow> link_world \<Rightarrow> (nat \<Rightarrow> answer) \<Rightarrow> clock_state \<Rightarrow> nat \<Rightarrow> nat list \<Rightarrow> unit pg_scenario_t" where
  "flaky_environment_scen mk tmpl w kern clk t lats =
    \<lparr>sc_id = ''flaky_environment'',
      sc_title = ''Flaky env: jitter everywhere'',
      sc_one_liner = ''100ms heartbeat under net + fsync + clock noise'',
      sc_description = ''Measures how much a 100ms cadence slips when every layer adds a little variance. Individually each layer is tolerable; combined they blow the budget.'',
      sc_expected = ''max_tick_ms >> target (100); mean close to target'',
      sc_lesson = Some (join_lines
       [''Why 'it worked in dev' fails in prod: every single layer adds'',
        ''variance. Network jitter. Disk tail latency. Scheduler preempts.'',
        ''NTP adjusts the clock. Each layer is ~2-15 ms in isolation; each'',
        ''is forgivable. Compounded across a single iteration, the nominal'',
        ''100 ms budget is regularly violated.'',
        [],
        ''Naive heartbeat timeouts (e.g. 'declare peer dead if no beat for'',
        ''200 ms') fire false positives under load.'',
        [],
        ''Fixes:'',
        (''  - Timeout = 3-5'' @ [CHR 0xC3, CHR 0x97] @ '' the nominal interval, not 2'' @ [CHR 0xC3, CHR 0x97] @ ''.''),
        ''  - Use CLOCK_MONOTONIC for elapsed math (never REALTIME).'',
        ''  - Measure p99 in prod, not just p50.'',
        ''  - Inject synthetic jitter in tests so the chaos is familiar.'']),
      sc_category = PG_CAT_COMPOUND,
      sc_init = None,
      sc_run = (\<lambda>st c. play_run (fst (fe_run (pg_runctx_seed TheCtx c) mk tmpl w kern clk t lats)) c),
      sc_teardown = None,
      sc_explain = None\<rparr>"

section \<open>What arrives is persisted\<close>

text \<open>A descriptor with no quota and no short writes, with the delay \<open>d\<close>.\<close>

definition plain_policy :: "u64 \<Rightarrow> io_slot_t \<Rightarrow> bool" where
  "plain_policy d p \<longleftrightarrow> quota p = 0 \<and> partial_max p = 0 \<and> fsync_delay_ns p = d"


lemma fsync_of_plain:
  assumes "policy_of ss ff = Some p" and "plain_policy d p" and "0 < d"
  shows "chaos_io_fsync ss ff = [SysSleep (timespec_of_ns d), SysFsync ff]"
  using assms by (auto simp: policy_of_def plain_policy_def chaos_io_fsync_def)

lemma policy_of_fresh:
  assumes "0 \<le> mk"
  obtains ss acts p where "chaos_io_open mk tmpl init_slots = (mk, None, ss, acts)"
    and "policy_of (chaos_io_set_fsync_delay ss mk d) mk = Some p" and "plain_policy d p"
proof -
  from open_fresh [OF assms, of tmpl] obtain ss acts where
    op: "chaos_io_open mk tmpl init_slots = (mk, None, ss, acts)"
    "policy_of ss mk = Some ((fresh_policy mk)\<lparr>path := cfield 256 tmpl\<rparr>)" .
  have "policy_of (chaos_io_set_fsync_delay ss mk d) mk =
      Some ((fresh_policy mk)\<lparr>path := cfield 256 tmpl, fsync_delay_ns := d\<rparr>)"
    using op(2) by (simp add: chaos_io_set_fsync_delay_def policy_with_slot)
  with op(1) show thesis by (rule that) (simp add: plain_policy_def)
qed





section \<open>Properties\<close>



section \<open>The heartbeat keeps its mean\<close>

text \<open>The clock of the scenario: no skew, jitter below two milliseconds.\<close>

definition fe_ok :: "fe_world \<Rightarrow> bool" where
  "fe_ok w \<longleftrightarrow> g_clock_skew_ns (fe_clk w) = 0 \<and> g_clock_jitter_max_ns (fe_clk w) = 2000000"

text \<open>Time that can still pass without a wait.\<close>

definition fe_horizon :: "fe_world \<Rightarrow> nat" where
  "fe_horizon w = fe_time w + sum_list (fe_lats w)"

lemma fe_now_reading:
  assumes "fe_now w = Some (v, w')" and "fe_ok w" and "fe_horizon w < 2 ^ 62"
  shows "fe_time w' \<le> unat v \<and> unat v < fe_time w' + 2000000 \<and> fe_ok w' \<and> fe_time w \<le> fe_time w'
    \<and> fe_horizon w' = fe_horizon w \<and> fe_slots w' = fe_slots w"
proof -
  obtain l ls where l: "fe_lats w = l # ls" using assms(1) by (cases "fe_lats w") (auto simp: fe_now_def)
  let ?t = "fe_time w + l"
  obtain x g where x: "pg_xosh_next (g_clock_rng (fe_clk w)) = (x, g)" by (cases "pg_xosh_next (g_clock_rng (fe_clk w))")
  have t: "?t < 2 ^ 62" using assms(3) by (simp add: fe_horizon_def l)
  have v: "v = of_nat ?t + x mod 2000000"
    and w': "w' = w\<lparr>fe_time := ?t, fe_lats := ls, fe_clk := (fe_clk w)\<lparr>g_clock_rng := g\<rparr>\<rparr>"
    using assms(1,2) l x ns_of_timespec_of_ns [of "of_nat ?t"]
    by (auto simp: fe_now_def fe_ok_def chaos_clock_now_ns_def ns_of_timespec_def Let_def)
  have j: "unat (x mod 2000000) < 2000000" by (simp add: unat_mod)
  have "unat v = ?t + unat (x mod 2000000)"
    unfolding v using t j by (simp add: unat_word_ariths unat_of_nat)
  with j assms(2) show ?thesis by (simp add: w' fe_ok_def fe_horizon_def l)
qed

lemma fe_wait_until:
  assumes "fe_wait dl w = Some w'" and "fe_ok w" and "max (fe_horizon w) (unat dl + sum_list (fe_lats w)) < 2 ^ 62"
  shows "unat dl < fe_time w' + 2000000 \<and> fe_ok w' \<and> fe_time w \<le> fe_time w'
    \<and> fe_horizon w' \<le> max (fe_horizon w) (unat dl + sum_list (fe_lats w)) \<and> fe_slots w' = fe_slots w"
  using assms
proof (induction dl w rule: fe_wait.induct)
  case (1 dl w)
  from "1.prems"(1) obtain now w1 where now: "fe_now w = Some (now, w1)"
    by (subst (asm) fe_wait.simps) (auto split: option.splits)
  have h: "fe_horizon w < 2 ^ 62" using "1.prems"(3) by simp
  note r = fe_now_reading [OF now "1.prems"(2) h]
  have lats: "sum_list (fe_lats w1) \<le> sum_list (fe_lats w)"
    using now by (auto simp: fe_now_def split: list.splits prod.splits)
  show ?case
  proof (cases "dl \<le> now")
    case True
    with "1.prems"(1) now have "w' = w1" by (subst (asm) fe_wait.simps) simp
    moreover have "unat dl \<le> unat now" using True by (simp add: word_le_nat_alt)
    ultimately show ?thesis using r by auto
  next
    case False
    let ?w2 = "fe_does [SysSleep (timespec_of_ns (dl - now))] w1"
    have rec: "fe_wait dl ?w2 = Some w'" using "1.prems"(1) now False by (subst (asm) fe_wait.simps) simp
    have "unat (dl - now) = unat dl - unat now" using False by (simp add: unat_sub)
    then have s: "slept [SysSleep (timespec_of_ns (dl - now))] = unat dl - unat now" by (simp add: slept_def)
    have t2: "fe_time ?w2 = fe_time w1 + (unat dl - unat now)" "fe_lats ?w2 = fe_lats w1" "fe_ok ?w2" "fe_slots ?w2 = fe_slots w1"
      using r s by (simp_all add: fe_does_def fe_ok_def)
    have "unat now < unat dl" using False by (simp add: word_le_nat_alt)
    then have "fe_time ?w2 \<le> unat dl" using t2(1) r by linarith
    then have h2: "fe_horizon ?w2 \<le> unat dl + sum_list (fe_lats w)" using lats by (simp add: fe_horizon_def t2(2))
    have m: "max (fe_horizon ?w2) (unat dl + sum_list (fe_lats ?w2)) \<le> max (fe_horizon w) (unat dl + sum_list (fe_lats w))"
      using h2 lats by (auto simp: t2(2))
    then have "max (fe_horizon ?w2) (unat dl + sum_list (fe_lats ?w2)) < 2 ^ 62" using "1.prems"(3) by linarith
    from "1.IH" [OF now refl False rec t2(3) this] m t2 r show ?thesis by auto
  qed
qed

text \<open>What holds after \<open>n\<close> ticks.\<close>

definition fe_inv :: "int \<Rightarrow> nat \<Rightarrow> nat \<Rightarrow> nat \<Rightarrow> nat \<Rightarrow> fe_vars \<times> fe_world \<Rightarrow> bool" where
  "fe_inv io_fd S L H n = (\<lambda>(v, w). fe_ok w \<and> fe_horizon w \<le> H + n * 15000000 \<and> sum_list (fe_lats w) \<le> L
     \<and> (case policy_of (fe_slots w) io_fd of None \<Rightarrow> False | Some p \<Rightarrow> plain_policy 15000000 p)
     \<and> S + n * 100000000 < unat (fe_prev v) + 2000000 \<and> unat (fe_prev v) < fe_time w + 2000000
     \<and> int (unat (fe_prev v)) - int S \<le> fe_sum v * 1000000 + int n * 999999
     \<and> int n * fe_min v \<le> fe_sum v \<and> fe_sum v \<le> int n * fe_max v \<and> 0 \<le> fe_sum v)"

text \<open>A tick, taken apart.\<close>

lemma fe_tick_parts:
  assumes "fe_tick kern io_fd start i (v, w) = Some (v', w')"
    and "policy_of (fe_slots w) io_fd = Some p" and "plain_policy 15000000 p"
  obtains ss p' w2 now where
    "fe_wait (start + of_nat i * of_nat TARGET_MS * 1000000)
       (fe_does [SysSleep (timespec_of_ns 15000000), SysFsync io_fd] (w\<lparr>fe_slots := ss\<rparr>)) = Some w2"
    and "fe_now w2 = Some (now, w')" and "policy_of ss io_fd = Some p'" and "plain_policy 15000000 p'"
    and "v' = (let dt = int (unat ((now - fe_prev v) div 1000000)) in
      \<lparr>fe_min = (if dt < fe_min v then dt else fe_min v), fe_max = (if dt > fe_max v then dt else fe_max v),
       fe_sum = fe_sum v + dt, fe_prev = now\<rparr>)"
proof -
  obtain n e ss where wr: "chaos_io_write (fe_slots w) io_fd 64 (kern i) = (n, e, ss)"
    by (cases "chaos_io_write (fe_slots w) io_fd 64 (kern i)")
  obtain p' where p': "policy_of ss io_fd = Some p'" "plain_policy 15000000 p'"
    using chaos_io_write_policy [OF assms(2) wr] assms(3) by (auto simp: plain_policy_def)
  have fs: "chaos_io_fsync ss io_fd = [SysSleep (timespec_of_ns 15000000), SysFsync io_fd]"
    by (rule fsync_of_plain [OF p']) simp
  from assms(1) obtain w2 now where
    "fe_wait (start + of_nat i * of_nat TARGET_MS * 1000000)
       (fe_does [SysSleep (timespec_of_ns 15000000), SysFsync io_fd] (w\<lparr>fe_slots := ss\<rparr>)) = Some w2"
    "fe_now w2 = Some (now, w')"
    "v' = (let dt = int (unat ((now - fe_prev v) div 1000000)) in
      \<lparr>fe_min = (if dt < fe_min v then dt else fe_min v), fe_max = (if dt > fe_max v then dt else fe_max v),
       fe_sum = fe_sum v + dt, fe_prev = now\<rparr>)"
    by (auto simp: fe_tick_def wr fs Let_def bind_eq_Some_conv)
  with p' show thesis by (intro that)
qed

lemma fe_now_shrink: "fe_now w = Some (v, w') \<Longrightarrow> sum_list (fe_lats w') \<le> sum_list (fe_lats w)"
  by (auto simp: fe_now_def split: list.splits prod.splits)

lemma fe_lats_shrink: "fe_wait dl w = Some w' \<Longrightarrow> sum_list (fe_lats w') \<le> sum_list (fe_lats w)"
proof (induction dl w rule: fe_wait.induct)
  case (1 dl w)
  from "1.prems" obtain now w1 where now: "fe_now w = Some (now, w1)"
    by (subst (asm) fe_wait.simps) (auto split: option.splits)
  show ?case
  proof (cases "dl \<le> now")
    case True
    with "1.prems" now fe_now_shrink [OF now] show ?thesis by (subst (asm) fe_wait.simps) simp
  next
    case False
    with "1.prems" now have "fe_wait dl (fe_does [SysSleep (timespec_of_ns (dl - now))] w1) = Some w'"
      by (subst (asm) fe_wait.simps) simp
    from "1.IH" [OF now refl False this] fe_now_shrink [OF now] show ?thesis by (simp add: fe_does_def)
  qed
qed

lemma fe_deadline:
  assumes "unat (start :: u64) + 2000000000 < 2 ^ 62" and "i \<le> 20"
  shows "unat (start + of_nat i * of_nat TARGET_MS * 1000000) = unat start + i * 100000000"
proof -
  have "(of_nat i * of_nat TARGET_MS * 1000000 :: u64) = of_nat (i * 100000000)"
    by (simp add: TARGET_MS_def)
  moreover have "unat (of_nat (i * 100000000) :: u64) = i * 100000000"
    using assms(2) by (simp only: unat_of_nat) simp
  moreover have "unat start + i * 100000000 < 2 ^ 64" using assms by simp
  ultimately show ?thesis by (simp only: unat_word_ariths) simp
qed

lemma scaled_min_max:
  fixes s d mn mx :: int
  assumes "int n * mn \<le> s" and "s \<le> int n * mx"
  shows "int (Suc n) * (if d < mn then d else mn) \<le> s + d" and "s + d \<le> int (Suc n) * (if d > mx then d else mx)"
proof -
  have "int n * (if d < mn then d else mn) \<le> int n * mn" by (intro mult_left_mono) auto
  with assms(1) show "int (Suc n) * (if d < mn then d else mn) \<le> s + d" by (auto simp: distrib_right)
  have "int n * mx \<le> int n * (if d > mx then d else mx)" by (intro mult_left_mono) auto
  with assms(2) show "s + d \<le> int (Suc n) * (if d > mx then d else mx)" by (auto simp: distrib_right)
qed

lemma fe_sum_step:
  fixes N P S :: nat
  assumes "P < N" and "N - P \<le> 1000000 * d + 999999" and "int P - int S \<le> s * 1000000 + int n * 999999"
  shows "int N - int S \<le> (s + int d) * 1000000 + int (Suc n) * 999999"
  using assms by (simp add: distrib_right)

text \<open>The length of a tick in whole milliseconds loses less than one of them.\<close>

lemma fe_tick_length:
  fixes P now :: u64
  assumes "unat P < unat now" and "int (unat P) - int S \<le> s * 1000000 + int n * 999999"
  obtains d :: nat where "int (unat ((now - P) div 1000000)) = int d"
    and "int (unat now) - int S \<le> (s + int d) * 1000000 + int (Suc n) * 999999"
proof
  define d where "d = (unat now - unat P) div 1000000"
  have "unat (now - P) = unat now - unat P" using assms(1) by (simp add: unat_sub word_le_nat_alt)
  then show "int (unat ((now - P) div 1000000)) = int d" by (simp add: unat_div d_def)
  have "unat now - unat P = 1000000 * d + (unat now - unat P) mod 1000000" by (simp add: d_def)
  moreover have "(unat now - unat P) mod 1000000 \<le> 999999"
    using mod_less_divisor [of 1000000 "unat now - unat P"] by linarith
  ultimately have "unat now - unat P \<le> 1000000 * d + 999999" by linarith
  from fe_sum_step [OF assms(1) this assms(2)]
  show "int (unat now) - int S \<le> (s + int d) * 1000000 + int (Suc n) * 999999" .
qed

text \<open>The deadline of a tick and the horizon of the time before it stay inside the bounds.\<close>

lemma fe_deadline_horizon:
  assumes "n < 20" and "unat start + 2000000000 + L \<le> H" and "H + 300000000 < 2 ^ 62"
  shows "unat (start + of_nat (Suc n) * of_nat TARGET_MS * 1000000 :: u64) = unat start + Suc n * 100000000"
    and "fe_horizon w \<le> H + Suc n * 15000000 \<Longrightarrow> sum_list (fe_lats w) \<le> L \<Longrightarrow>
      max (fe_horizon w) (unat (start + of_nat (Suc n) * of_nat TARGET_MS * 1000000 :: u64) + sum_list (fe_lats w))
        \<le> H + Suc n * 15000000"
    and "H + Suc n * 15000000 < 2 ^ 62"
proof -
  have "Suc n * 15000000 \<le> 300000000" and two: "Suc n * 100000000 \<le> 2000000000" using assms(1) by simp_all
  then show "H + Suc n * 15000000 < 2 ^ 62" using assms(3) by linarith
  show dl: "unat (start + of_nat (Suc n) * of_nat TARGET_MS * 1000000 :: u64) = unat start + Suc n * 100000000"
    by (rule fe_deadline) (use assms in simp_all)
  show "max (fe_horizon w) (unat (start + of_nat (Suc n) * of_nat TARGET_MS * 1000000 :: u64) + sum_list (fe_lats w))
      \<le> H + Suc n * 15000000"
    if "fe_horizon w \<le> H + Suc n * 15000000" "sum_list (fe_lats w) \<le> L"
    unfolding dl by (rule max.boundedI [OF that(1)]) (use that(2) two assms(2) in linarith)
qed

lemma fe_inv_tick:
  assumes "fe_inv io_fd (unat start) L H n (v, w)" and "n < 20"
    and "unat start + 2000000000 + L \<le> H" and "H + 300000000 < 2 ^ 62"
    and "fe_tick kern io_fd start (Suc n) (v, w) = Some (v', w')"
  shows "fe_inv io_fd (unat start) L H (Suc n) (v', w')"
proof -
  let ?S = "unat start" and ?dl = "start + of_nat (Suc n) * of_nat TARGET_MS * 1000000"
  from assms(1) obtain p where inv: "fe_ok w" "fe_horizon w \<le> H + n * 15000000" "sum_list (fe_lats w) \<le> L"
    "policy_of (fe_slots w) io_fd = Some p" "plain_policy 15000000 p"
    "unat (fe_prev v) < fe_time w + 2000000" "int (unat (fe_prev v)) - int ?S \<le> fe_sum v * 1000000 + int n * 999999"
    "int n * fe_min v \<le> fe_sum v" "fe_sum v \<le> int n * fe_max v" "0 \<le> fe_sum v"
    by (auto simp: fe_inv_def split: option.splits)
  from fe_tick_parts [OF assms(5) inv(4,5)] obtain ss p' w2 now where
    wait: "fe_wait ?dl (fe_does [SysSleep (timespec_of_ns 15000000), SysFsync io_fd] (w\<lparr>fe_slots := ss\<rparr>)) = Some w2"
    and now: "fe_now w2 = Some (now, w')" and p': "policy_of ss io_fd = Some p'" "plain_policy 15000000 p'"
    and v': "v' = (let dt = int (unat ((now - fe_prev v) div 1000000)) in
      \<lparr>fe_min = (if dt < fe_min v then dt else fe_min v), fe_max = (if dt > fe_max v then dt else fe_max v),
       fe_sum = fe_sum v + dt, fe_prev = now\<rparr>)" .
  let ?w1 = "fe_does [SysSleep (timespec_of_ns 15000000), SysFsync io_fd] (w\<lparr>fe_slots := ss\<rparr>)"
  have w1: "fe_ok ?w1" "fe_time ?w1 = fe_time w + 15000000" "fe_lats ?w1 = fe_lats w" "fe_slots ?w1 = ss"
    using inv(1) by (simp_all add: fe_does_def fe_ok_def slept_def)
  have h1: "fe_horizon ?w1 \<le> H + Suc n * 15000000" using inv(2) w1(2,3) by (simp add: fe_horizon_def)
  note dl = fe_deadline_horizon(1) [OF assms(2-4)]
  note hh = fe_deadline_horizon(2) [OF assms(2-4) h1 inv(3) [folded w1(3)]]
  note lim = fe_deadline_horizon(3) [OF assms(2-4)]
  note wt = fe_wait_until [OF wait w1(1) le_less_trans [OF hh lim]]
  have h2: "fe_horizon w2 \<le> H + Suc n * 15000000" using wt hh by linarith
  note nw = fe_now_reading [OF now _ le_less_trans [OF h2 lim]]
  have n1: "fe_time w' \<le> unat now" "unat now < fe_time w' + 2000000" "fe_ok w'" "fe_time w2 \<le> fe_time w'"
    "fe_horizon w' = fe_horizon w2" "fe_slots w' = ss"
    using nw wt w1(4) by auto
  have lats: "sum_list (fe_lats w') \<le> L"
    using fe_lats_shrink [OF wait] fe_now_shrink [OF now] inv(3) w1(3) by simp
  have prev: "unat (fe_prev v) < unat now" using inv(6) w1(2) wt n1(1,4) by linarith
  from fe_tick_length [OF prev inv(7)] obtain d :: nat where
    dt: "int (unat ((now - fe_prev v) div 1000000)) = int d"
    and sum: "int (unat now) - int ?S \<le> (fe_sum v + int d) * 1000000 + int (Suc n) * 999999" .
  have late: "?S + Suc n * 100000000 < unat now + 2000000" using wt dl n1(1,4) by linarith
  show ?thesis
    unfolding fe_inv_def v' dt Let_def
    using n1(2,3,5,6) h2 lats p' late sum scaled_min_max [OF inv(8,9), of "int d"] inv(10) by simp
qed

lemma fe_inv_ticks:
  assumes "fe_inv io_fd (unat start) L H n vw" and "n + m \<le> 20"
    and "unat start + 2000000000 + L \<le> H" and "H + 300000000 < 2 ^ 62"
    and "fe_ticks kern io_fd start [Suc n..<Suc (n + m)] vw = Some vw'"
  shows "fe_inv io_fd (unat start) L H (n + m) vw'"
  using assms(1,2,5)
proof (induction m arbitrary: n vw)
  case 0
  then show ?case by simp
next
  case (Suc m)
  obtain v w where vw: "vw = (v, w)" by (cases vw)
  have "[Suc n..<Suc (n + Suc m)] = Suc n # [Suc (Suc n)..<Suc (Suc n + m)]" by (simp add: upt_conv_Cons)
  with Suc.prems(3) obtain vw1 where
    t: "fe_tick kern io_fd start (Suc n) (v, w) = Some vw1" "fe_ticks kern io_fd start [Suc (Suc n)..<Suc (Suc n + m)] vw1 = Some vw'"
    by (auto simp: vw bind_eq_Some_conv)
  obtain v1 w1 where vw1: "vw1 = (v1, w1)" by (cases vw1)
  have "fe_inv io_fd (unat start) L H (Suc n) vw1"
    using fe_inv_tick [OF Suc.prems(1) [unfolded vw] _ assms(3,4) t(1) [unfolded vw1]] Suc.prems(2) by (simp add: vw1)
  from Suc.IH [OF this _ t(2)] Suc.prems(2) show ?case by simp
qed

text \<open>The mean of twenty ticks.\<close>

lemma mean_between:
  fixes s mn mx :: int
  assumes "20 * mn \<le> s" and "s \<le> 20 * mx" and "1979 \<le> s"
  shows "mn \<le> s sdiv 20" and "s sdiv 20 \<le> mx" and "98 \<le> s sdiv 20"
proof -
  have "s sdiv 20 = s div 20" using assms(3) by (simp add: signed_divide_int_def sgn_if)
  with assms show "mn \<le> s sdiv 20" "s sdiv 20 \<le> mx" "98 \<le> s sdiv 20" by linarith+
qed

text \<open>
  C35: the cadence holds on average, not per tick. Whatever delays the kernel adds and whatever the
  jitter draws, as long as sleeps last at least as long as asked for and time stays below
  \<open>2 ^ 60\<close> ns: when the run ends, the mean tick it reports is at least 98 ms (two below the
  target, for the jitter and the rounding of every tick), and lies between the minimum and the
  maximum it reports.
\<close>

theorem flaky_mean_tick:
  assumes "lw_sp1 w = Some (u1, p1)" and "lw_sp2 w = Some (p2, u2)" and "lw_mem w" and "lw_t1 w" and "lw_t2 w"
    and "0 \<le> mk" and "g_clock_skew_ns clk = 0" and "t + sum_list lats < 2 ^ 60"
    and "fe_run seed mk tmpl w kern clk t lats = (Some r, acts)"
  shows "\<exists>evs mn mean mx. r = (evs, Returns 0) \<and> length evs = 9
    \<and> evs ! 3 = ev_actual ''max_tick_ms'' (of_int mx) \<and> evs ! 4 = ev_gauge ''min_tick_ms'' (of_int mn)
    \<and> evs ! 6 = ev_gauge ''mean_tick_ms'' (of_int mean) \<and> mn \<le> mean \<and> mean \<le> mx \<and> 98 \<le> mean"
proof -
  from policy_of_fresh [OF assms(6)] obtain ss acts0 p where
    op: "chaos_io_open mk tmpl init_slots = (mk, None, ss, acts0)"
    and p: "policy_of (chaos_io_set_fsync_delay ss mk 15000000) mk = Some p" "plain_policy 15000000 p" .
  let ?clk = "chaos_clock_jitter_set 2000000 clk"
  let ?w0 = "\<lparr>fe_time = t, fe_lats = lats, fe_clk = ?clk, fe_slots = chaos_io_set_fsync_delay ss mk 15000000, fe_acts = []\<rparr>"
  from assms(9) obtain start fw v fw' where
    st: "fe_now ?w0 = Some (start, fw)"
    and tk: "fe_ticks kern mk start [1..<21] (\<lparr>fe_min = 2 ^ 62, fe_max = 0, fe_sum = 0, fe_prev = start\<rparr>, fw) = Some (v, fw')"
    and r: "\<exists>evs. r = (evs, Returns 0) \<and> length evs = 9
      \<and> evs ! 3 = ev_actual ''max_tick_ms'' (of_int (fe_max v)) \<and> evs ! 4 = ev_gauge ''min_tick_ms'' (of_int (fe_min v))
      \<and> evs ! 6 = ev_gauge ''mean_tick_ms'' (of_int (fe_sum v sdiv 20))"
    using assms(6)
    by (auto simp: fe_run_def open_link_ok [OF assms(1-5)] op TICKS_def Let_def bind_eq_Some_conv
        simp del: upt_rec_numeral split: option.splits)
  have ok: "fe_ok ?w0" using assms(7) by (simp add: fe_ok_def chaos_clock_jitter_set_def)
  have h0: "fe_horizon ?w0 = t + sum_list lats" by (simp add: fe_horizon_def)
  then have "fe_horizon ?w0 < 2 ^ 62" using assms(8) by simp
  note nw = fe_now_reading [OF st ok this]
  define H where "H = unat start + 2000000000 + t + sum_list lats"
  have "fe_time fw \<le> t + sum_list lats" using nw h0 by (simp add: fe_horizon_def)
  then have s: "unat start < 2 ^ 60 + 2000000" using nw assms(8) by linarith
  have H: "unat start + 2000000000 + sum_list lats \<le> H" "H + 300000000 < 2 ^ 62"
    using s assms(8) by (simp_all add: H_def)
  have "fe_inv mk (unat start) (sum_list lats) H 0 (\<lparr>fe_min = 2 ^ 62, fe_max = 0, fe_sum = 0, fe_prev = start\<rparr>, fw)"
    using nw h0 p fe_now_shrink [OF st] by (simp add: fe_inv_def H_def)
  from fe_inv_ticks [OF this, of 20 kern] H tk
  have "fe_inv mk (unat start) (sum_list lats) H 20 (v, fw')" by (simp del: upt_rec_numeral)
  then have b: "20 * fe_min v \<le> fe_sum v" "fe_sum v \<le> 20 * fe_max v"
    and late: "unat start + 2000000000 < unat (fe_prev v) + 2000000"
    and sum: "int (unat (fe_prev v)) - int (unat start) \<le> fe_sum v * 1000000 + 19999980"
    by (auto simp: fe_inv_def)
  have "int (unat start) + 2000000000 < int (unat (fe_prev v)) + 2000000" using late by linarith
  then have "1979 \<le> fe_sum v" using sum by linarith
  from mean_between [OF b this] r show ?thesis by blast
qed

section \<open>The heartbeat comes to an end\<close>

text \<open>Latencies of at least the jitter: then no deadline needs more than two looks at the clock.\<close>

definition slow_lats :: "fe_world \<Rightarrow> bool" where
  "slow_lats w \<longleftrightarrow> list_all (\<lambda>l. 2000000 \<le> l) (fe_lats w)"

lemma fe_now_returns:
  assumes "fe_lats w \<noteq> []" and "slow_lats w"
  obtains v w' where "fe_now w = Some (v, w')" and "slow_lats w'" and "length (fe_lats w) = Suc (length (fe_lats w'))"
    and "fe_time w + 2000000 \<le> fe_time w'"
proof -
  obtain l ls where l: "fe_lats w = l # ls" using assms(1) by (cases "fe_lats w") auto
  obtain v clk where c: "chaos_clock_now_ns (timespec_of_ns (of_nat (fe_time w + l))) (fe_clk w) = (v, clk)"
    by (cases "chaos_clock_now_ns (timespec_of_ns (of_nat (fe_time w + l))) (fe_clk w)")
  have "fe_now w = Some (v, w\<lparr>fe_time := fe_time w + l, fe_lats := ls, fe_clk := clk\<rparr>)"
    using l c by (simp add: fe_now_def)
  then show thesis by (rule that) (use assms(2) l in \<open>simp_all add: slow_lats_def\<close>)
qed

lemma fe_wait_returns:
  assumes "fe_ok w" and "slow_lats w" and "2 \<le> length (fe_lats w)"
    and "max (fe_horizon w) (unat dl + sum_list (fe_lats w)) < 2 ^ 62"
  shows "\<exists>w'. fe_wait dl w = Some w' \<and> slow_lats w' \<and> length (fe_lats w) \<le> length (fe_lats w') + 2"
proof -
  have "fe_lats w \<noteq> []" using assms(3) by auto
  from fe_now_returns [OF this assms(2)] obtain now w1 where
    now: "fe_now w = Some (now, w1)" "slow_lats w1" "length (fe_lats w) = Suc (length (fe_lats w1))" .
  have r: "fe_time w1 \<le> unat now" "unat now < fe_time w1 + 2000000" "fe_ok w1"
    using fe_now_reading [OF now(1) assms(1)] assms(4) by simp_all
  show ?thesis
  proof (cases "dl \<le> now")
    case True
    with now show ?thesis by (intro exI [of _ w1]) (subst fe_wait.simps, simp)
  next
    case False
    let ?w2 = "fe_does [SysSleep (timespec_of_ns (dl - now))] w1"
    have lt: "unat now < unat dl" using False by (simp add: word_le_nat_alt)
    have "slept [SysSleep (timespec_of_ns (dl - now))] = unat dl - unat now"
      using False by (simp add: slept_def unat_sub)
    then have w2: "fe_time ?w2 = fe_time w1 + (unat dl - unat now)" "fe_lats ?w2 = fe_lats w1" "fe_ok ?w2" "slow_lats ?w2"
      using r now(2) by (simp_all add: fe_does_def fe_ok_def slow_lats_def)
    have "fe_lats ?w2 \<noteq> []" using now(3) assms(3) w2(2) by auto
    from fe_now_returns [OF this w2(4)] obtain now2 w3 where
      n2: "fe_now ?w2 = Some (now2, w3)" "slow_lats w3" "length (fe_lats ?w2) = Suc (length (fe_lats w3))"
        "fe_time ?w2 + 2000000 \<le> fe_time w3" .
    have "fe_time ?w2 \<le> unat dl" using w2(1) r(1) lt by linarith
    then have "fe_horizon ?w2 < 2 ^ 62"
      using assms(4) fe_now_shrink [OF now(1)] by (simp add: fe_horizon_def w2(2))
    from fe_now_reading [OF n2(1) w2(3) this] have "fe_time w3 \<le> unat now2" by simp
    then have "dl \<le> now2" using n2(4) w2(1) r lt by (simp add: word_le_nat_alt)
    then have "fe_wait dl ?w2 = Some w3" using n2(1) by (subst fe_wait.simps) simp
    with now False have "fe_wait dl w = Some w3" by (subst fe_wait.simps) simp
    with n2(2,3) now(3) w2(2) show ?thesis by auto
  qed
qed

lemma fe_tick_returns:
  assumes "fe_inv io_fd (unat start) L H n (v, w)" and "n < 20"
    and "unat start + 2000000000 + L \<le> H" and "H + 300000000 < 2 ^ 62"
    and "slow_lats w" and "3 \<le> length (fe_lats w)"
  shows "\<exists>v' w'. fe_tick kern io_fd start (Suc n) (v, w) = Some (v', w') \<and> slow_lats w'
    \<and> length (fe_lats w) \<le> length (fe_lats w') + 3"
proof -
  let ?dl = "start + of_nat (Suc n) * of_nat TARGET_MS * 1000000"
  from assms(1) obtain p where inv: "fe_ok w" "fe_horizon w \<le> H + n * 15000000" "sum_list (fe_lats w) \<le> L"
    "policy_of (fe_slots w) io_fd = Some p" "plain_policy 15000000 p"
    by (auto simp: fe_inv_def split: option.splits)
  obtain c e ss where wr: "chaos_io_write (fe_slots w) io_fd 64 (kern (Suc n)) = (c, e, ss)"
    by (cases "chaos_io_write (fe_slots w) io_fd 64 (kern (Suc n))")
  obtain p' where p': "policy_of ss io_fd = Some p'" "plain_policy 15000000 p'"
    using chaos_io_write_policy [OF inv(4) wr] inv(5) by (auto simp: plain_policy_def)
  have fs: "chaos_io_fsync ss io_fd = [SysSleep (timespec_of_ns 15000000), SysFsync io_fd]"
    by (rule fsync_of_plain [OF p']) simp
  let ?w1 = "fe_does [SysSleep (timespec_of_ns 15000000), SysFsync io_fd] (w\<lparr>fe_slots := ss\<rparr>)"
  have w1: "fe_ok ?w1" "fe_time ?w1 = fe_time w + 15000000" "fe_lats ?w1 = fe_lats w" "slow_lats ?w1"
    using inv(1) assms(5) by (simp_all add: fe_does_def fe_ok_def slept_def slow_lats_def)
  have h1: "fe_horizon ?w1 \<le> H + Suc n * 15000000" using inv(2) w1(2,3) by (simp add: fe_horizon_def)
  note h = le_less_trans [OF fe_deadline_horizon(2) [OF assms(2-4) h1 inv(3) [folded w1(3)]]
      fe_deadline_horizon(3) [OF assms(2-4)]]
  from fe_wait_returns [OF w1(1,4) _ h] assms(6) w1(3) obtain w2 where
    w2: "fe_wait ?dl ?w1 = Some w2" "slow_lats w2" "length (fe_lats w) \<le> length (fe_lats w2) + 2"
    by auto
  then have "fe_lats w2 \<noteq> []" using assms(6) by auto
  from fe_now_returns [OF this w2(2)] obtain now w3 where
    "fe_now w2 = Some (now, w3)" "slow_lats w3" "length (fe_lats w2) = Suc (length (fe_lats w3))" .
  with w2 show ?thesis by (simp add: fe_tick_def wr fs Let_def del: of_nat_Suc)
qed

lemma fe_ticks_return:
  assumes "fe_inv io_fd (unat start) L H n vw" and "n + m \<le> 20"
    and "unat start + 2000000000 + L \<le> H" and "H + 300000000 < 2 ^ 62"
    and "slow_lats (snd vw)" and "3 * m \<le> length (fe_lats (snd vw))"
  shows "fe_ticks kern io_fd start [Suc n..<Suc (n + m)] vw \<noteq> None"
  using assms(1,2,5,6)
proof (induction m arbitrary: n vw)
  case 0
  then show ?case by simp
next
  case (Suc m)
  obtain v w where vw: "vw = (v, w)" by (cases vw)
  have "n < 20" "3 \<le> length (fe_lats w)" "slow_lats w" using Suc.prems vw by simp_all
  from fe_tick_returns [OF Suc.prems(1) [unfolded vw] this(1) assms(3,4) this(3,2), of kern] obtain v' w' where
    t: "fe_tick kern io_fd start (Suc n) (v, w) = Some (v', w')" "slow_lats w'" "length (fe_lats w) \<le> length (fe_lats w') + 3"
    by auto
  have inv: "fe_inv io_fd (unat start) L H (Suc n) (v', w')"
    by (rule fe_inv_tick [OF Suc.prems(1) [unfolded vw] \<open>n < 20\<close> assms(3,4) t(1)])
  have up: "[Suc n..<Suc (n + Suc m)] = Suc n # [Suc (Suc n)..<Suc (Suc n + m)]" by (simp add: upt_conv_Cons)
  from Suc.IH [OF inv] Suc.prems(2,4) t vw show ?case unfolding up by simp
qed

lemma flaky_returns:
  assumes "lw_sp1 w = Some (u1, p1)" and "lw_sp2 w = Some (p2, u2)" and "lw_mem w" and "lw_t1 w" and "lw_t2 w"
    and "0 \<le> mk" and "g_clock_skew_ns clk = 0" and "t + sum_list lats < 2 ^ 60"
    and "list_all (\<lambda>l. 2000000 \<le> l) lats" and "61 \<le> length lats"
  shows "fst (fe_run seed mk tmpl w kern clk t lats) \<noteq> None"
proof -
  from policy_of_fresh [OF assms(6)] obtain ss acts0 p where
    op: "chaos_io_open mk tmpl init_slots = (mk, None, ss, acts0)"
    and p: "policy_of (chaos_io_set_fsync_delay ss mk 15000000) mk = Some p" "plain_policy 15000000 p" .
  let ?clk = "chaos_clock_jitter_set 2000000 clk"
  let ?w0 = "\<lparr>fe_time = t, fe_lats = lats, fe_clk = ?clk, fe_slots = chaos_io_set_fsync_delay ss mk 15000000, fe_acts = []\<rparr>"
  have ok: "fe_ok ?w0" using assms(7) by (simp add: fe_ok_def chaos_clock_jitter_set_def)
  have h0: "fe_horizon ?w0 = t + sum_list lats" by (simp add: fe_horizon_def)
  have "fe_lats ?w0 \<noteq> []" "slow_lats ?w0" using assms(9,10) by (auto simp: slow_lats_def)
  from fe_now_returns [OF this] obtain start fw where st: "fe_now ?w0 = Some (start, fw)"
    and sl: "slow_lats fw" and len: "length (fe_lats ?w0) = Suc (length (fe_lats fw))" and "fe_time ?w0 + 2000000 \<le> fe_time fw" .
  have fw: "slow_lats fw" "length lats = Suc (length (fe_lats fw))" using sl len by simp_all
  have "fe_horizon ?w0 < 2 ^ 62" using assms(8) h0 by simp
  note nw = fe_now_reading [OF st ok this]
  define H where "H = unat start + 2000000000 + t + sum_list lats"
  have "fe_time fw \<le> t + sum_list lats" using nw h0 by (simp add: fe_horizon_def)
  then have s: "unat start < 2 ^ 60 + 2000000" using nw assms(8) by linarith
  have H: "unat start + 2000000000 + sum_list lats \<le> H" "H + 300000000 < 2 ^ 62"
    using s assms(8) by (simp_all add: H_def)
  have "fe_inv mk (unat start) (sum_list lats) H 0 (\<lparr>fe_min = 2 ^ 62, fe_max = 0, fe_sum = 0, fe_prev = start\<rparr>, fw)"
    using nw h0 p fe_now_shrink [OF st] by (simp add: fe_inv_def H_def)
  from fe_ticks_return [OF this _ H, of 20 kern] fw assms(10)
  obtain res where "fe_ticks kern mk start [1..<21] (\<lparr>fe_min = 2 ^ 62, fe_max = 0, fe_sum = 0, fe_prev = start\<rparr>, fw) = Some res"
    by (auto simp del: upt_rec_numeral)
  then show ?thesis
    using assms(6) st
    by (auto simp: fe_run_def open_link_ok [OF assms(1-5)] op TICKS_def Let_def simp del: upt_rec_numeral split: prod.splits)
qed

theorem flaky_mean_tick_witness:
  "\<exists>evs mn mean mx. fst (fe_run 42 7 (bytes ''/tmp/heartbeat'') demo_link (\<lambda>i. Moves 64) init_clock 1000 (replicate 61 2000000))
      = Some (evs, Returns 0)
    \<and> evs ! 6 = ev_gauge ''mean_tick_ms'' (of_int mean) \<and> mn \<le> mean \<and> mean \<le> mx \<and> 98 \<le> mean"
proof -
  have ls: "(1000::nat) + sum_list (replicate 61 2000000) < 2 ^ 60" "list_all (\<lambda>l. (2000000::nat) \<le> l) (replicate 61 2000000)"
    by (simp_all add: list_all_iff sum_list_replicate)
  have link: "lw_sp1 demo_link = Some (3, 4)" "lw_sp2 demo_link = Some (5, 6)" "lw_mem demo_link" "lw_t1 demo_link" "lw_t2 demo_link"
    by (simp_all add: demo_link_def)
  have skew: "g_clock_skew_ns init_clock = 0" by (simp add: init_clock_def)
  obtain r acts where run: "fe_run 42 7 (bytes ''/tmp/heartbeat'') demo_link (\<lambda>i. Moves 64) init_clock 1000 (replicate 61 2000000) = (Some r, acts)"
    using flaky_returns [OF link _ skew ls, of 7 42 "bytes ''/tmp/heartbeat''" "\<lambda>i. Moves 64"]
    by (cases "fe_run 42 7 (bytes ''/tmp/heartbeat'') demo_link (\<lambda>i. Moves 64) init_clock 1000 (replicate 61 2000000)") auto
  from flaky_mean_tick [OF link _ skew ls(1) run] run show ?thesis by auto
qed

end
