(* ===== verification/Scen_Herd.thy ===== *)
theory Scen_Herd
  imports Scen_Compound
begin

text \<open>
  The scenario of \<open>src/scenarios/compound/thundering_herd.c\<close> as a step relation over virtual
  time: eight workers queue for a mutex whose critical section is a slow \<open>fsync\<close>. Any time may
  pass before a thread makes its next access, in any order; a sleep lasts at least as long as asked
  for. The sections under \<open>start_mu\<close> and \<open>tot_mu\<close> touch only what these guard and are single
  steps, up to the wait on the condition variable, which leaves \<open>start_mu\<close>: who waits there is
  \<open>Parked\<close> and stays so until a broadcast or a wakeup for no reason. Totals that stay far below
  \<open>2 ^ 63\<close> are integers.
\<close>

section \<open>State\<close>

definition HERD_WORKERS :: nat where "HERD_WORKERS = 8"
definition HERD_ITERS :: nat where "HERD_ITERS = 6"
definition HERD_FSYNC_DELAY :: u64 where "HERD_FSYNC_DELAY = 30 * 1000000"

text \<open>
  Where \<open>worker_fn\<close> is in its turn \<open>i\<close>, by what it does next, with the readings of the clock
  it has made: \<open>t_before\<close>, \<open>t_acquired\<close>, \<open>t_done\<close>. \<open>AtGate\<close> is about to look at \<open>started\<close>
  with \<open>start_mu\<close> held, \<open>Parked\<close> is inside \<open>pthread_cond_wait\<close>. \<open>Asleep\<close> holds the time at which its
  sleep is over. A worker that could not be made is \<open>NotMade\<close>.
\<close>

datatype herd_worker =
    AtGate
  | Parked
  | Begins nat
  | Queued nat u64
  | Entered nat u64
  | Writes nat u64 u64
  | Flushes nat u64 u64
  | Asleep nat u64 u64 nat
  | Leaves nat u64 u64 u64
  | Adds nat u64 u64 u64
  | Finished
  | NotMade

datatype herd_main = Spawning nat | Settled | Aiming u64 | Joining nat u64 | Over int

record herd_state =
  hd_time :: nat
  hd_clk :: clock_state
  hd_slots :: slots
  hd_mu :: "nat option"
  hd_started :: bool
  total_wait :: int
  total_work :: int
  hd_workers :: "herd_worker list"
  hd_pc :: herd_main
  hd_out :: "pg_event_t list"

definition herd_opening :: "pg_event_t list" where
  "herd_opening =
     [ev_phase ''8 workers, 6 iterations each, all racing for one mutex'',
      ev_log (''critical section is a 30ms fsync '' @ [CHR 0xE2, CHR 0x80, CHR 0x94] @ '' pure serial work''),
      ev_expect ''wall_ms_approx'' (of_nat HERD_WORKERS * of_nat HERD_ITERS * 30000000 div 1000000)]"

definition herd_start :: "nat \<Rightarrow> clock_state \<Rightarrow> slots \<Rightarrow> herd_state" where
  "herd_start t clk ss =
     \<lparr>hd_time = t, hd_clk = clk, hd_slots = ss, hd_mu = None, hd_started = False, total_wait = 0, total_work = 0,
      hd_workers = [], hd_pc = Spawning 0, hd_out = herd_opening\<rparr>"

text \<open>The end of \<open>run\<close>: \<open>dt\<close> is the time since the starting gun.\<close>

definition herd_report :: "u64 \<Rightarrow> int \<Rightarrow> int \<Rightarrow> pg_event_t list" where
  "herd_report dt wait work =
     (let wall_ms = int (unat (dt div 1000000));
          total_ops = int HERD_WORKERS * int HERD_ITERS;
          avg_wait_ms = (wait sdiv total_ops) sdiv 1000000;
          avg_work_ms = (work sdiv total_ops) sdiv 1000000
      in [ev_actual ''wall_ms_approx'' (of_int wall_ms),
          ev_gauge ''avg_wait_ms'' (of_int avg_wait_ms),
          ev_gauge ''avg_work_ms'' (of_int avg_work_ms),
          ev_count ''total_ops'' (of_int total_ops),
          ev_log (''wall='' @ show_int wall_ms @ '' ms, avg wait='' @ show_int avg_wait_ms @ '' ms, avg work=''
            @ show_int avg_work_ms @ '' ms (fsync delay was '' @ show_nat (unat (HERD_FSYNC_DELAY div 1000000)) @ '' ms)''),
          ev_log (show_nat HERD_WORKERS @ '' workers '' @ [CHR 0xC3, CHR 0x97] @ '' '' @ show_nat HERD_ITERS
            @ '' ops '' @ [CHR 0xE2, CHR 0x86, CHR 0x92] @ '' 48 operations queued through one 30ms critical section.'')])"

section \<open>The steps\<close>

text \<open>A reading of the clock at the present time.\<close>

definition hd_now :: "herd_state \<Rightarrow> u64 \<times> clock_state" where
  "hd_now s = chaos_clock_now_ns (timespec_of_ns (of_nat (hd_time s))) (hd_clk s)"

definition goes :: "nat \<Rightarrow> herd_worker \<Rightarrow> herd_state \<Rightarrow> herd_state" where
  "goes k pc s = s\<lparr>hd_workers := (hd_workers s)[k := pc]\<rparr>"

definition is_at :: "herd_state \<Rightarrow> nat \<Rightarrow> herd_worker \<Rightarrow> bool" where
  "is_at s k pc \<longleftrightarrow> k < length (hd_workers s) \<and> hd_workers s ! k = pc"

text \<open>\<open>pthread_cond_broadcast\<close>: everyone who waits returns to the test of \<open>started\<close>.\<close>

fun woken :: "herd_worker \<Rightarrow> herd_worker" where
  "woken Parked = AtGate"
| "woken pc = pc"

text \<open>\<open>run\<close>, from the loop that spawns the workers to the report.\<close>

inductive main_act :: "herd_state \<Rightarrow> herd_state \<Rightarrow> bool" where
  spawn: "hd_pc s = Spawning i \<Longrightarrow> i < HERD_WORKERS
    \<Longrightarrow> main_act s (s\<lparr>hd_workers := hd_workers s @ [AtGate], hd_pc := Spawning (Suc i)\<rparr>)"
| spawn_fails: "hd_pc s = Spawning i \<Longrightarrow> i < HERD_WORKERS
    \<Longrightarrow> main_act s (s\<lparr>hd_workers := hd_workers s @ [NotMade], hd_pc := Spawning (Suc i)\<rparr>)"
| settle: "hd_pc s = Spawning i \<Longrightarrow> \<not> i < HERD_WORKERS
    \<Longrightarrow> main_act s (s\<lparr>hd_time := hd_time s + 10000 * 1000, hd_pc := Settled\<rparr>)"
| aim: "hd_pc s = Settled \<Longrightarrow> hd_now s = (t0, clk) \<Longrightarrow> main_act s (s\<lparr>hd_clk := clk, hd_pc := Aiming t0\<rparr>)"
| fire: "hd_pc s = Aiming t0 \<Longrightarrow> main_act s (s\<lparr>hd_started := True, hd_workers := map woken (hd_workers s), hd_pc := Joining 0 t0\<rparr>)"
| join: "hd_pc s = Joining j t0 \<Longrightarrow> is_at s j Finished \<or> is_at s j NotMade
    \<Longrightarrow> main_act s (s\<lparr>hd_pc := Joining (Suc j) t0\<rparr>)"
| report: "hd_pc s = Joining j t0 \<Longrightarrow> \<not> j < HERD_WORKERS \<Longrightarrow> hd_now s = (t1, clk)
    \<Longrightarrow> main_act s (s\<lparr>hd_clk := clk, hd_pc := Over 0,
          hd_out := hd_out s @ herd_report (t1 - t0) (total_wait s) (total_work s)\<rparr>)"

text \<open>\<open>worker_fn\<close>, as the worker of index \<open>k\<close>.\<close>

inductive worker_act :: "int \<Rightarrow> nat \<Rightarrow> herd_state \<Rightarrow> herd_state \<Rightarrow> bool" for io_fd k where
  pass_gate: "is_at s k AtGate \<Longrightarrow> hd_started s \<Longrightarrow> worker_act io_fd k s (goes k (Begins 0) s)"
| park: "is_at s k AtGate \<Longrightarrow> \<not> hd_started s \<Longrightarrow> worker_act io_fd k s (goes k Parked s)"
| queue: "is_at s k (Begins i) \<Longrightarrow> i < HERD_ITERS \<Longrightarrow> hd_now s = (t_before, clk)
    \<Longrightarrow> worker_act io_fd k s (goes k (Queued i t_before) (s\<lparr>hd_clk := clk\<rparr>))"
| lock: "is_at s k (Queued i t_before) \<Longrightarrow> hd_mu s = None
    \<Longrightarrow> worker_act io_fd k s (goes k (Entered i t_before) (s\<lparr>hd_mu := Some k\<rparr>))"
| enter: "is_at s k (Entered i t_before) \<Longrightarrow> hd_now s = (t_acquired, clk)
    \<Longrightarrow> worker_act io_fd k s (goes k (Writes i t_before t_acquired) (s\<lparr>hd_clk := clk\<rparr>))"
| put: "is_at s k (Writes i t_before t_acquired) \<Longrightarrow> chaos_io_write (hd_slots s) io_fd 64 a = (n, e, ss)
    \<Longrightarrow> worker_act io_fd k s (goes k (Flushes i t_before t_acquired) (s\<lparr>hd_slots := ss\<rparr>))"
| flush: "is_at s k (Flushes i t_before t_acquired)
    \<Longrightarrow> worker_act io_fd k s
          (goes k (Asleep i t_before t_acquired (hd_time s + slept (chaos_io_fsync (hd_slots s) io_fd))) s)"
| wake: "is_at s k (Asleep i t_before t_acquired u) \<Longrightarrow> u \<le> hd_time s \<Longrightarrow> hd_now s = (t_done, clk)
    \<Longrightarrow> worker_act io_fd k s (goes k (Leaves i t_before t_acquired t_done) (s\<lparr>hd_clk := clk\<rparr>))"
| unlock: "is_at s k (Leaves i t_before t_acquired t_done)
    \<Longrightarrow> worker_act io_fd k s (goes k (Adds i t_before t_acquired t_done) (s\<lparr>hd_mu := None\<rparr>))"
| add: "is_at s k (Adds i t_before t_acquired t_done)
    \<Longrightarrow> worker_act io_fd k s (goes k (Begins (Suc i))
          (s\<lparr>total_wait := total_wait s + sint (t_acquired - t_before),
             total_work := total_work s + sint (t_done - t_acquired)\<rparr>))"
| finish: "is_at s k (Begins i) \<Longrightarrow> \<not> i < HERD_ITERS \<Longrightarrow> worker_act io_fd k s (goes k Finished s)"

inductive herd_act :: "int \<Rightarrow> herd_state \<Rightarrow> herd_state \<Rightarrow> bool" for io_fd where
  by_main: "main_act s t \<Longrightarrow> herd_act io_fd s t"
| by_worker: "worker_act io_fd k s t \<Longrightarrow> herd_act io_fd s t"

text \<open>
  Some time passes, then one thread acts. A step is one of these, or a worker leaves
  \<open>pthread_cond_wait\<close> although nobody woke it, which POSIX allows at any time.
\<close>

inductive herd_walk :: "int \<Rightarrow> herd_state \<Rightarrow> herd_state \<Rightarrow> bool" for io_fd where
  later: "herd_act io_fd (s\<lparr>hd_time := hd_time s + d\<rparr>) t \<Longrightarrow> herd_walk io_fd s t"

inductive herd_step :: "int \<Rightarrow> herd_state \<Rightarrow> herd_state \<Rightarrow> bool" for io_fd where
  walk: "herd_walk io_fd s t \<Longrightarrow> herd_step io_fd s t"
| spurious: "is_at s k Parked \<Longrightarrow> herd_step io_fd s (goes k AtGate s)"

text \<open>
  \<open>run\<close> up to the spawning of the workers: \<open>mk\<close> is what \<open>mkstemp\<close> returns. And the whole:
  \<open>s\<close> is the state a schedule has led to from there.
\<close>

definition herd_begin :: "int \<Rightarrow> u8 list \<Rightarrow> nat \<Rightarrow> clock_state \<Rightarrow> (int \<times> herd_state) option" where
  "herd_begin mk tmpl t clk =
     (let (io_fd, e, ss, acts) = chaos_io_open mk tmpl init_slots
      in if io_fd < 0 then None
         else Some (io_fd, herd_start t clk (chaos_io_set_fsync_delay ss io_fd HERD_FSYNC_DELAY)))"

definition herd_run :: "int \<Rightarrow> u8 list \<Rightarrow> nat \<Rightarrow> clock_state \<Rightarrow> herd_state \<Rightarrow> run_result" where
  "herd_run mk tmpl t clk s =
     (case herd_begin mk tmpl t clk of
        None \<Rightarrow> Some ([ev_fault ''chaos_io_open failed''], Returns 1)
      | Some _ \<Rightarrow> (case hd_pc s of Over r \<Rightarrow> Some (hd_out s, Returns r) | _ \<Rightarrow> None))"

section \<open>The descriptor\<close>

definition thundering_herd_scen :: "int \<Rightarrow> u8 list \<Rightarrow> nat \<Rightarrow> clock_state \<Rightarrow> herd_state \<Rightarrow> unit pg_scenario_t" where
  "thundering_herd_scen mk tmpl t clk s =
    \<lparr>sc_id = ''thundering_herd'',
      sc_title = ''Thundering herd: lock + fsync'',
      sc_one_liner = ''8 threads race for a mutex holding slow IO'',
      sc_description = (''Many workers wake simultaneously and queue through one mutex whose critical section is a slow fsync. Total wall time '' @ [CHR 0xE2, CHR 0x89, CHR 0x88] @ '' N'' @ [CHR 0xC3, CHR 0x97] @ ''iters'' @ [CHR 0xC3, CHR 0x97] @ ''fsync.''),
      sc_expected = (''avg wait grows with N; wall time '' @ [CHR 0xE2, CHR 0x89, CHR 0x88] @ '' fully serialized''),
      sc_lesson = Some (join_lines
       [''Why concurrent code runs serially: N threads all want the same'',
        ''lock. They acquire serially; while one holds it, N-1 wait. Total'',
        (''time = N '' @ [CHR 0xC3, CHR 0x97] @ '' (critical section time). If the critical section''),
        ''includes slow IO, latency explodes linearly with concurrency.'',
        ''CPU usage looks low while the app is throughput-bound.'',
        [],
        ''Fixes:'',
        ''  - Shrink the critical section: do slow work OUTSIDE the lock.'',
        ''  - Shard the lock: many mutexes, hash requests across them.'',
        ''  - Lock-free data structures where contention is high.'',
        (''  - Connection/resource pooling '' @ [CHR 0xE2, CHR 0x80, CHR 0x94] @ '' don't lock on the hot path.''),
        ''  - Backpressure: reject excess load rather than queue it.'']),
      sc_category = PG_CAT_COMPOUND,
      sc_init = None,
      sc_run = (\<lambda>st. play_run (herd_run mk tmpl t clk s)),
      sc_teardown = None,
      sc_explain = None\<rparr>"

section \<open>The mutex\<close>

fun inside :: "herd_worker \<Rightarrow> bool" where
  "inside (Entered i tb) = True"
| "inside (Writes i tb ta) = True"
| "inside (Flushes i tb ta) = True"
| "inside (Asleep i tb ta u) = True"
| "inside (Leaves i tb ta td) = True"
| "inside _ = False"

text \<open>The turns a worker has made, and the number of its \<open>fsync\<close>s that are over.\<close>

fun turns :: "herd_worker \<Rightarrow> nat" where
  "turns AtGate = 0"
| "turns Parked = 0"
| "turns (Begins i) = i"
| "turns (Queued i tb) = i"
| "turns (Entered i tb) = i"
| "turns (Writes i tb ta) = i"
| "turns (Flushes i tb ta) = i"
| "turns (Asleep i tb ta u) = i"
| "turns (Leaves i tb ta td) = i"
| "turns (Adds i tb ta td) = i"
| "turns Finished = HERD_ITERS"
| "turns NotMade = 0"

fun flushed :: "herd_worker \<Rightarrow> nat" where
  "flushed (Leaves i tb ta td) = Suc i"
| "flushed (Adds i tb ta td) = Suc i"
| "flushed pc = turns pc"

fun in_turn :: "herd_worker \<Rightarrow> bool" where
  "in_turn AtGate = False"
| "in_turn Parked = False"
| "in_turn (Begins i) = False"
| "in_turn Finished = False"
| "in_turn NotMade = False"
| "in_turn _ = True"

lemma is_at_in: "is_at s k pc \<Longrightarrow> pc \<in> set (hd_workers s)"
  using nth_mem [of k "hd_workers s"] by (simp add: is_at_def)

definition away :: "herd_worker \<Rightarrow> bool" where
  "away pc \<longleftrightarrow> pc = Finished \<or> pc = NotMade"

text \<open>
  Who may be where: before the gun nobody is past the gate, after it nobody waits.
\<close>

definition gate_ok :: "bool \<Rightarrow> herd_worker \<Rightarrow> bool" where
  "gate_ok started pc \<longleftrightarrow> (if started then pc \<noteq> Parked else pc = AtGate \<or> pc = Parked \<or> pc = NotMade)"

lemma woken_simps [simp]:
  "inside (woken pc) = inside pc" "turns (woken pc) = turns pc" "flushed (woken pc) = flushed pc"
  "in_turn (woken pc) = in_turn pc" "away (woken pc) = away pc" "woken pc \<noteq> Parked"
  "woken pc = NotMade \<longleftrightarrow> pc = NotMade" "NotMade = woken pc \<longleftrightarrow> pc = NotMade"
  by (cases pc; simp add: away_def)+

text \<open>
  The control part of the invariant: the mutex is held by the one worker that is inside, the gate
  is kept, and main joins workers that are gone.
\<close>

definition herd_ctrl :: "herd_state \<Rightarrow> bool" where
  "herd_ctrl s \<longleftrightarrow>
     (\<forall>k. hd_mu s = Some k \<longleftrightarrow> k < length (hd_workers s) \<and> inside (hd_workers s ! k))
     \<and> (\<forall>pc \<in> set (hd_workers s). turns pc \<le> HERD_ITERS \<and> (in_turn pc \<longrightarrow> turns pc < HERD_ITERS)
          \<and> gate_ok (hd_started s) pc)
     \<and> (case hd_pc s of
          Spawning i \<Rightarrow> length (hd_workers s) = i \<and> i \<le> HERD_WORKERS \<and> \<not> hd_started s
        | Settled \<Rightarrow> length (hd_workers s) = HERD_WORKERS \<and> \<not> hd_started s
        | Aiming t0 \<Rightarrow> length (hd_workers s) = HERD_WORKERS \<and> \<not> hd_started s
        | Joining j t0 \<Rightarrow> length (hd_workers s) = HERD_WORKERS \<and> hd_started s
            \<and> j \<le> HERD_WORKERS \<and> list_all away (take j (hd_workers s))
        | Over r \<Rightarrow> r = 0 \<and> length (hd_workers s) = HERD_WORKERS \<and> hd_started s \<and> list_all away (hd_workers s))"

lemma herd_ctrl_start: "herd_ctrl (herd_start t clk ss)"
  by (simp add: herd_ctrl_def herd_start_def)

lemma herd_ctrl_later: "herd_ctrl (s\<lparr>hd_time := x\<rparr>) = herd_ctrl s"
  by (cases "hd_pc s") (simp_all add: herd_ctrl_def)

text \<open>
  A worker that is not gone moves from one place to another: the invariant is kept when the mutex
  follows it.
\<close>

lemma herd_ctrl_goes:
  assumes "herd_ctrl s" and "is_at s k old" and "\<not> away old" and "gate_ok (hd_started s) new"
    and "hd_mu t = (if inside new then Some k else if inside old then None else hd_mu s)"
    and "inside new \<Longrightarrow> inside old \<or> hd_mu s = None"
    and "turns new \<le> HERD_ITERS" and "in_turn new \<Longrightarrow> turns new < HERD_ITERS"
    and "hd_workers t = (hd_workers s)[k := new]" and "hd_pc t = hd_pc s" and "hd_started t = hd_started s"
  shows "herd_ctrl t"
proof -
  have k: "k < length (hd_workers s)" "hd_workers s ! k = old" using assms(2) by (simp_all add: is_at_def)
  have mu: "hd_mu s = Some j \<longleftrightarrow> j < length (hd_workers s) \<and> inside (hd_workers s ! j)" for j
    using assms(1) by (simp add: herd_ctrl_def)
  have "hd_mu t = Some j \<longleftrightarrow> j < length (hd_workers t) \<and> inside (hd_workers t ! j)" for j
    using mu [of j] mu [of k] k assms(5,6,9) by (cases "j = k") (auto split: if_splits)
  moreover have "turns pc \<le> HERD_ITERS \<and> (in_turn pc \<longrightarrow> turns pc < HERD_ITERS) \<and> gate_ok (hd_started t) pc"
    if "pc \<in> set (hd_workers t)" for pc
  proof -
    from that assms(9) have "pc = new \<or> pc \<in> set (hd_workers s)"
      using set_update_subset_insert [of "hd_workers s" k new] by auto
    then show ?thesis using assms(1,4,7,8,11) by (auto simp: herd_ctrl_def)
  qed
  moreover have "list_all away (take j (hd_workers t))" if "list_all away (take j (hd_workers s))" for j
  proof -
    have "\<not> k < j" using that k assms(3) nth_take [of k j "hd_workers s"] by (force simp: list_all_length)
    with that show ?thesis by (simp add: assms(9) take_update_cancel)
  qed
  moreover have "\<not> list_all away (hd_workers s)" using k assms(3) nth_mem [OF k(1)] by (auto simp: list_all_iff)
  ultimately show ?thesis
    using assms(1,4,9-11) by (auto simp: herd_ctrl_def split: herd_main.splits)
qed

lemma herd_ctrl_main:
  assumes "main_act s t" and "herd_ctrl s"
  shows "herd_ctrl t"
  using assms(1)
proof cases
  case (join j t0)
  then have "away (hd_workers s ! j)" "j < length (hd_workers s)" by (auto simp: is_at_def away_def)
  with join assms(2) show ?thesis by (auto simp: herd_ctrl_def take_Suc_conv_app_nth)
next
  case (fire t0)
  with assms(2) show ?thesis by (auto simp: herd_ctrl_def gate_ok_def)
qed (use assms(2) in \<open>auto simp: herd_ctrl_def nth_append less_Suc_eq gate_ok_def\<close>)

lemma herd_ctrl_worker:
  assumes "worker_act io_fd k s t" and "herd_ctrl s"
  shows "herd_ctrl t"
proof -
  have at: "turns pc \<le> HERD_ITERS \<and> (in_turn pc \<longrightarrow> turns pc < HERD_ITERS) \<and> (inside pc \<longrightarrow> hd_mu s = Some k)
      \<and> gate_ok (hd_started s) pc" if "is_at s k pc" for pc
    using assms(2) that by (auto simp: herd_ctrl_def is_at_def)
  from assms(1) show ?thesis
    by cases (frule at, rule herd_ctrl_goes [OF assms(2)], assumption, auto simp: goes_def away_def gate_ok_def split: if_splits)+
qed

lemma herd_ctrl_act: "herd_act io_fd s t \<Longrightarrow> herd_ctrl s \<Longrightarrow> herd_ctrl t"
  by (induction rule: herd_act.induct) (auto intro: herd_ctrl_main herd_ctrl_worker)

inductive_simps herd_walk_iff: "herd_walk io_fd s t"

lemma herd_ctrl_walk: "herd_walk io_fd s t \<Longrightarrow> herd_ctrl s \<Longrightarrow> herd_ctrl t"
  by (auto simp: herd_walk_iff herd_ctrl_later intro: herd_ctrl_act)

lemma parked_waits: "herd_ctrl s \<Longrightarrow> is_at s k Parked \<Longrightarrow> \<not> hd_started s"
  using is_at_in [of s k Parked] by (auto simp: herd_ctrl_def gate_ok_def)

lemma herd_ctrl_spurious:
  assumes "herd_ctrl s" and "is_at s k Parked"
  shows "herd_ctrl (goes k AtGate s)"
  by (rule herd_ctrl_goes [OF assms]) (use parked_waits [OF assms] in \<open>simp_all add: goes_def away_def gate_ok_def\<close>)

lemma herd_ctrl_step: "herd_step io_fd s t \<Longrightarrow> herd_ctrl s \<Longrightarrow> herd_ctrl t"
  by (induction rule: herd_step.induct) (auto intro: herd_ctrl_walk herd_ctrl_spurious)

section \<open>The work that is left\<close>

fun worker_left :: "herd_worker \<Rightarrow> nat" where
  "worker_left AtGate = 51"
| "worker_left Parked = 50"
| "worker_left (Begins i) = (6 - i) * 8 + 1"
| "worker_left (Queued i tb) = (6 - i) * 8"
| "worker_left (Entered i tb) = (6 - i) * 8 - 1"
| "worker_left (Writes i tb ta) = (6 - i) * 8 - 2"
| "worker_left (Flushes i tb ta) = (6 - i) * 8 - 3"
| "worker_left (Asleep i tb ta u) = (6 - i) * 8 - 4"
| "worker_left (Leaves i tb ta td) = (6 - i) * 8 - 5"
| "worker_left (Adds i tb ta td) = (6 - i) * 8 - 6"
| "worker_left Finished = 0"
| "worker_left NotMade = 0"

fun main_left :: "herd_main \<Rightarrow> nat" where
  "main_left (Spawning i) = (8 - i) * 52 + 21"
| "main_left Settled = 20"
| "main_left (Aiming t0) = 19"
| "main_left (Joining j t0) = 10 - j"
| "main_left (Over r) = 0"

definition herd_left :: "herd_state \<Rightarrow> nat" where
  "herd_left s = main_left (hd_pc s) + sum_list (map worker_left (hd_workers s))"

lemma left_goes:
  assumes "is_at s k old" and "worker_left new < worker_left old"
    and "hd_workers t = (hd_workers s)[k := new]" and "hd_pc t = hd_pc s"
  shows "herd_left t < herd_left s"
proof -
  have k: "k < length (hd_workers s)" "hd_workers s ! k = old" using assms(1) by (simp_all add: is_at_def)
  then have "worker_left old \<in> set (map worker_left (hd_workers s))" using nth_mem [OF k(1)] by simp
  then have "worker_left old \<le> sum_list (map worker_left (hd_workers s))" by (rule member_le_sum_list) simp
  with assms k show ?thesis
    by (simp add: herd_left_def map_update sum_list_update)
qed

text \<open>A broadcast gives each of those it wakes one more thing to do.\<close>

lemma left_woken: "sum_list (map worker_left (map woken pcs)) \<le> sum_list (map worker_left pcs) + length pcs"
proof (induction pcs)
  case (Cons pc pcs)
  then show ?case by (cases pc) auto
qed simp

lemma main_left_act:
  assumes "main_act s t" and "herd_ctrl s"
  shows "herd_left t < herd_left s"
  using assms(1)
proof cases
  case (join j t0)
  then show ?thesis using assms(2) by (auto simp: herd_left_def herd_ctrl_def is_at_def HERD_WORKERS_def)
next
  case (fire t0)
  with left_woken [of "hd_workers s"] assms(2) show ?thesis by (simp add: herd_left_def herd_ctrl_def HERD_WORKERS_def)
qed (use assms(2) in \<open>auto simp: herd_left_def herd_ctrl_def HERD_WORKERS_def\<close>)

lemma worker_left_act:
  assumes "worker_act io_fd k s t" and "herd_ctrl s"
  shows "herd_left t < herd_left s"
proof -
  have tn: "in_turn pc \<longrightarrow> turns pc < 6" if "is_at s k pc" for pc
    using assms(2) that by (auto simp: herd_ctrl_def is_at_def HERD_ITERS_def)
  from assms(1) show ?thesis
    by cases (frule tn, rule left_goes, assumption, auto simp: goes_def HERD_ITERS_def)+
qed

lemma herd_act_left: "herd_act io_fd s t \<Longrightarrow> herd_ctrl s \<Longrightarrow> herd_left t < herd_left s"
  by (induction rule: herd_act.induct) (auto intro: main_left_act worker_left_act)

lemma herd_walk_left: "herd_walk io_fd s t \<Longrightarrow> herd_ctrl s \<Longrightarrow> herd_left t < herd_left s"
  using herd_act_left [of io_fd "s\<lparr>hd_time := hd_time s + d\<rparr>" t for d]
  by (auto simp: herd_walk_iff herd_ctrl_later herd_left_def)

text \<open>
  The steps of a schedule in a hurry: no more time passes than a sleeper has left, and every worker
  can be made.
\<close>

definition herd_soon :: "int \<Rightarrow> herd_state \<Rightarrow> herd_state \<Rightarrow> bool" where
  "herd_soon io_fd s t \<longleftrightarrow>
     (\<exists>d. herd_act io_fd (s\<lparr>hd_time := hd_time s + d\<rparr>) t
        \<and> (d = 0 \<or> (\<exists>k i tb ta u. is_at s k (Asleep i tb ta u) \<and> d = u - hd_time s))
        \<and> hd_time t \<le> hd_time s + d + 10000000 \<and> (NotMade \<in> set (hd_workers t) \<longrightarrow> NotMade \<in> set (hd_workers s)))"

definition acts_soon :: "int \<Rightarrow> herd_state \<Rightarrow> bool" where
  "acts_soon io_fd s \<longleftrightarrow> (\<exists>t. herd_soon io_fd s t)"

lemma acts_at_once:
  assumes "herd_act io_fd s t" and "hd_time t \<le> hd_time s + 10000000"
    and "NotMade \<in> set (hd_workers t) \<Longrightarrow> NotMade \<in> set (hd_workers s)"
  shows "acts_soon io_fd s"
  unfolding acts_soon_def herd_soon_def by (rule exI [of _ t], rule exI [of _ 0]) (use assms in simp)

lemma acts_goes:
  assumes "worker_act io_fd k s (goes k new s')" and "hd_workers s' = hd_workers s" and "hd_time s' = hd_time s" and "new \<noteq> NotMade"
  shows "acts_soon io_fd s"
  by (rule acts_at_once [OF by_worker [OF assms(1)]])
    (use assms(2-4) set_update_subset_insert [of "hd_workers s" k new] in \<open>auto simp: goes_def\<close>)

lemma inside_acts:
  assumes "is_at s k pc" and "inside pc"
  shows "acts_soon io_fd s"
proof (cases pc)
  case (Entered i tb)
  with assms(1) show ?thesis by (cases "hd_now s") (auto intro: acts_goes [OF worker_act.enter])
next
  case (Writes i tb ta)
  obtain n e ss where "chaos_io_write (hd_slots s) io_fd 64 (Moves 64) = (n, e, ss)"
    by (cases "chaos_io_write (hd_slots s) io_fd 64 (Moves 64)")
  with assms(1) Writes show ?thesis by (auto intro: acts_goes [OF worker_act.put])
next
  case (Flushes i tb ta)
  with assms(1) show ?thesis by (auto intro: acts_goes [OF worker_act.flush])
next
  case (Asleep i tb ta u)
  let ?s = "s\<lparr>hd_time := hd_time s + (u - hd_time s)\<rparr>"
  obtain td clk where "hd_now ?s = (td, clk)" by (cases "hd_now ?s")
  moreover have "u \<le> hd_time s + (u - hd_time s)" by arith
  ultimately have "herd_act io_fd ?s (goes k (Leaves i tb ta td) (?s\<lparr>hd_clk := clk\<rparr>))"
    by (intro by_worker [OF worker_act.wake]) (use assms(1) Asleep in \<open>simp_all add: is_at_def\<close>)
  then show ?thesis
    unfolding acts_soon_def herd_soon_def
    by (intro exI [of _ "u - hd_time s"] exI conjI, assumption)
      (use assms(1) Asleep in \<open>auto simp: goes_def is_at_def dest: set_update_subset_insert [THEN subsetD]\<close>)
next
  case (Leaves i tb ta td)
  with assms(1) show ?thesis by (auto intro: acts_goes [OF worker_act.unlock])
qed (use assms(2) in simp_all)

text \<open>When the gun has gone off, a worker that is not gone acts, or the one it waits for does.\<close>

lemma worker_progress:
  assumes "herd_ctrl s" and "hd_started s" and "is_at s j pc" and "\<not> away pc"
  shows "acts_soon io_fd s"
proof (cases "hd_mu s")
  case (Some k)
  with assms(1) have "is_at s k (hd_workers s ! k)" "inside (hd_workers s ! k)"
    by (auto simp: herd_ctrl_def is_at_def)
  then show ?thesis by (rule inside_acts)
next
  case None
  show ?thesis
  proof (cases pc)
    case AtGate
    with assms(2,3) show ?thesis by (auto intro: acts_goes [OF worker_act.pass_gate])
  next
    case Parked
    with parked_waits [OF assms(1), of j] assms(2,3) show ?thesis by simp
  next
    case (Begins i)
    obtain tb clk where "hd_now s = (tb, clk)" by (cases "hd_now s")
    with assms(3) Begins show ?thesis
      by (cases "i < HERD_ITERS") (auto intro: acts_goes [OF worker_act.queue] acts_goes [OF worker_act.finish])
  next
    case (Queued i tb)
    with assms(3) None show ?thesis by (auto intro: acts_goes [OF worker_act.lock])
  next
    case (Adds i tb ta td)
    with assms(3) show ?thesis by (auto intro: acts_goes [OF worker_act.add])
  qed (use assms(3,4) inside_acts [OF assms(3), of io_fd] in \<open>auto simp: away_def\<close>)
qed

lemma herd_progress:
  assumes "herd_ctrl s" and "\<not> (\<exists>r. hd_pc s = Over r)"
  shows "acts_soon io_fd s"
proof (cases "hd_pc s")
  case (Spawning i)
  show ?thesis
  proof (cases "i < HERD_WORKERS")
    case True
    show ?thesis by (rule acts_at_once [OF by_main [OF main_act.spawn [OF Spawning True]]]) simp_all
  next
    case False
    show ?thesis by (rule acts_at_once [OF by_main [OF main_act.settle [OF Spawning False]]]) simp_all
  qed
next
  case Settled
  obtain t0 clk where "hd_now s = (t0, clk)" by (cases "hd_now s")
  from acts_at_once [OF by_main [OF main_act.aim [OF Settled this]]] show ?thesis by simp
next
  case (Aiming t0)
  show ?thesis by (rule acts_at_once [OF by_main [OF main_act.fire [OF Aiming]]]) auto
next
  case (Joining j t0)
  show ?thesis
  proof (cases "j < HERD_WORKERS")
    case False
    obtain t1 clk where "hd_now s = (t1, clk)" by (cases "hd_now s")
    from acts_at_once [OF by_main [OF main_act.report [OF Joining False this]]] show ?thesis by simp
  next
    case True
    with assms(1) Joining have j: "is_at s j (hd_workers s ! j)" and started: "hd_started s"
      by (auto simp: herd_ctrl_def is_at_def)
    show ?thesis
    proof (cases "away (hd_workers s ! j)")
      case True
      with j have "is_at s j Finished \<or> is_at s j NotMade" by (simp add: is_at_def away_def)
      from acts_at_once [OF by_main [OF main_act.join [OF Joining this]]] show ?thesis by simp
    next
      case False
      with worker_progress [OF assms(1) started j] show ?thesis .
    qed
  qed
qed (use assms(2) in simp)

text \<open>All steps keep the invariant; the machine that ends has no wakeups for no reason.\<close>

interpretation herd: step_system "herd_step io_fd" herd_ctrl for io_fd
  by unfold_locales (fact herd_ctrl_step)

interpretation going: ending_system "herd_walk io_fd" herd_ctrl "herd_soon io_fd" "\<lambda>s. \<exists>r. hd_pc s = Over r" herd_left
  for io_fd
proof unfold_locales
  show "herd_soon io_fd s t \<Longrightarrow> herd_walk io_fd s t" for s t
    by (auto simp: herd_soon_def intro: herd_walk.later)
  show "herd_ctrl s \<Longrightarrow> \<not> (\<exists>r. hd_pc s = Over r) \<Longrightarrow> \<exists>t. herd_soon io_fd s t" for s
    using herd_progress [of s io_fd] by (simp add: acts_soon_def)
qed (fact herd_ctrl_walk herd_walk_left)+

lemma walk_is_run: "(herd_walk io_fd)\<^sup>*\<^sup>* s t \<Longrightarrow> (herd_step io_fd)\<^sup>*\<^sup>* s t"
  by (erule rtranclp_mono [THEN predicate2D, rotated]) (auto intro: herd_step.walk)

section \<open>Time\<close>

definition reading :: "clock_state \<Rightarrow> nat \<Rightarrow> u64" where
  "reading clk t = of_nat t + g_clock_skew_ns clk"

lemma hd_now_reading:
  "g_clock_jitter_max_ns (hd_clk s) = 0 \<Longrightarrow> hd_now s = (reading (hd_clk s) (hd_time s), hd_clk s)"
  using ns_of_timespec_of_ns [of "of_nat (hd_time s)"]
  by (simp add: hd_now_def chaos_clock_now_ns_def reading_def ns_of_timespec_def)

lemma reading_diff: "t \<le> t' \<Longrightarrow> reading clk t' - reading clk t = of_nat (t' - t)"
  by (simp add: reading_def of_nat_diff)

lemma sint_of_nat_small: "n < 2 ^ 63 \<Longrightarrow> sint (of_nat n :: u64) = int n"
  by (simp add: signed_of_nat signed_take_bit_int_eq_self)

text \<open>
  What is known of the readings a worker holds, at the time \<open>T\<close>: from the lock to the end of the
  \<open>fsync\<close> at least 30 ms pass.
\<close>

fun stamped :: "clock_state \<Rightarrow> nat \<Rightarrow> herd_worker \<Rightarrow> bool" where
  "stamped clk T (Writes i tb ta) = (\<exists>t \<le> T. ta = reading clk t)"
| "stamped clk T (Flushes i tb ta) = (\<exists>t \<le> T. ta = reading clk t)"
| "stamped clk T (Asleep i tb ta u) = (u \<le> T + 30000000 \<and> (\<exists>t \<le> T. ta = reading clk t \<and> t + 30000000 \<le> u))"
| "stamped clk T (Leaves i tb ta td) = (\<exists>t t'. ta = reading clk t \<and> td = reading clk t' \<and> t + 30000000 \<le> t' \<and> t' \<le> T)"
| "stamped clk T (Adds i tb ta td) = (\<exists>t t'. ta = reading clk t \<and> td = reading clk t' \<and> t + 30000000 \<le> t' \<and> t' \<le> T)"
| "stamped clk T _ = True"

text \<open>
  The critical sections since \<open>t0\<close> lie one after the other: those that are over have taken at
  least 30 ms each, and so will have the one under way when its sleep is over.
\<close>

definition one_by_one :: "nat \<Rightarrow> herd_state \<Rightarrow> bool" where
  "one_by_one t0 s \<longleftrightarrow>
     (let n = sum_list (map flushed (hd_workers s))
      in t0 + 30000000 * n \<le> hd_time s
         \<and> (\<forall>i tb ta u. Asleep i tb ta u \<in> set (hd_workers s) \<longrightarrow> t0 + 30000000 * (n + 1) \<le> u))"

definition herd_timely :: "clock_state \<Rightarrow> int \<Rightarrow> herd_state \<Rightarrow> bool" where
  "herd_timely clk io_fd s \<longleftrightarrow>
     hd_clk s = clk \<and> (\<exists>p. policy_of (hd_slots s) io_fd = Some p \<and> plain_policy HERD_FSYNC_DELAY p)
     \<and> (\<forall>pc \<in> set (hd_workers s). stamped clk (hd_time s) pc)
     \<and> 30000000 * int (sum_list (map turns (hd_workers s))) \<le> total_work s
     \<and> (case hd_pc s of
          Aiming r0 \<Rightarrow> hd_out s = herd_opening \<and> (\<exists>t0 \<le> hd_time s. r0 = reading clk t0)
        | Joining j r0 \<Rightarrow> hd_out s = herd_opening \<and> (\<exists>t0. r0 = reading clk t0 \<and> one_by_one t0 s)
        | Over r \<Rightarrow> (\<exists>t0 t1. hd_out s = herd_opening @ herd_report (reading clk t1 - reading clk t0) (total_wait s) (total_work s)
            \<and> t0 + 30000000 * sum_list (map flushed (hd_workers s)) \<le> t1 \<and> t1 \<le> hd_time s)
        | _ \<Rightarrow> hd_out s = herd_opening)"

lemma stamped_later: "stamped clk T pc \<Longrightarrow> T \<le> T' \<Longrightarrow> stamped clk T' pc"
  by (cases pc) (auto dest: le_trans)

lemma herd_timely_later:
  assumes "herd_timely clk io_fd s"
  shows "herd_timely clk io_fd (s\<lparr>hd_time := hd_time s + d\<rparr>)"
proof -
  have "one_by_one t0 s \<Longrightarrow> one_by_one t0 (s\<lparr>hd_time := hd_time s + d\<rparr>)" for t0
    by (auto simp: one_by_one_def Let_def)
  moreover have "stamped clk (hd_time s + d) pc" if "pc \<in> set (hd_workers s)" for pc
    using assms that stamped_later [of clk "hd_time s" pc] by (simp add: herd_timely_def)
  ultimately show ?thesis using assms by (cases "hd_pc s") (auto simp: herd_timely_def intro: trans_le_add1)
qed

lemma herd_timely_start:
  assumes "policy_of ss io_fd = Some p" and "plain_policy HERD_FSYNC_DELAY p"
  shows "herd_timely clk io_fd (herd_start t clk ss)"
  using assms by (simp add: herd_timely_def herd_start_def)

lemma herd_act_time: "herd_act io_fd s t \<Longrightarrow> hd_time s \<le> hd_time t"
  by (auto simp: goes_def elim!: herd_act.cases main_act.cases worker_act.cases)

lemma herd_walk_time: "herd_walk io_fd s t \<Longrightarrow> hd_time s \<le> hd_time t"
  by (auto simp: herd_walk_iff dest!: herd_act_time)

lemma herd_step_time: "herd_step io_fd s t \<Longrightarrow> hd_time s \<le> hd_time t"
  by (induction rule: herd_step.induct) (auto simp: goes_def dest: herd_walk_time)

lemma sum_goes:
  fixes f :: "herd_worker \<Rightarrow> nat"
  assumes "is_at s k old"
  shows "sum_list (map f ((hd_workers s)[k := new])) + f old = sum_list (map f (hd_workers s)) + f new"
proof -
  have k: "k < length (hd_workers s)" "hd_workers s ! k = old" using assms by (simp_all add: is_at_def)
  then have "f old \<in> set (map f (hd_workers s))" using nth_mem [OF k(1)] by simp
  then have "f old \<le> sum_list (map f (hd_workers s))" by (rule member_le_sum_list) simp
  with k show ?thesis by (simp add: map_update sum_list_update)
qed

lemma worker_runs:
  assumes "herd_ctrl s" and "is_at s k old" and "\<not> away old" and "old \<noteq> AtGate \<and> old \<noteq> Parked \<or> hd_started s"
  shows "\<exists>j r0. hd_pc s = Joining j r0"
proof -
  have old: "old \<in> set (hd_workers s)" using assms(2) by (auto simp: is_at_def)
  with assms have "hd_started s" by (auto simp: herd_ctrl_def away_def gate_ok_def split: if_splits)
  moreover have "\<not> list_all away (hd_workers s)" using old assms(3) by (auto simp: list_all_iff)
  ultimately show ?thesis using assms(1) by (auto simp: herd_ctrl_def split: herd_main.splits)
qed

lemma one_by_one_goes:
  assumes "one_by_one t0 s" and "is_at s k old" and "hd_workers s' = hd_workers s" and "hd_time s' = hd_time s"
    and "flushed new = flushed old" and "\<And>i tb ta u. new = Asleep i tb ta u \<Longrightarrow> hd_time s + 30000000 \<le> u"
  shows "one_by_one t0 (goes k new s')"
proof -
  have n: "sum_list (map flushed ((hd_workers s)[k := new])) = sum_list (map flushed (hd_workers s))"
    using sum_goes [OF assms(2), of flushed new] assms(5) by simp
  have "t0 + 30000000 * (sum_list (map flushed (hd_workers s)) + 1) \<le> u"
    if "Asleep i tb ta u \<in> set ((hd_workers s)[k := new])" for i tb ta u
  proof -
    from that have "new = Asleep i tb ta u \<or> Asleep i tb ta u \<in> set (hd_workers s)"
      using set_update_subset_insert [of "hd_workers s" k new] by auto
    then show ?thesis using assms(1,6) by (auto simp: one_by_one_def Let_def)
  qed
  with n assms(1,3,4) show ?thesis by (simp add: one_by_one_def goes_def Let_def)
qed

lemma one_by_one_wakes:
  assumes "one_by_one t0 s" and "is_at s k (Asleep i tb ta u)" and "u \<le> hd_time s" and "herd_ctrl s"
    and "hd_workers s' = hd_workers s" and "hd_time s' = hd_time s"
  shows "one_by_one t0 (goes k (Leaves i tb ta td) s')"
proof -
  have k: "k < length (hd_workers s)" "hd_workers s ! k = Asleep i tb ta u" using assms(2) by (simp_all add: is_at_def)
  then have mu: "hd_mu s = Some k" using assms(4) by (simp add: herd_ctrl_def)
  have "t0 + 30000000 * (sum_list (map flushed (hd_workers s)) + 1) \<le> u"
    using assms(1) k nth_mem [OF k(1)] by (auto simp: one_by_one_def Let_def)
  moreover have "sum_list (map flushed ((hd_workers s)[k := Leaves i tb ta td])) = sum_list (map flushed (hd_workers s)) + 1"
    using sum_goes [OF assms(2), of flushed "Leaves i tb ta td"] by simp
  moreover have "Asleep i' tb' ta' u' \<notin> set ((hd_workers s)[k := Leaves i tb ta td])" for i' tb' ta' u'
  proof
    assume "Asleep i' tb' ta' u' \<in> set ((hd_workers s)[k := Leaves i tb ta td])"
    then obtain m where m: "m < length (hd_workers s)" "(hd_workers s)[k := Leaves i tb ta td] ! m = Asleep i' tb' ta' u'"
      by (auto simp: in_set_conv_nth)
    then have "m \<noteq> k" using k by auto
    with m have "inside (hd_workers s ! m)" by simp
    with m(1) assms(4) have "hd_mu s = Some m" by (simp add: herd_ctrl_def)
    with mu \<open>m \<noteq> k\<close> show False by simp
  qed
  ultimately show ?thesis using assms(3,5,6) by (simp add: one_by_one_def goes_def Let_def)
qed

lemma herd_timely_goes:
  assumes "herd_timely clk io_fd s" and "herd_ctrl s" and "is_at s k old" and "\<not> away old" and "old \<noteq> AtGate \<and> old \<noteq> Parked \<or> hd_started s"
    and "hd_workers s' = hd_workers s" and "hd_pc s' = hd_pc s" and "hd_out s' = hd_out s"
    and "hd_clk s' = hd_clk s" and "hd_time s' = hd_time s"
    and "\<exists>p. policy_of (hd_slots s') io_fd = Some p \<and> plain_policy HERD_FSYNC_DELAY p"
    and "stamped clk (hd_time s) new"
    and "30000000 * (int (turns new) - int (turns old)) \<le> total_work s' - total_work s"
    and "\<And>t0. one_by_one t0 s \<Longrightarrow> one_by_one t0 (goes k new s')"
  shows "herd_timely clk io_fd (goes k new s')"
proof -
  obtain j r0 where j: "hd_pc s = Joining j r0" using worker_runs [OF assms(2-5)] by blast
  have "int (sum_list (map turns ((hd_workers s)[k := new]))) + int (turns old) = int (sum_list (map turns (hd_workers s))) + int (turns new)"
    using sum_goes [OF assms(3), of turns new] by (metis of_nat_add)
  with assms(1,13) have "30000000 * int (sum_list (map turns ((hd_workers s)[k := new]))) \<le> total_work s'"
    by (simp add: herd_timely_def)
  moreover have "stamped clk (hd_time s) pc" if "pc \<in> set ((hd_workers s)[k := new])" for pc
    using that assms(1,12) set_update_subset_insert [of "hd_workers s" k new] by (auto simp: herd_timely_def)
  ultimately show ?thesis using assms(1,6-11,14) j by (auto simp: herd_timely_def goes_def)
qed

lemma timely_now:
  assumes "herd_timely clk io_fd s" and "g_clock_jitter_max_ns clk = 0"
  shows "hd_now s = (reading clk (hd_time s), clk)"
  using hd_now_reading [of s] assms by (simp add: herd_timely_def)

lemma herd_timely_main:
  assumes "main_act s t" and "herd_timely clk io_fd s" and "herd_ctrl s" and "g_clock_jitter_max_ns clk = 0"
  shows "herd_timely clk io_fd t"
proof -
  note now = timely_now [OF assms(2,4)]
  from assms(1) show ?thesis
  proof cases
    case (aim r0 clk')
    with assms(2) now show ?thesis by (auto simp: herd_timely_def)
  next
    case (fire r0)
    have "pc = AtGate \<or> pc = Parked \<or> pc = NotMade" if "pc \<in> set (hd_workers s)" for pc
      using that assms(3) fire(2) by (auto simp: herd_ctrl_def gate_ok_def)
    then have gate: "pc = AtGate \<or> pc = NotMade" if "pc \<in> set (hd_workers t)" for pc
      using that fire(1) by force
    have n: "sum_list (map flushed (hd_workers t)) = 0" by (auto simp: sum_list_eq_0_iff dest: gate)
    have no: "Asleep i tb ta u \<notin> set (hd_workers t)" for i tb ta u by (auto dest: gate)
    have "hd_time t = hd_time s" using fire(1) by simp
    with n no have "one_by_one t0 t" if "t0 \<le> hd_time s" for t0
      using that by (simp only: one_by_one_def Let_def) simp
    moreover have "stamped clk (hd_time s) pc" if "pc \<in> set (hd_workers t)" for pc
      using gate [OF that] by auto
    moreover have "sum_list (map turns (hd_workers t)) = sum_list (map turns (hd_workers s))"
      using fire(1) by (simp add: comp_def)
    ultimately show ?thesis using fire assms(2) by (auto simp: herd_timely_def)
  next
    case (join j r0)
    with assms(2) show ?thesis by (auto simp: herd_timely_def one_by_one_def)
  next
    case (report j r0 r1 clk')
    with assms(2) now show ?thesis by (auto simp: herd_timely_def one_by_one_def Let_def)
  qed (use assms(2) in \<open>auto simp: herd_timely_def one_by_one_def Let_def intro: stamped_later\<close>)
qed

lemma herd_timely_wakes:
  assumes "herd_timely clk io_fd s" and "herd_ctrl s" and "is_at s k (Asleep i tb ta u)" and "u \<le> hd_time s"
  shows "herd_timely clk io_fd (goes k (Leaves i tb ta (reading clk (hd_time s))) (s\<lparr>hd_clk := clk\<rparr>))"
proof (rule herd_timely_goes [OF assms(1-3)])
  have "stamped clk (hd_time s) (Asleep i tb ta u)"
    using assms(1) is_at_in [OF assms(3)] unfolding herd_timely_def by blast
  then show "stamped clk (hd_time s) (Leaves i tb ta (reading clk (hd_time s)))" using assms(4) by fastforce
  show "one_by_one t0 (goes k (Leaves i tb ta (reading clk (hd_time s))) (s\<lparr>hd_clk := clk\<rparr>))" if "one_by_one t0 s" for t0
    by (rule one_by_one_wakes [OF that assms(3,4,2)]) simp_all
qed (use assms(1) in \<open>auto simp: herd_timely_def away_def\<close>)

lemma stamped_work:
  assumes "stamped clk T (Adds i tb ta td)" and "T < 2 ^ 57"
  shows "30000000 \<le> sint (td - ta)"
proof -
  obtain x y where "ta = reading clk x" "td = reading clk y" "x + 30000000 \<le> y" "y \<le> T"
    using assms(1) by auto
  moreover from this assms(2) have "sint (of_nat (y - x) :: u64) = int (y - x)"
    by (intro sint_of_nat_small) simp
  ultimately show ?thesis by (simp add: reading_diff)
qed

text \<open>A move that neither begins nor ends an \<open>fsync\<close>.\<close>

lemma herd_timely_quiet:
  assumes "herd_timely clk io_fd s" and "herd_ctrl s" and "is_at s k old" and "\<not> away old" and "old \<noteq> AtGate \<and> old \<noteq> Parked \<or> hd_started s"
    and "hd_workers s' = hd_workers s" and "hd_pc s' = hd_pc s" and "hd_out s' = hd_out s"
    and "hd_clk s' = hd_clk s" and "hd_time s' = hd_time s" and "hd_slots s' = hd_slots s"
    and "stamped clk (hd_time s) new"
    and "30000000 * (int (turns new) - int (turns old)) \<le> total_work s' - total_work s"
    and "flushed new = flushed old" and "\<And>i tb ta u. new = Asleep i tb ta u \<Longrightarrow> hd_time s + 30000000 \<le> u"
  shows "herd_timely clk io_fd (goes k new s')"
proof (rule herd_timely_goes [OF assms(1-10) _ assms(12,13)])
  show "\<exists>p. policy_of (hd_slots s') io_fd = Some p \<and> plain_policy HERD_FSYNC_DELAY p"
    using assms(1,11) by (simp add: herd_timely_def)
qed (rule one_by_one_goes [OF _ assms(3,6,10,14,15)])

lemma herd_timely_put:
  assumes "herd_timely clk io_fd s" and "herd_ctrl s" and "is_at s k (Writes i tb ta)"
    and "chaos_io_write (hd_slots s) io_fd 64 a = (n, e, ss)"
  shows "herd_timely clk io_fd (goes k (Flushes i tb ta) (s\<lparr>hd_slots := ss\<rparr>))"
proof (rule herd_timely_goes [OF assms(1-3)])
  from assms(1) obtain p where "policy_of (hd_slots s) io_fd = Some p" "plain_policy HERD_FSYNC_DELAY p"
    by (auto simp: herd_timely_def)
  with chaos_io_write_policy [OF this(1) assms(4)]
  show "\<exists>p. policy_of (hd_slots (s\<lparr>hd_slots := ss\<rparr>)) io_fd = Some p \<and> plain_policy HERD_FSYNC_DELAY p"
    by (auto simp: plain_policy_def)
  have "stamped clk (hd_time s) (Writes i tb ta)"
    using assms(1) is_at_in [OF assms(3)] unfolding herd_timely_def by blast
  then show "stamped clk (hd_time s) (Flushes i tb ta)" by simp
  show "one_by_one t0 (goes k (Flushes i tb ta) (s\<lparr>hd_slots := ss\<rparr>))" if "one_by_one t0 s" for t0
    by (rule one_by_one_goes [OF that assms(3)]) simp_all
qed (simp_all add: away_def)

text \<open>Before the gun a worker only goes to wait and comes back.\<close>

lemma herd_timely_waits:
  assumes "herd_timely clk io_fd s" and "herd_ctrl s" and "is_at s k old" and "\<not> hd_started s"
    and "turns old = 0" and "turns new = 0" and "stamped clk (hd_time s) new"
  shows "herd_timely clk io_fd (goes k new s)"
proof -
  have "stamped clk (hd_time s) pc" if "pc \<in> set ((hd_workers s)[k := new])" for pc
    using that assms(1,7) set_update_subset_insert [of "hd_workers s" k new] by (auto simp: herd_timely_def)
  moreover have "sum_list (map turns ((hd_workers s)[k := new])) = sum_list (map turns (hd_workers s))"
    using sum_goes [OF assms(3), of turns new] assms(5,6) by simp
  moreover have "\<not> (\<exists>j r0. hd_pc s = Joining j r0)" "\<not> (\<exists>r. hd_pc s = Over r)"
    using assms(2,4) by (auto simp: herd_ctrl_def)
  ultimately show ?thesis
    using assms(1) by (cases "hd_pc s") (auto simp: herd_timely_def goes_def)
qed

lemma herd_timely_worker:
  assumes "worker_act io_fd k s t" and "herd_timely clk io_fd s" and "herd_ctrl s"
    and "g_clock_jitter_max_ns clk = 0" and "hd_time t < 2 ^ 57"
  shows "herd_timely clk io_fd t"
proof -
  have clk: "hd_clk s = clk" using assms(2) by (simp add: herd_timely_def)
  note now = timely_now [OF assms(2,4)]
  have st: "stamped clk (hd_time s) pc" if "is_at s k pc" for pc
    using assms(2) that by (auto simp: herd_timely_def is_at_def)
  from assms(1) show ?thesis
  proof cases
    case park
    then show ?thesis using herd_timely_waits [OF assms(2,3)] by auto
  next
    case (put i tb ta a n e ss)
    then show ?thesis using herd_timely_put [OF assms(2,3)] by simp
  next
    case (flush i tb ta)
    from assms(2) obtain p where p: "policy_of (hd_slots s) io_fd = Some p" "plain_policy HERD_FSYNC_DELAY p"
      by (auto simp: herd_timely_def)
    have "slept (chaos_io_fsync (hd_slots s) io_fd) = 30000000"
      by (subst fsync_of_plain [OF p]) (simp_all add: slept_def HERD_FSYNC_DELAY_def)
    with flush(1) st [OF flush(2)] show ?thesis
      by (auto simp: away_def intro!: herd_timely_quiet [OF assms(2,3) flush(2)])
  next
    case (wake i tb ta u td clk')
    with now herd_timely_wakes [OF assms(2,3) wake(2,3)] show ?thesis by simp
  next
    case (add i tb ta td)
    have "30000000 \<le> sint (td - ta)"
      by (rule stamped_work [OF st [OF add(2)]]) (use assms(5) add(1) in \<open>simp add: goes_def\<close>)
    with add(1) show ?thesis
      by (auto simp: away_def intro!: herd_timely_quiet [OF assms(2,3) add(2)])
  next
    case (finish i)
    from is_at_in [OF finish(2)] assms(3) have "turns (Begins i) \<le> HERD_ITERS" unfolding herd_ctrl_def by blast
    with finish(1,3) show ?thesis
      by (auto simp: away_def intro!: herd_timely_quiet [OF assms(2,3) finish(2)])
  qed ((frule st, simp only:, rule herd_timely_quiet [OF assms(2,3)], assumption);
      use now clk in \<open>auto simp: away_def\<close>)+
qed

lemma herd_timely_act:
  assumes "herd_act io_fd s t" and "herd_timely clk io_fd s" and "herd_ctrl s"
    and "g_clock_jitter_max_ns clk = 0" and "hd_time t < 2 ^ 57"
  shows "herd_timely clk io_fd t"
  using assms(1)
proof cases
  case by_main
  then show ?thesis by (rule herd_timely_main [OF _ assms(2-4)])
next
  case by_worker
  then show ?thesis by (rule herd_timely_worker [OF _ assms(2-5)])
qed

lemma herd_timely_walk:
  assumes "herd_ctrl s" and "herd_timely clk io_fd s" and "herd_walk io_fd s t"
    and "g_clock_jitter_max_ns clk = 0" and "hd_time t < 2 ^ 57"
  shows "herd_timely clk io_fd t"
proof -
  from assms(3) obtain d where "herd_act io_fd (s\<lparr>hd_time := hd_time s + d\<rparr>) t" unfolding herd_walk_iff ..
  from herd_timely_act [OF this herd_timely_later] assms show ?thesis by (simp add: herd_ctrl_later)
qed

lemma herd_timely_step:
  assumes "herd_ctrl s" and "herd_timely clk io_fd s" and "herd_step io_fd s t"
    and "g_clock_jitter_max_ns clk = 0" and "hd_time t < 2 ^ 57"
  shows "herd_timely clk io_fd t"
  using assms(3)
proof cases
  case walk
  then show ?thesis by (rule herd_timely_walk [OF assms(1,2) _ assms(4,5)])
next
  case (spurious k)
  with herd_timely_waits [OF assms(2,1) spurious(2) parked_waits [OF assms(1) spurious(2)], of AtGate]
  show ?thesis by simp
qed

lemma herd_timely_reach:
  assumes "(herd_step io_fd)\<^sup>*\<^sup>* b0 s" and "herd_timely clk io_fd b0" and "herd_ctrl b0"
    and "g_clock_jitter_max_ns clk = 0" and "hd_time s < 2 ^ 57"
  shows "herd_timely clk io_fd s"
  using assms(1,3,2,5)
  by (rule herd.keeps_until) (rule herd_step_time, assumption, rule herd_timely_step [OF _ _ _ assms(4)])

section \<open>Every schedule ends\<close>

text \<open>A run within seconds, with every worker made.\<close>

lemma herd_soon_in_time:
  assumes "herd_ctrl s" and "herd_timely clk io_fd s" and "herd_soon io_fd s t"
    and "g_clock_jitter_max_ns clk = 0" and "hd_time s + 40000000 * herd_left s < 2 ^ 57"
  shows "herd_timely clk io_fd t \<and> hd_time t + 40000000 * herd_left t < 2 ^ 57"
proof -
  from assms(3) obtain d where act: "herd_act io_fd (s\<lparr>hd_time := hd_time s + d\<rparr>) t"
    and d: "d = 0 \<or> (\<exists>k i tb ta u. is_at s k (Asleep i tb ta u) \<and> d = u - hd_time s)"
    and t: "hd_time t \<le> hd_time s + d + 10000000"
    unfolding herd_soon_def by blast
  have "d \<le> 30000000"
  proof (cases "d = 0")
    case False
    with d obtain k i tb ta u where u: "is_at s k (Asleep i tb ta u)" "d = u - hd_time s" by auto
    have "stamped clk (hd_time s) (Asleep i tb ta u)"
      using assms(2) is_at_in [OF u(1)] unfolding herd_timely_def by blast
    then have "u \<le> hd_time s + 30000000" by simp
    with u(2) show ?thesis by linarith
  qed simp
  moreover have walk: "herd_walk io_fd s t" by (rule herd_walk.later [OF act])
  then have "herd_left t < herd_left s" using assms(1) by (rule herd_walk_left)
  ultimately have "hd_time t + 40000000 * herd_left t < 2 ^ 57" using assms(5) t by linarith
  moreover from this have "hd_time t < 2 ^ 57" by simp
  ultimately show ?thesis using herd_timely_walk [OF assms(1,2) walk assms(4)] by simp
qed

lemma herd_driven_in_time:
  assumes "herd_ctrl s" and "herd_timely clk io_fd s" and "g_clock_jitter_max_ns clk = 0" and "NotMade \<notin> set (hd_workers s)"
    and "hd_time s + 40000000 * herd_left s < 2 ^ 57"
  shows "\<exists>t r. (herd_step io_fd)\<^sup>*\<^sup>* s t \<and> hd_pc t = Over r \<and> NotMade \<notin> set (hd_workers t) \<and> hd_time t < 2 ^ 57"
proof -
  let ?Q = "\<lambda>s. herd_timely clk io_fd s \<and> NotMade \<notin> set (hd_workers s) \<and> hd_time s + 40000000 * herd_left s < 2 ^ 57"
  have "\<exists>t. (herd_walk io_fd)\<^sup>*\<^sup>* s t \<and> (\<exists>r. hd_pc t = Over r) \<and> ?Q t"
  proof (rule going.driven_keeping [OF assms(1)])
    show "?Q s" using assms(2,4,5) by simp
  next
    fix t u assume t: "herd_ctrl t" "?Q t" "herd_soon io_fd t u"
    then have "NotMade \<notin> set (hd_workers u)" by (auto simp: herd_soon_def)
    with herd_soon_in_time [OF t(1) _ t(3) assms(3)] t(2) show "?Q u" by blast
  qed
  then obtain t where "(herd_walk io_fd)\<^sup>*\<^sup>* s t" "\<exists>r. hd_pc t = Over r" "?Q t" by blast
  moreover from \<open>?Q t\<close> have "hd_time t < 2 ^ 57" by linarith
  ultimately show ?thesis using walk_is_run by blast
qed

section \<open>Properties\<close>

text \<open>
  C38: the mutex works. In no reachable state are two workers between \<open>pthread_mutex_lock\<close> and
  \<open>pthread_mutex_unlock\<close>, whatever the schedule, the answers of the file and the time that
  passes.
\<close>

theorem herd_mutual_exclusion:
  assumes "(herd_step io_fd)\<^sup>*\<^sup>* (herd_start t clk ss) s" and "is_at s j pc" and "is_at s k pc'" and "inside pc" and "inside pc'"
  shows "j = k \<and> hd_mu s = Some k"
proof -
  have "herd_ctrl s" by (rule herd.inv_reaches [OF assms(1) herd_ctrl_start])
  then have "hd_mu s = Some j" "hd_mu s = Some k" using assms(2-5) by (simp_all add: herd_ctrl_def is_at_def)
  then show ?thesis by simp
qed

text \<open>
  C37: the herd always goes home. Every state a run can be in, with wakeups of the condition
  variable for no reason wherever they may happen, can be driven to the end without a further one,
  so that there is no deadlock; no schedule from there goes on forever without them, since every
  other step leaves less to do; and once \<open>started\<close> is set nobody is left waiting for it, so that
  no wakeup is lost.
\<close>

theorem herd_returns:
  assumes "(herd_step io_fd)\<^sup>*\<^sup>* (herd_start t clk ss) s"
  shows "(\<exists>u r. (herd_walk io_fd)\<^sup>*\<^sup>* s u \<and> hd_pc u = Over r)
    \<and> wf {(v, u). (herd_step io_fd)\<^sup>*\<^sup>* (herd_start t clk ss) u \<and> herd_walk io_fd u v}
    \<and> (hd_started s \<longrightarrow> Parked \<notin> set (hd_workers s))"
proof (intro conjI)
  have ctrl: "herd_ctrl u" if "(herd_step io_fd)\<^sup>*\<^sup>* (herd_start t clk ss) u" for u
    by (rule herd.inv_reaches [OF that herd_ctrl_start])
  from going.driven [OF ctrl [OF assms]] show "\<exists>u r. (herd_walk io_fd)\<^sup>*\<^sup>* s u \<and> hd_pc u = Over r" by blast
  show "wf {(v, u). (herd_step io_fd)\<^sup>*\<^sup>* (herd_start t clk ss) u \<and> herd_walk io_fd u v}"
    by (rule wf_subset [OF going.no_infinite_schedule]) (use ctrl in blast)
  show "hd_started s \<longrightarrow> Parked \<notin> set (hd_workers s)"
    using ctrl [OF assms] by (auto simp: herd_ctrl_def gate_ok_def)
qed

theorem herd_returns_witness:
  "\<exists>s u r. (herd_step 7)\<^sup>*\<^sup>* (herd_start 0 init_clock init_slots) s \<and> is_at s 0 Parked
    \<and> (herd_walk 7)\<^sup>*\<^sup>* s u \<and> hd_pc u = Over r"
proof -
  let ?b = "herd_start 0 init_clock init_slots"
  let ?s = "?b\<lparr>hd_workers := [AtGate], hd_pc := Spawning 1\<rparr>"
  have "herd_act 7 ?b ?s" using by_main [OF main_act.spawn [of ?b 0]] by (simp add: herd_start_def HERD_WORKERS_def)
  moreover have "herd_act 7 ?s (goes 0 Parked ?s)"
    by (rule by_worker [OF worker_act.park]) (simp_all add: herd_start_def is_at_def)
  moreover have "herd_act 7 s t \<Longrightarrow> herd_step 7 s t" for s t
    using herd_walk.later [of 7 s 0 t] by (auto intro: herd_step.walk)
  ultimately have r: "(herd_step 7)\<^sup>*\<^sup>* ?b (goes 0 Parked ?s)" by (meson rtranclp.rtrancl_into_rtrancl rtranclp.rtrancl_refl)
  moreover have "is_at (goes 0 Parked ?s) 0 Parked" by (simp add: is_at_def goes_def)
  ultimately show ?thesis using herd_returns [OF r] by blast
qed

lemma sdiv_mono_pos: "0 < c \<Longrightarrow> 0 \<le> a \<Longrightarrow> a \<le> b \<Longrightarrow> (a::int) sdiv c \<le> b sdiv c"
  using zdiv_mono1 [of a b c] pos_imp_zdiv_nonneg_iff [of c b]
  by (simp add: signed_divide_int_def sgn_if)

lemma herd_begin_fails: "mk < 0 \<Longrightarrow> herd_begin mk tmpl t clk = None"
  by (simp add: herd_begin_def chaos_io_open_def)

lemma herd_begins:
  assumes "0 \<le> mk"
  obtains ss p where "herd_begin mk tmpl t clk = Some (mk, herd_start t clk ss)"
    and "policy_of ss mk = Some p" and "plain_policy HERD_FSYNC_DELAY p"
proof -
  from policy_of_fresh [OF assms] obtain ss acts p where
    "chaos_io_open mk tmpl init_slots = (mk, None, ss, acts)"
    "policy_of (chaos_io_set_fsync_delay ss mk HERD_FSYNC_DELAY) mk = Some p" "plain_policy HERD_FSYNC_DELAY p" .
  with assms show thesis by (intro that) (simp_all add: herd_begin_def)
qed

text \<open>
  C8: eight workers are as slow as one. When the clock has no jitter and every worker could be made,
  a run that comes back reports a wall time of at least the 1440 ms it expects and at least 30 ms
  of work for each of its 48 operations, whatever the schedule and the answers of the file.
\<close>

theorem herd_is_serial:
  assumes "g_clock_jitter_max_ns clk = 0" and "herd_begin mk tmpl t clk = Some (io_fd, b0)"
    and "(herd_step io_fd)\<^sup>*\<^sup>* b0 s" and "hd_time s < 2 ^ 57" and "NotMade \<notin> set (hd_workers s)"
    and "herd_run mk tmpl t clk s = Some (evs, r)"
  shows "r = Returns 0 \<and> length evs = 9 \<and> (\<exists>wall work. evs ! 2 = ev_expect ''wall_ms_approx'' 1440
    \<and> evs ! 3 = ev_actual ''wall_ms_approx'' (of_nat wall) \<and> 1440 \<le> wall
    \<and> evs ! 5 = ev_gauge ''avg_work_ms'' (of_int work) \<and> 30 \<le> work \<and> evs ! 6 = ev_count ''total_ops'' 48)"
proof -
  have mk: "0 \<le> mk" using assms(2) herd_begin_fails by (fastforce simp: not_less [symmetric])
  obtain ss p where b0: "b0 = herd_start t clk ss" and p: "policy_of ss io_fd = Some p" "plain_policy HERD_FSYNC_DELAY p"
    by (rule herd_begins [OF mk, of tmpl t clk]) (use assms(2) that in simp)
  have ctrl: "herd_ctrl s" using herd.inv_reaches [OF assms(3)] herd_ctrl_start b0 by simp
  have timely: "herd_timely clk io_fd s"
    by (rule herd_timely_reach [OF assms(3) _ _ assms(1,4)]) (simp_all add: b0 herd_timely_start [OF p] herd_ctrl_start)
  from assms(2,6) obtain x where over: "hd_pc s = Over x" "r = Returns x" "evs = hd_out s"
    by (auto simp: herd_run_def split: herd_main.splits)
  have fin: "hd_workers s = replicate 8 Finished"
    using ctrl over(1) assms(5) by (auto simp: herd_ctrl_def HERD_WORKERS_def list_all_iff away_def intro!: replicate_eqI)
  from timely over(1) obtain t0 t1 where
    out: "hd_out s = herd_opening @ herd_report (reading clk t1 - reading clk t0) (total_wait s) (total_work s)"
    and t1: "t0 + 1440000000 \<le> t1" "t1 \<le> hd_time s"
    by (auto simp: herd_timely_def fin HERD_ITERS_def sum_list_replicate)
  have "1440000000 \<le> total_work s" using timely by (simp add: herd_timely_def fin HERD_ITERS_def sum_list_replicate)
  then have "1440000000 sdiv 48 \<le> total_work s sdiv 48" by (intro sdiv_mono_pos) simp_all
  from sdiv_mono_pos [OF _ _ this, of 1000000] have work: "30 \<le> (total_work s sdiv 48) sdiv 1000000" by simp
  have "unat (of_nat (t1 - t0) :: u64) = t1 - t0" using t1(2) assms(4) by (simp add: unat_of_nat)
  then have "unat ((reading clk t1 - reading clk t0) div 1000000) = (t1 - t0) div 1000000"
    using t1(1) by (simp add: reading_diff unat_div)
  moreover have "1440 \<le> (t1 - t0) div 1000000" using t1(1) by linarith
  ultimately show ?thesis
    using over out work ctrl
    by (intro conjI exI [of _ "(t1 - t0) div 1000000"] exI [of _ "(total_work s sdiv 48) sdiv 1000000"])
      (simp_all add: herd_opening_def herd_report_def HERD_WORKERS_def HERD_ITERS_def Let_def herd_ctrl_def)
qed

theorem herd_is_serial_witness:
  "\<exists>s evs. herd_run 7 (bytes ''/tmp/herd'') 0 init_clock s = Some (evs, Returns 0) \<and> evs ! 6 = ev_count ''total_ops'' 48"
proof -
  obtain ss p where b0: "herd_begin 7 (bytes ''/tmp/herd'') 0 init_clock = Some (7, herd_start 0 init_clock ss)"
    and p: "policy_of ss 7 = Some p" "plain_policy HERD_FSYNC_DELAY p"
    by (rule herd_begins [of 7 "bytes ''/tmp/herd''" 0 init_clock]) (use that in simp_all)
  let ?b = "herd_start 0 init_clock ss"
  have clk: "g_clock_jitter_max_ns init_clock = 0" by (simp add: init_clock_def)
  have "hd_time ?b + 40000000 * herd_left ?b < 2 ^ 57" "NotMade \<notin> set (hd_workers ?b)"
    by (simp_all add: herd_left_def herd_start_def)
  from herd_driven_in_time [OF herd_ctrl_start herd_timely_start [OF p] clk this(2,1)] obtain s r where
    s: "(herd_step 7)\<^sup>*\<^sup>* ?b s" "hd_pc s = Over r" "NotMade \<notin> set (hd_workers s)" "hd_time s < 2 ^ 57" by blast
  then have run: "herd_run 7 (bytes ''/tmp/herd'') 0 init_clock s = Some (hd_out s, Returns r)" using b0 by (simp add: herd_run_def)
  from herd_is_serial [OF clk b0 s(1,4,3) run] run show ?thesis by blast
qed

theorem herd_mutual_exclusion_witness:
  "\<exists>s. (herd_step 7)\<^sup>*\<^sup>* (herd_start 0 init_clock init_slots) s \<and> is_at s 0 (Entered 0 10000000) \<and> hd_mu s = Some 0"
proof -
  let ?b = "herd_start 0 init_clock init_slots"
  let ?made = "\<lambda>n. ?b\<lparr>hd_workers := replicate n AtGate, hd_pc := Spawning n\<rparr>"
  have step: "herd_act 7 s t \<Longrightarrow> herd_step 7 s t" for s t
    using herd_walk.later [of 7 s 0 t] by (auto intro: herd_step.walk)
  have made: "n \<le> 8 \<Longrightarrow> (herd_step 7)\<^sup>*\<^sup>* ?b (?made n)" for n
  proof (induction n)
    case 0
    have "?made 0 = ?b" by (simp add: herd_start_def)
    then show ?case by simp
  next
    case (Suc n)
    have "herd_act 7 (?made n) (?made (Suc n))"
      using by_main [OF main_act.spawn [of "?made n" n], of 7] Suc.prems by (simp add: HERD_WORKERS_def replicate_append_same)
    with Suc step show ?case by (auto intro: rtranclp.rtrancl_into_rtrancl)
  qed
  let ?s1 = "(?made 8)\<lparr>hd_time := 10000000, hd_pc := Settled\<rparr>"
  let ?s2 = "?s1\<lparr>hd_pc := Aiming 10000000\<rparr>"
  let ?s3 = "?s2\<lparr>hd_started := True, hd_pc := Joining 0 10000000\<rparr>"
  let ?s4 = "goes 0 (Begins 0) ?s3"
  let ?s5 = "goes 0 (Queued 0 10000000) ?s4"
  let ?s6 = "goes 0 (Entered 0 10000000) (?s5\<lparr>hd_mu := Some 0\<rparr>)"
  have now: "hd_now s = (10000000, init_clock)" if "hd_time s = 10000000" "hd_clk s = init_clock" for s
    using hd_now_reading [of s] that by (simp add: init_clock_def reading_def)
  note simps = herd_start_def is_at_def goes_def HERD_WORKERS_def HERD_ITERS_def
  have 1: "herd_act 7 (?made 8) ?s1" using by_main [OF main_act.settle [of "?made 8" 8], of 7] by (simp add: simps)
  have 2: "herd_act 7 ?s1 ?s2" using by_main [OF main_act.aim [OF _ now, of ?s1], of 7] by (simp add: simps)
  have 3: "herd_act 7 ?s2 ?s3" using by_main [OF main_act.fire [of ?s2]] by (simp add: simps)
  have 4: "herd_act 7 ?s3 ?s4" by (rule by_worker [OF worker_act.pass_gate]) (simp_all add: simps)
  have 5: "herd_act 7 ?s4 ?s5"
    using by_worker [OF worker_act.queue [OF _ _ now, of ?s4 0 0], of 7] by (simp add: simps)
  have 6: "herd_act 7 ?s5 ?s6" by (rule by_worker [OF worker_act.lock]) (simp_all add: simps)
  have r: "(herd_step 7)\<^sup>*\<^sup>* ?b ?s6"
    using made [OF order_refl] step [OF 1] step [OF 2] step [OF 3] step [OF 4] step [OF 5] step [OF 6]
    by (meson rtranclp.rtrancl_into_rtrancl)
  have "is_at ?s6 0 (Entered 0 10000000)" by (simp add: simps)
  with herd_mutual_exclusion [OF r this this] r show ?thesis by auto
qed

end
