(* ===== verification/Catalogue.thy ===== *)
theory Catalogue
  imports Headless Scen_Memory Scen_Network Scen_Concurrency Scen_Split Scen_Herd
begin

text \<open>
  The whole program: the nineteen scenarios that the build links in, found by name in the
  registry in whatever order the linker runs their constructors, and a headless run of one of
  them from the command line to the lines of output, through the child, the pipe and the parent.
\<close>

section \<open>The scenarios of the program\<close>

definition scenario_ids :: "string list" where
  "scenario_ids =
     [''double_free'', ''arena_corrupt'', ''uaf_callback'', ''crash_null_deref'', ''disk_full'',
      ''partial_write'', ''slow_fsync'', ''clock_jump'', ''jittery_timer'', ''packet_loss'',
      ''partial_read'', ''connection_reset'', ''race_counter'', ''deadlock_classic'',
      ''thread_cancel_midwrite'', ''cascading_failure'', ''flaky_environment'', ''split_brain'',
      ''thundering_herd'']"

text \<open>The descriptors, for every choice of what the kernel and the scheduler decide in their runs.\<close>

inductive in_suite :: "unit pg_scenario_t \<Rightarrow> bool" where
  of_double_free: "in_suite (double_free_scen calloc_ok mapping)"
| of_arena_corrupt: "in_suite (arena_corrupt_scen calloc_ok mapping)"
| of_uaf_callback: "in_suite (uaf_callback_scen calloc_ok mapping)"
| of_crash_null_deref: "in_suite crash_null_deref_scen"
| of_disk_full: "in_suite (disk_full_scen mk tmpl kern)"
| of_partial_write: "in_suite (partial_write_scen mk tmpl kern)"
| of_slow_fsync: "in_suite (slow_fsync_scen mk tmpl ans clk ts0 ts1)"
| of_clock_jump: "in_suite (clock_jump_scen readings clk)"
| of_jittery_timer: "in_suite (jittery_timer_scen readings)"
| of_packet_loss: "in_suite (packet_loss_scen pct w kern rs)"
| of_partial_read: "in_suite (partial_read_scen w wr rs)"
| of_connection_reset: "in_suite (connection_reset_scen s)"
| of_race_counter: "in_suite (race_counter_scen s)"
| of_deadlock_classic: "in_suite (deadlock_classic_scen s)"
| of_thread_cancel_midwrite: "in_suite (thread_cancel_midwrite_scen th tm n)"
| of_cascading_failure: "in_suite (cascading_failure_scen mk tmpl w th kern rs clk ts0 ts1)"
| of_flaky_environment: "in_suite (flaky_environment_scen mk tmpl w kern clk t lats)"
| of_split_brain: "in_suite (split_brain_scen w th ends)"
| of_thundering_herd: "in_suite (thundering_herd_scen mk tmpl t clk s)"

lemmas scenario_defs = double_free_scen_def arena_corrupt_scen_def uaf_callback_scen_def crash_null_deref_scen_def
  disk_full_scen_def partial_write_scen_def slow_fsync_scen_def clock_jump_scen_def
  jittery_timer_scen_def packet_loss_scen_def partial_read_scen_def connection_reset_scen_def
  race_counter_scen_def deadlock_classic_scen_def thread_cancel_midwrite_scen_def cascading_failure_scen_def
  flaky_environment_scen_def split_brain_scen_def thundering_herd_scen_def

lemma suite_member:
  assumes "in_suite s"
  shows "sc_id s \<in> set scenario_ids" and "sc_init s = None" and "sc_teardown s = None"
  using assms by (induction; simp only: scenario_defs pg_scenario_t.select_convs scenario_ids_def list.set insert_iff simp_thms)+

lemma distinct_ids: "distinct scenario_ids" "length scenario_ids = 19"
  by (simp_all add: scenario_ids_def)

section \<open>Through the whole program\<close>

text \<open>An event as the helpers of \<open>Emit\<close> make them.\<close>

definition well_made :: "pg_event_t \<Rightarrow> bool" where
  "well_made ev \<longleftrightarrow> event_wf ev \<and> strings_ok ev \<and> \<not> is_done ev"

lemma golden_well_made:
  assumes "event_wf ev" and "golden ev = (k, Some key, n, Some t)" and "k \<noteq> ''done''"
  shows "well_made ev"
  using assms by (auto simp: well_made_def golden_def strings_ok_def cstr_def pg_event_kind_name_def kind_of_def split: if_splits)

lemma payload_ok: "same_payload ev copy \<Longrightarrow> well_made ev \<Longrightarrow> strings_ok copy \<and> \<not> is_done copy"
  by (simp add: same_payload_def well_made_def strings_ok_def)

lemma payloads_ok: "list_all2 same_payload evs copies \<Longrightarrow> list_all well_made evs \<Longrightarrow> \<forall>e \<in> set copies. strings_ok e \<and> \<not> is_done e"
  by (induction rule: list_all2_induct) (auto dest: payload_ok)

text \<open>
  What a child leaves that runs a scenario without \<open>init\<close> and \<open>teardown\<close>, with the seed of the
  run.
\<close>

lemma script_stream:
  assumes "sc_init s = None" and "sc_teardown s = None"
    and "sc_run s None (child_setup seed rd wr env c) = play_run (Some (evs, Returns rc)) (child_setup seed rd wr env c)"
    and "list_all well_made evs" and "0 \<le> wr" and "pipe_bytes c = []" and "fair_to (256 * (length evs + 1)) (answers c)"
  obtains c' copies fin where "child_main s seed rd wr env c = Some (c', WExited (if rc = 0 then 0 else 1))"
    and "pipe_bytes c' = concat (map encode_event (copies @ [fin]))" and "list_all2 same_payload evs copies"
    and "\<forall>e \<in> set (copies @ [fin]). event_wf e \<and> header_ok e \<and> strings_ok e"
    and "\<forall>e \<in> set copies. \<not> is_done e" and "is_done fin"
proof -
  let ?c = "child_setup seed rd wr env c"
  have "pipe_ready TheCtx ?c" using assms(5) by (simp add: pipe_ready_def child_setup_fields)
  moreover have "\<forall>ev \<in> set evs. event_wf ev" using assms(4) by (simp add: list_all_iff well_made_def)
  moreover have "fair_to (256 * length evs + 256) (answers ?c)" using assms(7) by (simp add: child_setup_fields add.commute)
  ultimately obtain c2 copies where em: "emit_all TheCtx evs ?c = Some c2"
    "pipe_bytes c2 = pipe_bytes ?c @ concat (map encode_event copies)"
    "list_all2 same_payload evs copies"
    "\<forall>ev \<in> set copies. event_wf ev \<and> header_ok ev" "same_wiring ?c c2" "fair_to 256 (answers c2)"
    by (rule emit_all_fair)
  have init: "call_init s ?c = Some (?c, Returns (0, None))" using assms(1) by (simp add: call_init_def)
  have run: "sc_run s None ?c = Some (c2, Returns rc)" using assms(3) em(1) by (simp add: play_run_def play_def)
  have tear: "call_teardown s None c2 = Some (c2, Returns ())" using assms(2) by (simp add: call_teardown_def)
  have wr: "0 \<le> event_fd_w (ctx_obj c2)" using em(5) assms(5) by (simp add: same_wiring_def child_setup_fields)
  from run_writes [OF init _ tear wr em(6), of rc] run obtain c' fin where
    "child_main s seed rd wr env c = Some (c', WExited (if rc = 0 then 0 else 1))"
    "pipe_bytes c' = pipe_bytes c2 @ encode_event fin" "same_payload (blank_event PG_EV_DONE) fin"
    "event_wf fin" "header_ok fin" by auto
  moreover from this(3) have "is_done fin" "strings_ok fin"
    using helper_strings_ok(1) [of PG_EV_DONE] by (simp_all add: same_payload_def blank_event_def strings_ok_def)
  ultimately show thesis
    using em(2,3,4) assms(6) payloads_ok [OF em(3) assms(4)]
    by (intro that [of c' copies fin]) (auto simp: child_setup_fields)
qed

lemma parse_run_args:
  assumes "0 < n" and "n < 2 ^ 64"
  shows "parse_args [''--scenario'', name, ''--seed'', show_nat n, ''--json''] opt =
    Inr (opt\<lparr>scenario_id := Some name, o_seed := of_nat n, o_json := True\<rparr>)"
  using assms by (simp add: strtoull_show_nat)

lemma found_in_suite:
  assumes "distinct (map sc_id ss)" and "i < length ss" and "length ss \<le> PG_REG_MAX"
  shows "pg_registry_find (Some (sc_id (ss ! i))) (run_constructors ss) = Some (ss ! i)"
  using reg.lookup_built [of i ss] assms by (auto simp: run_constructors_def distinct_conv_nth)

section \<open>Properties\<close>

text \<open>
  C40: every scenario of the program is found under its name. In whatever order the constructors of
  the nineteen scenarios run, the registry holds all of them, each of the nineteen names finds the
  scenario that has it, and no other name finds anything.
\<close>

theorem program_finds_its_scenarios:
  assumes "list_all in_suite ss" and "distinct (map sc_id ss)" and "length ss = 19"
  shows "snd (pg_registry_list (run_constructors ss)) = ss
    \<and> (name \<in> set scenario_ids \<longleftrightarrow>
        (\<exists>s. pg_registry_find (Some name) (run_constructors ss) = Some s \<and> in_suite s \<and> sc_id s = name))
    \<and> (name \<notin> set scenario_ids \<longleftrightarrow> pg_registry_find (Some name) (run_constructors ss) = None)"
proof -
  have cap: "length ss \<le> PG_REG_MAX" using assms(3) by (simp add: PG_REG_MAX_def)
  have "set (map sc_id ss) = set scenario_ids"
  proof (rule card_subset_eq)
    show "set (map sc_id ss) \<subseteq> set scenario_ids" using assms(1) suite_member(1) by (auto simp: list_all_iff)
    show "card (set (map sc_id ss)) = card (set scenario_ids)"
      using assms(2,3) distinct_ids by (simp only: distinct_card length_map)
  qed simp
  then have ids: "sc_id ` set ss = set scenario_ids" by simp
  have none: "pg_registry_find (Some name) (run_constructors ss) = None \<longleftrightarrow> name \<notin> set scenario_ids" for name
    using reg.lookup_none [OF cap, of name] ids by (simp add: run_constructors_def)
  have "\<exists>s. pg_registry_find (Some name) (run_constructors ss) = Some s \<and> in_suite s \<and> sc_id s = name"
    if "name \<in> set scenario_ids"
  proof -
    from that ids obtain s where s: "s \<in> set ss" "name = sc_id s" by blast
    then obtain i where i: "i < length ss" "name = sc_id (ss ! i)" by (auto simp: in_set_conv_nth)
    have "pg_registry_find (Some name) (run_constructors ss) = Some (ss ! i)"
      using found_in_suite [OF assms(2) i(1)] cap i by simp
    with i assms(1) show ?thesis by (auto simp: list_all_length)
  qed
  moreover have "snd (pg_registry_list (run_constructors ss)) = ss"
    using reg.entries_built [of ss] cap by (simp add: run_constructors_def)
  ultimately show ?thesis using none [of name] by auto
qed

text \<open>A suite with some world for every scenario.\<close>

definition demo_suite :: "unit pg_scenario_t list" where
  "demo_suite =
     [double_free_scen True (Some 0x10000),
      arena_corrupt_scen True (Some 0x10000),
      uaf_callback_scen True (Some 0x10000),
      crash_null_deref_scen,
      disk_full_scen 7 [] (\<lambda>i. Moves 4096),
      partial_write_scen 7 [] (\<lambda>i. Moves 4096),
      slow_fsync_scen 7 [] (Moves 1024) init_clock (timespec_of_ns 0) (timespec_of_ns 0),
      clock_jump_scen (\<lambda>i. timespec_of_ns 0) init_clock,
      jittery_timer_scen (\<lambda>i. timespec_of_ns 0),
      packet_loss_scen (\<lambda>x y. []) demo_link (\<lambda>i. Moves 4096) [],
      partial_read_scen demo_link (Moves 4096) [],
      connection_reset_scen (cr_start (Some (3, 4)) True),
      race_counter_scen rc_start,
      deadlock_classic_scen (dl_start True True True),
      thread_cancel_midwrite_scen True True 3,
      cascading_failure_scen 7 [] demo_link True (\<lambda>i. Moves 4096) [] init_clock (timespec_of_ns 0) (timespec_of_ns 0),
      flaky_environment_scen 7 [] demo_link (\<lambda>i. Moves 4096) init_clock 0 [],
      split_brain_scen demo_link True sb_start,
      thundering_herd_scen 7 [] 0 init_clock (herd_start 0 init_clock init_slots)]"

lemma demo_suite_ok: "list_all in_suite demo_suite" "map sc_id demo_suite = scenario_ids"
proof -
  show "list_all in_suite demo_suite" unfolding demo_suite_def by (simp only: list.pred_inject in_suite.intros simp_thms)
  show "map sc_id demo_suite = scenario_ids"
    by (simp only: demo_suite_def scenario_ids_def scenario_defs pg_scenario_t.select_convs list.map)
qed

theorem program_finds_its_scenarios_witness:
  "\<exists>s. pg_registry_find (Some ''split_brain'') (run_constructors (rev demo_suite)) = Some s \<and> in_suite s"
proof -
  have "length (map sc_id (rev demo_suite)) = 19" using distinct_ids by (simp only: rev_map [symmetric] length_rev demo_suite_ok)
  then have "length (rev demo_suite) = 19" by (simp only: length_map)
  moreover have "distinct (map sc_id (rev demo_suite))" by (simp add: rev_map [symmetric] demo_suite_ok distinct_ids)
  moreover have "list_all in_suite (rev demo_suite)" using demo_suite_ok(1) by (simp add: list_all_iff)
  ultimately show ?thesis
    using program_finds_its_scenarios [of "rev demo_suite" "''split_brain''"] by (auto simp: scenario_ids_def)
qed

text \<open>
  C1: from the command line to the output. Take any of the scenarios linked in, in any order, and a
  run of it with the given seed that returns \<open>rc\<close> after the events \<open>evs\<close>: when no transfer of
  the pipe fails for good, \<open>--scenario ID --seed N --json\<close> forks a child that exits with 0 or 1
  as \<open>rc\<close> says, and prints one JSON line for each of the events, with its kind, key, number and
  text, and one for \<open>PG_EV_DONE\<close>; it writes nothing to standard error and exits with 0.
\<close>

theorem program_prints_its_scenario:
  assumes "list_all in_suite ss" and "distinct (map sc_id ss)" and "length ss \<le> 256" and "s \<in> set ss"
    and "0 < n" and "n < 2 ^ 64"
    and "sc_run s None (child_setup (of_nat n) rd wr env c) = play_run (Some (evs, Returns rc)) (child_setup (of_nat n) rd wr env c)"
    and "list_all well_made evs" and "0 \<le> wr" and "pipe_bytes c = []" and "fair_to (256 * (length evs + 1)) (answers c)"
    and "child_main s (of_nat n) rd wr env c = Some (c', st)"
    and "pw_pipe w = Some (rd, wr)" and "0 \<le> rd" and "0 < pw_fork w" and "pw_stream w = pipe_bytes c'"
    and "fair_to (256 * (length evs + 1)) (pw_reads w)" and "pw_waits w = Reaped st # later"
  shows "st = WExited (if rc = 0 then 0 else 1)
    \<and> (\<exists>lines copies dn. pg_main (run_constructors ss) argv0 [''--scenario'', sc_id s, ''--seed'', show_nat n, ''--json'']
          now tui env secs w = Some (0, concat lines, [])
        \<and> list_all2 same_payload evs copies \<and> is_done dn
        \<and> list_all2 (\<lambda>ev l. json_line ev = Some l) (copies @ [dn]) lines)"
proof -
  obtain i where i: "i < length ss" "s = ss ! i" using assms(4) by (auto simp: in_set_conv_nth)
  have find: "pg_registry_find (Some (sc_id s)) (run_constructors ss) = Some s"
    using found_in_suite [OF assms(2) i(1)] assms(3) i(2) by (simp add: PG_REG_MAX_def)
  have "in_suite s" using assms(1,4) by (simp add: list_all_iff)
  then have plain: "sc_init s = None" "sc_teardown s = None" by (rule suite_member)+
  obtain d copies dn where
    d: "child_main s (of_nat n) rd wr env c = Some (d, WExited (if rc = 0 then 0 else 1))"
    and str: "pipe_bytes d = concat (map encode_event (copies @ [dn]))"
    and pay: "list_all2 same_payload evs copies"
    and ok: "\<forall>e \<in> set (copies @ [dn]). event_wf e \<and> header_ok e \<and> strings_ok e"
      "\<forall>e \<in> set copies. \<not> is_done e" "is_done dn"
    by (rule script_stream [OF plain assms(7-11)])
  have c': "c' = d" "st = WExited (if rc = 0 then 0 else 1)" using d assms(12) by simp_all
  have len: "length copies = length evs" using list_all2_lengthD [OF pay] by simp
  have "pw_stream w = concat (map encode_event (copies @ [dn])) @ []" using assms(16) str c'(1) by simp
  from headless_lines [OF find assms(13-15) this ok _ assms(18), of "of_nat n" True env secs] assms(17) len obtain lines where
    lines: "run_headless (run_constructors ss) (sc_id s) (of_nat n) True env secs w = Some (0, concat lines, [])"
      "list_all2 (\<lambda>ev l. print_event True secs ev = Some l) (copies @ [dn]) lines"
    by auto
  have "(of_nat n :: u64) \<noteq> 0" using assms(5,6) by (simp add: word_of_nat_eq_0_iff nat_dvd_not_less)
  then have "pg_main (run_constructors ss) argv0 [''--scenario'', sc_id s, ''--seed'', show_nat n, ''--json'']
      now tui env secs w = Some (0, concat lines, [])"
    unfolding pg_main_def parse_run_args [OF assms(5,6)] using lines(1) by (simp add: Let_def)
  moreover have "list_all2 (\<lambda>ev l. json_line ev = Some l) (copies @ [dn]) lines"
    using lines(2) by (simp add: print_event_def)
  ultimately show ?thesis using c'(2) pay ok(3) by blast
qed

theorem program_prints_its_scenario_witness:
  "\<exists>c' lines. child_main (double_free_scen True (Some 0x10000)) 42 3 4 None (demo_child (replicate 3072 (Moves 100)))
        = Some (c', WExited 0)
    \<and> pg_main (run_constructors demo_suite) ''playground_run'' [''--scenario'', ''double_free'', ''--seed'', show_nat 42, ''--json'']
        7 None None (\<lambda>_. []) \<lparr>pw_pipe = Some (3, 4), pw_fork = 100, pw_stream = pipe_bytes c',
          pw_reads = replicate 3072 (Moves 50), pw_waits = [Reaped (WExited 0)]\<rparr> = Some (0, concat lines, [])
    \<and> length lines = 12"
proof -
  let ?s = "double_free_scen True (Some 0x10000)" and ?c = "demo_child (replicate 3072 (Moves 100))"
  have "mappable 0x10000" by (simp add: mappable_def)
  from df_run_golden [OF this] obtain evs where evs: "df_run True (Some 0x10000) = Some (evs, Returns 0)"
    "map golden evs = double_free_golden 0x10000" "list_all event_wf evs" by blast
  have n: "length evs = 11" using evs(2) by (metis length_map length_double_free_golden)
  have "list_all (\<lambda>g. fst g \<noteq> ''done'' \<and> (\<exists>k key m t. g = (k, Some key, m, Some t))) (double_free_golden 0x10000)"
    by (simp add: double_free_golden_def line_def)
  then have "list_all (\<lambda>e. fst (golden e) \<noteq> ''done'' \<and> (\<exists>k key m t. golden e = (k, Some key, m, Some t))) evs"
    unfolding evs(2) [symmetric] by (simp add: list.pred_map o_def)
  then have made: "list_all well_made evs"
    using evs(3) golden_well_made by (fastforce simp: list_all_iff)
  have plain: "sc_init ?s = None" "sc_teardown ?s = None" "sc_run ?s None = play_run (df_run True (Some 0x10000))" "sc_id ?s = ''double_free''"
    by (simp_all only: double_free_scen_def pg_scenario_t.select_convs)
  have run: "sc_run ?s None (child_setup (of_nat 42) 3 4 None ?c) = play_run (Some (evs, Returns 0)) (child_setup (of_nat 42) 3 4 None ?c)"
    by (simp only: plain(3) evs(1))
  have c: "pipe_bytes ?c = []" "fair_to (256 * (length evs + 1)) (answers ?c)"
    by (simp_all add: demo_child_def fair_to_def n)
  obtain c' where c': "child_main ?s (of_nat 42) 3 4 None ?c = Some (c', WExited 0)"
    by (rule script_stream [OF plain(1,2) run made _ c]) (use that in simp_all)
  let ?w = "\<lparr>pw_pipe = Some (3, 4), pw_fork = 100, pw_stream = pipe_bytes c',
    pw_reads = replicate 3072 (Moves 50), pw_waits = [Reaped (WExited 0)]\<rparr>"
  have suite: "distinct (map sc_id demo_suite)" "length demo_suite \<le> 256" "?s \<in> set demo_suite"
    unfolding demo_suite_ok(2) using distinct_ids by (simp_all add: demo_suite_def)
  have fair: "fair_to (256 * (length evs + 1)) (pw_reads ?w)" by (simp add: fair_to_def n)
  from program_prints_its_scenario [OF demo_suite_ok(1) suite _ _ run made _ c c', of ?w "[]" "''playground_run''" 7 None "\<lambda>_. []"] fair
  obtain lines copies dn where "pg_main (run_constructors demo_suite) ''playground_run''
      [''--scenario'', sc_id ?s, ''--seed'', show_nat 42, ''--json''] 7 None None (\<lambda>_. []) ?w = Some (0, concat lines, [])"
    and l: "list_all2 same_payload evs copies" "list_all2 (\<lambda>ev l. json_line ev = Some l) (copies @ [dn]) lines"
    by auto
  moreover have "length lines = 12" using list_all2_lengthD [OF l(1)] list_all2_lengthD [OF l(2)] n by simp
  ultimately show ?thesis using c' unfolding plain(4) by auto
qed

end
