(* ===== verification/Spec2Isabelle.thy ===== *)
theory Spec2Isabelle
  imports Tui Catalogue
begin

text \<open>
  Verification library of the failure playground: a C program that runs small scenarios, each of
  which breaks one thing (memory, a thread, a link, a disk, a clock), in a child process, and shows
  the events the child emits in a terminal or as lines of JSON.

  \<^bold>\<open>The program and the theories.\<close> The parts call each other from the bottom of this list to its
  top; every theory imports what its part calls.

  \<^item> \<open>PG_Prelude\<close>, \<open>C_Lib\<close>, \<open>Posix\<close>: machine words, strings in fixed arrays, \<open>printf\<close> and
    \<open>strtoull\<close>, object representation, and the answers of the kernel to a call. \<open>Step_System\<close>:
    what the state machines share.
  \<^item> \<open>Xoshiro\<close>: \<open>src/core/rand.c\<close>, bit for bit. \<open>Wire\<close>: \<open>include/playground/event.h\<close>, the
    record of 256 bytes.
  \<^item> \<open>Chaos_IO\<close>, \<open>Arena\<close>, \<open>Chaos_Net\<close>, \<open>Chaos_Thread\<close>: the four libraries of \<open>src/chaos\<close>:
    descriptors with quotas, short transfers and a skewed clock; the arena with redzones; the lossy
    connection; tagged threads, timers and the watchdog.
  \<^item> \<open>Emit\<close>, \<open>Registry\<close>, \<open>Runner\<close>: \<open>src/core/runner.c\<close> and \<open>registry.c\<close>. \<open>Emit\<close> is what the
    child does to send a record, \<open>Registry\<close> the table of scenarios, \<open>Runner\<close> the life of the child
    and the parent's side of it.
  \<^item> \<open>Script\<close>, \<open>Scen_Memory\<close>, \<open>Scen_TimeIO\<close>, \<open>Scen_Concurrency\<close>, \<open>Net_Link\<close>, \<open>Scen_Network\<close>,
    \<open>Scen_Compound\<close>, \<open>Scen_Split\<close>, \<open>Scen_Herd\<close>: the nineteen scenarios of \<open>src/scenarios\<close>.
  \<^item> \<open>Headless\<close>: \<open>src/main.c\<close>. \<open>Tui_Panes\<close> and \<open>Tui\<close>: \<open>src/tui/tui.c\<close>. \<open>Catalogue\<close>: the program
    as it is linked, from the command line to the lines it prints.

  \<^bold>\<open>How code becomes a definition.\<close> A struct is a record with its fields, an enumeration a datatype,
  an unsigned integer a word of its width; a signed 64-bit value of an event is a word that \<open>sint\<close>
  reads. A counter of a scenario that stays far below \<open>2 ^ 63\<close> is an integer, which the theory
  says where it does so. A function has the name it has in C; a loop is a recursive function whose
  local variables are its arguments or a record. What another process, the kernel, the terminal or
  the scheduler decides is an argument, or the choice of a step: what \<open>write\<close>, \<open>read\<close>, \<open>poll\<close>,
  \<open>waitpid\<close>, \<open>mkstemp\<close>, \<open>calloc\<close> and \<open>pthread_create\<close> return, how the bytes of a pipe are cut,
  which key is pressed, how long a sleep takes. \<open>None\<close> is undefined behaviour (an access outside a
  mapping or an array, a freed handle) or a call that has not returned with the answers given.

  \<^item> State. \<open>child\<close> is the process of a scenario as the harness sees it; \<open>pg_run_handle_t\<close> what the
    parent keeps of it; \<open>g_slots\<close> of \<open>chaos_io.c\<close> is a list of slots; \<open>chaos_arena\<close> is the mapping
    as a memory of bytes; \<open>threads\<close> is the heap of handles with the armed timers; \<open>tui_state\<close> is
    the log, the table of statistics and the selection of the terminal.
  \<^item> Threads. Where threads share variables the model is an inductive step relation on program
    counters and shared state: \<open>race_step\<close> (threads in \<open>pg_emit\<close>), \<open>client_step\<close> (a client of
    \<open>Chaos_Thread\<close> and its timers), \<open>rc_step\<close>, \<open>dl_turn\<close>, \<open>cr_step\<close>, \<open>sb_step\<close>, \<open>herd_step\<close>
    (scenarios). A run is a chain of steps, and a theorem about the closure of the relation holds
    for every schedule. \<open>herd_step\<close> has spurious wakeups of the condition variable, and \<open>herd_walk\<close>,
    on which the run ends, has not.
  \<^item> Clients. \<open>arena_client\<close> and \<open>io_reachable\<close> are what a program may do with the arena and with
    the wrapped descriptors, knowing only what the calls gave it: pointers and sizes, and
    descriptors. The kernel is asked for one thing only, not to hand out a descriptor it has open.
  \<^item> Two processes. The child only writes and the parent only reads, and a reader waits as long as a
    write end is open. So an interleaving of the two is a way to cut the stream of bytes, and a
    theorem for every cut holds for every interleaving.

  \<^bold>\<open>Interfaces.\<close> A locale states what one part relies on of another, and is interpreted on the code's
  own definitions. \<open>prng\<close> (interpreted as \<open>xosh\<close>): a generator and its good states.
  \<open>record_codec\<close> (\<open>event\<close>): a record format of fixed size, from which the decoding of a stream
  follows. \<open>policy_table\<close> (\<open>io\<close>): the slot array is a finite map. \<open>checked_heap\<close> (\<open>arena\<close>): what a
  heap that detects misuse promises. \<open>catalogue\<close> (\<open>reg\<close>): entries in order, lookup of the first.
  \<open>tally\<close> (\<open>stt\<close>): a bounded table folded over a stream. \<open>step_system\<close>, \<open>ending_system\<close> and
  \<open>projected_system\<close> (\<open>race\<close>, \<open>client\<close>, \<open>rc\<close>, \<open>dl\<close>, \<open>common\<close>, \<open>reset\<close>, \<open>sb\<close>, \<open>herd\<close>, \<open>going\<close>): an
  invariant, an end, and a part of a machine that runs alone.

  \<^bold>\<open>What is shown.\<close>

  \<^item> From end to end: \<open>program_prints_its_scenario\<close> goes from the argument vector through the
    registry, the child, the pipe and the parent to the bytes on standard output, for every scenario
    of the suite and every schedule. It rests on \<open>pg_emit_delivers\<close> (a record is written whole),
    \<open>run_delivers_everything\<close> (a run is its events and one \<open>DONE\<close>), \<open>polling_delivers_the_stream\<close>
    (every cut yields the same records) and \<open>headless_lines\<close> (one line per event).
    \<open>program_finds_its_scenarios\<close>: the order of the constructors does not matter.
  \<^item> When a child dies: \<open>crash_is_reported\<close>, \<open>headless_reports_death\<close> and \<open>torn_record_is_glued\<close>, the
    last one against what the comment in the header promises; \<open>run_lifecycle_accounts\<close>: what becomes
    of the descriptors and of the child on every path, the one that loses a descriptor included.
  \<^item> The arena refines a list of blocks for requests below 4 GiB (\<open>arena_alloc_refines\<close>), keeps what
    it gave a client apart (\<open>arena_blocks_apart\<close>), counts broken redzones exactly
    (\<open>arena_check_exact\<close>), frees what is held and rejects a second free (\<open>arena_double_free\<close>).
  \<^item> Descriptors: one slot each (\<open>io_reachable_wf\<close>) as long as \<open>chaos_io_close\<close> closes them
    (\<open>plain_close_keeps_quota\<close> is why), and no more bytes than the quota when the calls
    come one after the other (\<open>io_writes_within_quota\<close>); \<open>io_write_race_exceeds_quota\<close> shows that
    they have to. Links: a forwarder only drops, within the bounds of its knobs
    (\<open>forwarding_only_drops\<close>). Threads: when exactly a client that waits before it joins is safe from
    its timers (\<open>disciplined_clients_are_safe\<close>), which the rule of the header is not enough for.
  \<^item> The lessons of the scenarios, each as a theorem about every schedule: how many updates a race can
    lose (\<open>race_counter_bounds\<close>, exact by \<open>race_counter_extremes\<close>), that opposite lock orders
    deadlock and one order does not (\<open>opposite_order_deadlocks\<close>, \<open>common_order_returns\<close>), that eight
    workers on one mutex are as slow as one (\<open>herd_is_serial\<close>) and all come home (\<open>herd_returns\<close>),
    what a seed loses, fragment by fragment, for any cut of the reads
    (\<open>packet_loss_follows_seed\<close>), that a cascade persists what arrives, that a closed peer is an error
    and not a signal (\<open>connection_reset_is_survived\<close>), that a heartbeat keeps its mean, and that a
    replica of \<open>split_brain\<close> hears only itself, which is not what its text says.
    The scenarios without a choice produce the lines of the golden files under \<open>tests/golden\<close>.
  \<^item> The terminal: the pane shows the last of the lines of all events (\<open>run_shows_every_event\<close>), every key keeps the state well
    formed (\<open>keys_keep_state_ok\<close>), a run is killed at most once, the statistics are those of the
    stream as long as they fit, the overlay wraps lines without losing any.

  Most of a theory are the lemmas between its definitions and its properties: laws of each operation
  on every branch, the invariant of each machine and its preservation step by step, the measure of
  each loop. Properties have an instance after them wherever they have a hypothesis.

  \<^bold>\<open>Bounds.\<close> The sizes are those of the code: \<open>EVENT_SIZE\<close> 256, \<open>PG_REG_MAX\<close> 256 scenarios,
  \<open>IO_SLOTS_MAX\<close> 64 descriptors, \<open>LOG_LINES\<close> 512, \<open>STATS_MAX\<close> 64, 8 writers of 1000 writes, 8
  workers of 6 turns, 30 turns of a replica. A loop over answers of the kernel is a recursion on
  their list: it needs no fuel, and a list that is too short is a loop that has not ended yet; the
  theorems that a loop returns say which lists are long enough. Virtual times are assumed below
  \<open>2 ^ 57\<close> ns (more than four years) where a difference of two readings is taken as a signed number,
  and sums of \<open>n\<close> delays below \<open>2 ^ 62\<close>. Loops that end for a reason of their own have a measure;
  the scan of the arena, which a wild write can send round for ever, is a partial function and
  \<open>None\<close> where it does not end.

  \<^bold>\<open>Not modelled.\<close> The calls of ncurses, \<open>init_colors\<close>, refreshes and borders: a pane is the list of
  what is printed into it. Decimals of a double in a text line (\<open>%.3f\<close> and the like) and the width of
  a gauge in cells: they are parameters. How long a sleep takes in the step relations of the race,
  the deadlock, the connection that goes away and the two replicas: there any step may come at any
  time, which includes it. Weak
  memory: an access to a shared variable is whole and sequentially consistent, so that the race
  is a matter of interleaving and not of the compiler. The message \<open>pg_run_poll\<close> prints for a record
  with a bad header, the time stamp \<open>last_heard_ns\<close>, which nothing reads, the threads that drain a
  pipe with the bytes written for them (in \<open>flaky_environment\<close> also its \<open>pthread_create\<close>, whose
  result the code ignores), and the calls at the end of a scenario that give resources back and emit
  nothing. The test drivers, the build files and the template generator are not part of the program.

  \<^bold>\<open>Where the model is simpler than C.\<close> The count of \<open>chaos_arena_check\<close> is an integer, in C an
  \<open>int\<close>: they differ beyond \<open>2 ^ 31\<close> broken zones, for which a mapping needs 40 GB. A counter of
  the terminal wraps around where C leaves the overflow undefined. The address of a freed thread
  handle is not handed out again, so that a use after free is seen as one. In \<open>pg_emit\<close> a write to a
  pipe without a reader returns \<open>EPIPE\<close>, as where \<open>SIGPIPE\<close> is ignored; in a child that does not
  ignore it the signal would end it. A run of \<open>deadlock_classic\<close> is over when \<open>run\<close> has returned:
  the watchdog is not followed beyond that.
\<close>

end
